(* ===== verification/Sponge_Prelude.thy ===== *)
theory Sponge_Prelude
  imports Main "HOL-Library.Word"
begin

text \<open>
  The vocabulary shared by every component of the development: the machine types of the
  C++ code, the three ways a C++ call can end, programs that pass a state explicitly, and
  the counted loop.

  \<^item> \<^bold>\<open>Types.\<close> \<open>size_t\<close> and \<open>uint64_t\<close> are 64-bit words (LP64), \<open>uint32_t\<close>, \<open>uint16_t\<close>
    and \<open>uint8_t\<close> (and \<open>char\<close>, whose sign the code never uses) the words of their width;
    \<open>int\<close> and \<open>ssize_t\<close> are HOL integers, with \<open>c_int\<close> where the code narrows one to 32
    bits. \<open>std::string\<close>, \<open>std::string_view\<close> and \<open>std::deque<char>\<close> are lists of bytes.
  \<^item> \<^bold>\<open>Outcomes.\<close> A call returns (\<open>Ok\<close>), throws (\<open>Throw\<close>) or has undefined behaviour
    (\<open>UB\<close>: an unchecked index out of range, \<open>pop_front\<close> on an empty deque, a read through
    a dead pointer). Undefined behaviour is a value, so its absence is a theorem.
  \<^item> \<^bold>\<open>Programs.\<close> \<open>('s, 'a) prog\<close> takes the state and returns the outcome with the state the
    call leaves behind, also when it throws.
  \<^item> \<^bold>\<open>Loops.\<close> \<open>forp\<close> is \<open>for (size_t k = i; k < n; k++) body(k)\<close>, its counter a 64-bit word;
    \<open>forp_rule\<close> is its invariant rule.
\<close>

unbundle bit_operations_syntax

named_theorems prog_simps \<open>unfolding of the program combinators\<close>
named_theorems prog_intros \<open>rules for predicates that programs keep\<close>
named_theorems size_simps \<open>sizes of strings and containers as 64-bit words\<close>

section \<open>Machine types\<close>

type_synonym u8 = "8 word"
type_synonym u16 = "16 word"
type_synonym u32 = "32 word"
type_synonym size_t = "64 word"
type_synonym bytes = "8 word list"

text \<open>One more than the largest \<open>size_t\<close>, \<open>2 ^ 64\<close>.\<close>

abbreviation size_limit :: nat where
  "size_limit \<equiv> 18446744073709551616"

text \<open>A C++ narrow string literal without its terminating NUL.\<close>

definition bytes_of :: "string \<Rightarrow> bytes" where
  "bytes_of s = map of_char s"

text \<open>\<open>.size()\<close> and \<open>.length()\<close> of a standard container.\<close>

definition csize :: "'a list \<Rightarrow> size_t" where
  "csize xs = word_of_nat (length xs)"

text \<open>Conversion of a wider signed integer to a 32-bit \<open>int\<close>.\<close>

definition c_int :: "int \<Rightarrow> int" where
  "c_int x = sint (word_of_int x :: 32 word)"

lemma unat_csize [size_simps]: "length xs < size_limit \<Longrightarrow> unat (csize xs) = length xs"
  by (simp add: csize_def unat_of_nat)

lemma unat_size_t_less: "unat (x :: size_t) < size_limit"
  using unsigned_less [of x, where 'a = nat] by simp

lemma int_le_uint [size_simps]: "int m \<le> uint x \<longleftrightarrow> m \<le> unat x"
  by (metis of_nat_le_iff uint_nat)

lemma numeral_le_uint [size_simps]: "numeral m \<le> uint x \<longleftrightarrow> numeral m \<le> unat x"
  using int_le_uint [of "numeral m" x] by simp

lemma unat_eq_imp_word: "unat w = n \<Longrightarrow> w = word_of_nat n"
  by auto

lemma drop_min_length [simp]: "drop (min n (length xs)) xs = drop n xs"
  by (simp add: min_def)

lemma csize_Nil [simp]: "csize [] = 0"
  by (simp add: csize_def)

lemma csize_append [simp]: "csize (xs @ ys) = csize xs + csize ys"
  by (simp add: csize_def)

lemma csize_eq_0_iff: "length xs < size_limit \<Longrightarrow> csize xs = 0 \<longleftrightarrow> xs = []"
  using unat_csize [of xs] by (auto simp: unat_eq_zero)

lemma c_int_id: "- (2 ^ 31) \<le> x \<Longrightarrow> x < 2 ^ 31 \<Longrightarrow> c_int x = x"
  by (simp add: c_int_def signed_of_int signed_take_bit_int_eq_self)

lemma sint_csize: "length xs < 2 ^ 63 \<Longrightarrow> sint (csize xs) = int (length xs)"
  by (simp add: csize_def signed_of_nat signed_take_bit_int_eq_self)

lemma length_bytes_of [simp]: "length (bytes_of s) = length s"
  by (simp add: bytes_of_def)

lemma bytes_of_append: "bytes_of (s @ t) = bytes_of s @ bytes_of t"
  by (simp add: bytes_of_def)

text \<open>The low byte of a word.\<close>

lemma low_byte: "ucast (x AND 0xff :: 'a::len word) = (ucast x :: u8)"
proof -
  have "(0xff :: 'a word) = mask 8" by (simp add: mask_eq_exp_minus_1)
  then have "x AND 0xff = take_bit 8 x" by (simp only: take_bit_eq_mask)
  then show ?thesis by (auto intro!: bit_word_eqI simp: bit_simps dest: bit_imp_le_length)
qed

text \<open>Adding one to a word below some other word does not wrap.\<close>

lemma unat_Suc_less: "(i :: 'a::len word) < n \<Longrightarrow> unat (i + 1) = Suc (unat i)"
proof -
  assume "i < n"
  then have "unat i < unat n" by (simp add: word_less_nat_alt)
  moreover have "unat n < 2 ^ LENGTH('a)" by (rule unsigned_less)
  ultimately have "unat i + 1 < 2 ^ LENGTH('a)" by linarith
  then show ?thesis by (simp add: unat_word_ariths)
qed

section \<open>Outcomes and exceptions\<close>

datatype category = System_category | Gai_error_category

text \<open>
  The exceptions the code throws carry their message; those thrown by the standard library on
  the code's behalf carry a message the library chooses.
\<close>

datatype exn =
    Out_of_range string
  | Runtime_error string
  | Tagged_error category string int
  | Std_out_of_range
  | Std_length_error
  | Std_invalid_argument

text \<open>
  \<open>what()\<close>: the attempt and the text of the error for a tagged error; \<open>message\<close> stands for the
  texts of the error categories and of the standard library's own exceptions.
\<close>

fun exn_what :: "(exn \<Rightarrow> string) \<Rightarrow> exn \<Rightarrow> string" where
  "exn_what message (Tagged_error c attempt n) = attempt @ '': '' @ message (Tagged_error c attempt n)"
| "exn_what message (Out_of_range s) = s"
| "exn_what message (Runtime_error s) = s"
| "exn_what message Std_out_of_range = message Std_out_of_range"
| "exn_what message Std_length_error = message Std_length_error"
| "exn_what message Std_invalid_argument = message Std_invalid_argument"

datatype 'a outcome = Ok 'a | Throw exn | UB

type_synonym ('s, 'a) prog = "'s \<Rightarrow> 'a outcome \<times> 's"

definition retp :: "'a \<Rightarrow> ('s, 'a) prog" where
  "retp x = (\<lambda>s. (Ok x, s))"

definition throwp :: "exn \<Rightarrow> ('s, 'a) prog" where
  "throwp e = (\<lambda>s. (Throw e, s))"

definition ubp :: "('s, 'a) prog" where
  "ubp = (\<lambda>s. (UB, s))"

definition getp :: "('s \<Rightarrow> 'a) \<Rightarrow> ('s, 'a) prog" where
  "getp f = (\<lambda>s. (Ok (f s), s))"

definition modifyp :: "('s \<Rightarrow> 's) \<Rightarrow> ('s, unit) prog" where
  "modifyp f = (\<lambda>s. (Ok (), f s))"

text \<open>Sequencing: the rest runs in the state left behind, and only after a normal return.\<close>

definition bindp :: "('s, 'a) prog \<Rightarrow> ('a \<Rightarrow> ('s, 'b) prog) \<Rightarrow> ('s, 'b) prog" where
  "bindp m f = (\<lambda>s. case m s of
       (Ok x, t) \<Rightarrow> f x t
     | (Throw e, t) \<Rightarrow> (Throw e, t)
     | (UB, t) \<Rightarrow> (UB, t))"

abbreviation thenp :: "('s, 'a) prog \<Rightarrow> ('s, 'b) prog \<Rightarrow> ('s, 'b) prog" where
  "thenp m p \<equiv> bindp m (\<lambda>_. p)"

text \<open>An expression that can fail but changes nothing.\<close>

definition liftp :: "'a outcome \<Rightarrow> ('s, 'a) prog" where
  "liftp r = (\<lambda>s. (r, s))"

text \<open>\<open>try { m } catch (const exception &e) { h(e) }\<close>: undefined behaviour is not caught.\<close>

definition catchp :: "('s, 'a) prog \<Rightarrow> (exn \<Rightarrow> ('s, 'a) prog) \<Rightarrow> ('s, 'a) prog" where
  "catchp m h = (\<lambda>s. case m s of
       (Throw e, t) \<Rightarrow> h e t
     | (Ok x, t) \<Rightarrow> (Ok x, t)
     | (UB, t) \<Rightarrow> (UB, t))"

text \<open>A destructor \<open>d\<close> that runs on leaving a scope, normally or by an exception.\<close>

definition finallyp :: "('s, 'a) prog \<Rightarrow> ('s, unit) prog \<Rightarrow> ('s, 'a) prog" where
  "finallyp m d = bindp (catchp m (\<lambda>e. thenp d (throwp e))) (\<lambda>x. thenp d (retp x))"

text \<open>A member function of the part of the state that \<open>get\<close> reads and \<open>put\<close> writes back.\<close>

definition zoomp :: "('s \<Rightarrow> 't) \<Rightarrow> ('t \<Rightarrow> 's \<Rightarrow> 's) \<Rightarrow> ('t, 'a) prog \<Rightarrow> ('s, 'a) prog" where
  "zoomp get put m = (\<lambda>s. case m (get s) of (r, t) \<Rightarrow> (r, put t s))"

text \<open>A computation on a local variable with initial value \<open>l\<close>, which returns its last value.\<close>

definition localp :: "'l \<Rightarrow> ('l, unit) prog \<Rightarrow> ('s, 'l) prog" where
  "localp l m = (\<lambda>s. case m l of
       (Ok _, l') \<Rightarrow> (Ok l', s)
     | (Throw e, _) \<Rightarrow> (Throw e, s)
     | (UB, _) \<Rightarrow> (UB, s))"

lemmas prog_defs = retp_def throwp_def ubp_def getp_def modifyp_def bindp_def liftp_def catchp_def

lemma retp_apply [prog_simps]: "retp x s = (Ok x, s)"
  and throwp_apply [prog_simps]: "throwp e s = (Throw e, s)"
  and ubp_apply [prog_simps]: "ubp s = (UB, s)"
  and getp_apply [prog_simps]: "getp g s = (Ok (g s), s)"
  and modifyp_apply [prog_simps]: "modifyp h s = (Ok (), h s)"
  and liftp_apply [prog_simps]: "liftp r s = (r, s)"
  by (simp_all add: prog_defs)

lemma bindp_retp_apply [prog_simps]: "bindp (retp x) f s = f x s"
  and bindp_throwp [prog_simps]: "bindp (throwp e) f s = (Throw e, s)"
  and bindp_ubp [prog_simps]: "bindp ubp f s = (UB, s)"
  and bindp_getp [prog_simps]: "bindp (getp g) f' s = f' (g s) s"
  and bindp_modifyp [prog_simps]: "bindp (modifyp h) k s = k () (h s)"
  and bindp_liftp_Ok [prog_simps]: "bindp (liftp (Ok x)) f s = f x s"
  and bindp_liftp_Throw [prog_simps]: "bindp (liftp (Throw e)) f s = (Throw e, s)"
  and bindp_liftp_UB [prog_simps]: "bindp (liftp UB) f s = (UB, s)"
  by (simp_all add: prog_defs)

text \<open>
  One conditional rule for each combinator: once the first program is evaluated, its outcome
  decides how to go on.
\<close>

lemma bindp_step [prog_simps]:
  "m s = (r, t) \<Longrightarrow>
   bindp m f s = (case r of Ok x \<Rightarrow> f x t | Throw e \<Rightarrow> (Throw e, t) | UB \<Rightarrow> (UB, t))"
  by (simp add: bindp_def split: outcome.splits)

lemma catchp_step [prog_simps]:
  "m s = (r, t) \<Longrightarrow>
   catchp m h s = (case r of Throw e \<Rightarrow> h e t | Ok x \<Rightarrow> (Ok x, t) | UB \<Rightarrow> (UB, t))"
  by (simp add: catchp_def split: outcome.splits)

lemma zoomp_apply [prog_simps]: "m (get s) = (r, t) \<Longrightarrow> zoomp get put m s = (r, put t s)"
  by (simp add: zoomp_def)

lemma localp_Ok [prog_simps]: "m l = (Ok u, l') \<Longrightarrow> localp l m s = (Ok l', s)"
  by (simp add: localp_def)

lemma localp_eq_Ok: "localp l m s = (Ok l', t) \<longleftrightarrow> (m l = (Ok (), l') \<and> t = s)"
  by (auto simp: localp_def split: prod.splits outcome.splits)

lemma bindp_if [prog_simps]:
  "bindp (if c then m else m') f s = (if c then bindp m f s else bindp m' f s)"
  by simp

lemma bindp_assoc: "bindp (bindp m f) g = bindp m (\<lambda>x. bindp (f x) g)"
  by (rule ext) (simp add: bindp_def split: prod.splits outcome.splits)

lemma bindp_retp [simp]: "bindp (retp x) f = f x"
  by (rule ext) (simp add: prog_simps)

lemma bindp_throwp_fun [simp]: "bindp (throwp e) f = throwp e"
  and bindp_Pair [simp]: "bindp (Pair (Ok x)) g = g x"
  by (rule ext, simp add: bindp_def throwp_def)+

lemma bindp_eq_Ok:
  "bindp m f s = (Ok y, u) \<longleftrightarrow> (\<exists>x t. m s = (Ok x, t) \<and> f x t = (Ok y, u))"
  by (auto simp: bindp_def split: prod.splits outcome.splits)

section \<open>Predicates kept by a program\<close>

text \<open>
  \<open>keeps P m\<close>: however \<open>m\<close> ends, \<open>P\<close> still holds of the state it leaves. \<open>safe P m\<close>: in
  addition \<open>m\<close> has no undefined behaviour in a state with \<open>P\<close>. Both go through sequencing, so
  that they are proved operation by operation (the rules are \<open>prog_intros\<close>).
\<close>

definition keeps :: "('s \<Rightarrow> bool) \<Rightarrow> ('s, 'a) prog \<Rightarrow> bool" where
  "keeps P m \<longleftrightarrow> (\<forall>s. P s \<longrightarrow> P (snd (m s)))"

definition safe :: "('s \<Rightarrow> bool) \<Rightarrow> ('s, 'a) prog \<Rightarrow> bool" where
  "safe P m \<longleftrightarrow> (\<forall>s. P s \<longrightarrow> fst (m s) \<noteq> UB \<and> P (snd (m s)))"

lemma keepsD: "keeps P m \<Longrightarrow> P s \<Longrightarrow> m s = (r, t) \<Longrightarrow> P t"
  unfolding keeps_def by (metis snd_conv)

lemma safeD: "safe P m \<Longrightarrow> P s \<Longrightarrow> m s = (r, t) \<Longrightarrow> r \<noteq> UB \<and> P t"
  unfolding safe_def by (metis fst_conv snd_conv)

lemma safe_keeps: "safe P m \<Longrightarrow> keeps P m"
  by (simp add: safe_def keeps_def)

lemma keeps_basic [prog_intros]:
  "keeps P (retp x)" "keeps P (throwp e)" "keeps P ubp" "keeps P (getp g)" "keeps P (liftp r)"
  by (simp_all add: keeps_def prog_simps)

lemma safe_basic [prog_intros]:
  "safe P (retp x)" "safe P (throwp e)" "safe P (getp g)"
  by (simp_all add: safe_def prog_simps)

lemma keeps_modifyp [prog_intros]: "(\<And>s. P s \<Longrightarrow> P (h s)) \<Longrightarrow> keeps P (modifyp h)"
  and safe_modifyp [prog_intros]: "(\<And>s. P s \<Longrightarrow> P (h s)) \<Longrightarrow> safe P (modifyp h)"
  by (simp_all add: keeps_def safe_def prog_simps)

lemma keeps_bindp [prog_intros]:
  "keeps P m \<Longrightarrow> (\<And>x. keeps P (f x)) \<Longrightarrow> keeps P (bindp m f)"
  by (auto simp: keeps_def bindp_def split: prod.splits outcome.splits)

lemma safe_bindp [prog_intros]:
  "safe P m \<Longrightarrow> (\<And>x. safe P (f x)) \<Longrightarrow> safe P (bindp m f)"
  by (auto simp: safe_def bindp_def split: prod.splits outcome.splits)

lemma keeps_catchp [prog_intros]:
  "keeps P m \<Longrightarrow> (\<And>e. keeps P (h e)) \<Longrightarrow> keeps P (catchp m h)"
  by (auto simp: keeps_def catchp_def split: prod.splits outcome.splits)

lemma safe_catchp [prog_intros]:
  "safe P m \<Longrightarrow> (\<And>e. safe P (h e)) \<Longrightarrow> safe P (catchp m h)"
  by (auto simp: safe_def catchp_def split: prod.splits outcome.splits)

lemma keeps_if [prog_intros]: "keeps P m \<Longrightarrow> keeps P m' \<Longrightarrow> keeps P (if c then m else m')"
  and safe_if [prog_intros]: "safe P k \<Longrightarrow> safe P k' \<Longrightarrow> safe P (if c then k else k')"
  by simp_all

lemma keeps_localp [prog_intros]: "keeps P (localp l m)"
  by (auto simp: keeps_def localp_def split: prod.splits outcome.splits)

lemma safe_localp [prog_intros]: "fst (m l) \<noteq> UB \<Longrightarrow> safe P (localp l m)"
  by (auto simp: safe_def localp_def split: prod.splits outcome.splits)

lemma keeps_prod [prog_intros]: "(\<And>x y. keeps P (f x y)) \<Longrightarrow> keeps P (case z of (x, y) \<Rightarrow> f x y)"
  and safe_prod [prog_intros]: "(\<And>x y. safe P (g x y)) \<Longrightarrow> safe P (case z of (x, y) \<Rightarrow> g x y)"
  by (simp_all add: split: prod.splits)

section \<open>Checked and unchecked reads\<close>

text \<open>
  \<open>std::string::operator[]\<close>: the position equal to the size reads the terminating NUL, a
  position beyond it is undefined behaviour.
\<close>

definition string_index :: "bytes \<Rightarrow> size_t \<Rightarrow> u8 outcome" where
  "string_index s i =
     (if unat i < length s then Ok (s ! unat i)
      else if unat i = length s then Ok 0
      else UB)"

text \<open>\<open>std::vector::operator[]\<close> and indexing of a built-in array: unchecked.\<close>

definition array_index :: "'a list \<Rightarrow> size_t \<Rightarrow> 'a outcome" where
  "array_index xs i = (if unat i < length xs then Ok (xs ! unat i) else UB)"

text \<open>\<open>std::string_view::at\<close>: checked.\<close>

definition view_at :: "bytes \<Rightarrow> size_t \<Rightarrow> u8 outcome" where
  "view_at s i = (if unat i < length s then Ok (s ! unat i)
                  else Throw Std_out_of_range)"

lemma string_index_in [simp]: "unat i < length s \<Longrightarrow> string_index s i = Ok (s ! unat i)"
  by (simp add: string_index_def)

lemma array_index_in [simp]: "unat i < length xs \<Longrightarrow> array_index xs i = Ok (xs ! unat i)"
  by (simp add: array_index_def)

lemma view_at_in [simp]: "unat i < length s \<Longrightarrow> view_at s i = Ok (s ! unat i)"
  by (simp add: view_at_def)

text \<open>Reading a NUL-terminated string: the bytes before the first NUL.\<close>

definition c_str :: "bytes \<Rightarrow> bytes" where
  "c_str s = takeWhile (\<lambda>b. b \<noteq> 0) s"

text \<open>\<open>std::string::resize\<close>: beyond \<open>max_size()\<close>, \<open>2 ^ 63 - 1\<close>, it throws \<open>length_error\<close>.\<close>

definition string_resize :: "size_t \<Rightarrow> (bytes, unit) prog" where
  "string_resize n = (\<lambda>s.
     if unat n > 9223372036854775807 then (Throw Std_length_error, s)
     else (Ok (), take (unat n) s @ replicate (unat n - length s) 0))"

text \<open>\<open>std::to_string\<close>.\<close>

fun nat_to_string :: "nat \<Rightarrow> string" where
  "nat_to_string n =
     (if n < 10 then [char_of (48 + n)] else nat_to_string (n div 10) @ [char_of (48 + n mod 10)])"

declare nat_to_string.simps [simp del]

definition int_to_string :: "int \<Rightarrow> string" where
  "int_to_string i = (if i < 0 then CHR ''-'' # nat_to_string (nat (- i)) else nat_to_string (nat i))"

text \<open>The exit codes of \<open>main\<close>.\<close>

definition EXIT_SUCCESS :: int where "EXIT_SUCCESS = 0"
definition EXIT_FAILURE :: int where "EXIT_FAILURE = 1"

section \<open>The counted loop\<close>

function forp :: "(size_t \<Rightarrow> ('s, unit) prog) \<Rightarrow> size_t \<Rightarrow> size_t \<Rightarrow> ('s, unit) prog" where
  "forp b i n s =
     (if i < n then
        (case b i s of
           (Ok _, t) \<Rightarrow> forp b (i + 1) n t
         | (Throw e, t) \<Rightarrow> (Throw e, t)
         | (UB, t) \<Rightarrow> (UB, t))
      else (Ok (), s))"
  by pat_completeness auto
termination
proof (relation "measure (\<lambda>(b, i, n, s). unat n - unat i)")
  show "wf (measure (\<lambda>(b :: size_t \<Rightarrow> ('s, unit) prog, i, n, s). unat n - unat (i :: size_t)))"
    by simp
next
  fix b :: "size_t \<Rightarrow> ('s, unit) prog" and i n :: size_t
    and s t :: 's and r :: "unit outcome \<times> 's" and x :: "unit outcome" and u :: unit
  assume "i < n"
  then show "((b, i + 1, n, t), b, i, n, s) \<in> measure (\<lambda>(b, i, n, s). unat n - unat i)"
    by (simp add: unat_Suc_less word_less_nat_alt)
qed

declare forp.simps [simp del]

lemma forp_done: "\<not> i < n \<Longrightarrow> forp b i n s = (Ok (), s)"
  by (simp add: forp.simps [of b i n s])

lemma forp_step: "i < n \<Longrightarrow> b i s = (Ok x, t) \<Longrightarrow> forp b i n s = forp b (i + 1) n t"
  by (simp add: forp.simps [of b i n s])

text \<open>The invariant rule: a body that always returns and moves the invariant one step on.\<close>

lemma forp_rule:
  assumes "P (unat i) s" and "unat i \<le> unat n"
    and "\<And>(j :: size_t) t. P (unat j) t \<Longrightarrow> unat i \<le> unat j \<Longrightarrow> unat j < unat n \<Longrightarrow>
           \<exists>x t'. b j t = (Ok x, t') \<and> P (Suc (unat j)) t'"
  shows "\<exists>t. forp b i n s = (Ok (), t) \<and> P (unat n) t"
  using assms
proof (induction b i n s rule: forp.induct)
  case (1 b i n s)
  show ?case
  proof (cases "i < n")
    case False
    with "1.prems"(1,2) have "unat i = unat n"
      by (simp add: word_less_nat_alt)
    with "1.prems"(1) False show ?thesis by (simp add: forp_done)
  next
    case True
    then have less: "unat i < unat n" by (simp add: word_less_nat_alt)
    with "1.prems"(1,3) obtain t where t: "b i s = (Ok (), t)" "P (Suc (unat i)) t"
      by fastforce
    have "\<exists>u. forp b (i + 1) n t = (Ok (), u) \<and> P (unat n) u"
    proof (rule "1.IH" [OF True t(1) [symmetric] refl])
      show "P (unat (i + 1)) t" using t(2) True by (simp add: unat_Suc_less)
      show "unat (i + 1) \<le> unat n" using less True by (simp add: unat_Suc_less)
    next
      fix j :: size_t and u
      assume "P (unat j) u" "unat (i + 1) \<le> unat j" "unat j < unat n"
      then show "\<exists>x t'. b j u = (Ok x, t') \<and> P (Suc (unat j)) t'"
        using "1.prems"(3) True by (simp add: unat_Suc_less)
    qed
    with True t(1) show ?thesis by (simp add: forp_step)
  qed
qed

text \<open>The form used by the components: the state after \<open>k\<close> rounds is known in closed form.\<close>

lemma forp_closed:
  assumes "\<And>j :: size_t. unat j < unat n \<Longrightarrow> b j (f (unat j)) = (Ok (), f (Suc (unat j)))"
  shows "forp b 0 n (f 0) = (Ok (), f (unat n))"
proof -
  have "\<exists>t. forp b 0 n (f 0) = (Ok (), t) \<and> t = f (unat n)"
    by (rule forp_rule [where P = "\<lambda>k t. t = f k"]) (use assms in auto)
  then show ?thesis by simp
qed

end
