(* ===== verification/Byte_Stream.thy ===== *)
theory Byte_Stream
  imports Sponge_Prelude
begin

text \<open>
  The flow-controlled in-memory byte stream, \<open>class ByteStream\<close> of
  \<open>libsponge/byte_stream.hh\<close> and \<open>libsponge/byte_stream.cc\<close>.

  The record \<open>byte_stream\<close> has the six private members of the class; every member function
  is a program on it. The deque is a list of bytes whose front is the head. The two loops are
  \<open>forp\<close> loops over \<open>push_back\<close> and \<open>pop_front\<close>, and \<open>pop_front\<close> on an empty deque is
  undefined behaviour, so the lemmas below also show that it never happens.

  The lemmas: the closed form of each operation on a stream that satisfies \<open>stream_ok\<close>,
  preservation of \<open>stream_ok\<close>, the interface \<open>byte_queue\<close> (a bounded first-in first-out
  queue) with the facts its clients need, its interpretation on the class, and the simulation
  of every operation by a specification that remembers all bytes ever written and popped.
\<close>

section \<open>The class\<close>

record byte_stream =
  bs_buffer :: bytes
  bs_capacity :: size_t
  bs_readCount :: size_t
  bs_writeCount :: size_t
  bs_isInputEnded :: bool
  bs_error :: bool

definition ByteStream :: "size_t \<Rightarrow> byte_stream" where
  "ByteStream capacity =
     \<lparr>bs_buffer = [], bs_capacity = capacity, bs_readCount = 0, bs_writeCount = 0,
      bs_isInputEnded = False, bs_error = False\<rparr>"

definition push_back :: "u8 \<Rightarrow> (byte_stream, unit) prog" where
  "push_back c = modifyp (\<lambda>bs. bs\<lparr>bs_buffer := bs_buffer bs @ [c]\<rparr>)"

definition pop_front :: "(byte_stream, unit) prog" where
  "pop_front = (\<lambda>bs. case bs_buffer bs of
       [] \<Rightarrow> (UB, bs)
     | _ # rest \<Rightarrow> (Ok (), bs\<lparr>bs_buffer := rest\<rparr>))"

definition stream_write :: "bytes \<Rightarrow> (byte_stream, size_t) prog" where
  "stream_write data = (\<lambda>bs.
     let len = csize data;
         len = (if len > bs_capacity bs - csize (bs_buffer bs)
                then bs_capacity bs - csize (bs_buffer bs) else len)
     in thenp (modifyp (\<lambda>bs. bs\<lparr>bs_writeCount := bs_writeCount bs + len\<rparr>))
         (thenp (forp (\<lambda>i. bindp (liftp (string_index data i)) push_back) 0 len)
           (retp len)) bs)"

definition stream_peek_output :: "size_t \<Rightarrow> (byte_stream, bytes) prog" where
  "stream_peek_output len = (\<lambda>bs.
     if bs_buffer bs = [] then (Ok [], bs)
     else let length' = (if len > csize (bs_buffer bs) then csize (bs_buffer bs) else len)
       in if unat length' \<le> length (bs_buffer bs)
          then (Ok (take (unat length') (bs_buffer bs)), bs) else (UB, bs))"

definition stream_pop_output :: "size_t \<Rightarrow> (byte_stream, unit) prog" where
  "stream_pop_output len = (\<lambda>bs.
     if bs_buffer bs = [] then (Ok (), bs)
     else let length' = (if len > csize (bs_buffer bs) then csize (bs_buffer bs) else len)
       in thenp (modifyp (\<lambda>bs. bs\<lparr>bs_readCount := bs_readCount bs + length'\<rparr>))
           (forp (\<lambda>i. pop_front) 0 length') bs)"

definition stream_read :: "size_t \<Rightarrow> (byte_stream, bytes) prog" where
  "stream_read len =
     bindp (stream_peek_output len) (\<lambda>res. thenp (stream_pop_output len) (retp res))"

definition stream_end_input :: "byte_stream \<Rightarrow> byte_stream" where
  "stream_end_input bs = bs\<lparr>bs_isInputEnded := True\<rparr>"

definition stream_set_error :: "byte_stream \<Rightarrow> byte_stream" where
  "stream_set_error bs = bs\<lparr>bs_error := True\<rparr>"

definition stream_input_ended :: "byte_stream \<Rightarrow> bool" where
  "stream_input_ended bs = bs_isInputEnded bs"

definition stream_error :: "byte_stream \<Rightarrow> bool" where
  "stream_error bs = bs_error bs"

definition stream_buffer_size :: "byte_stream \<Rightarrow> size_t" where
  "stream_buffer_size bs = csize (bs_buffer bs)"

definition stream_buffer_empty :: "byte_stream \<Rightarrow> bool" where
  "stream_buffer_empty bs = (bs_buffer bs = [])"

definition stream_eof :: "byte_stream \<Rightarrow> bool" where
  "stream_eof bs = (stream_input_ended bs \<and> stream_buffer_empty bs)"

definition stream_bytes_written :: "byte_stream \<Rightarrow> size_t" where
  "stream_bytes_written bs = bs_writeCount bs"

definition stream_bytes_read :: "byte_stream \<Rightarrow> size_t" where
  "stream_bytes_read bs = bs_readCount bs"

definition stream_remaining_capacity :: "byte_stream \<Rightarrow> size_t" where
  "stream_remaining_capacity bs = bs_capacity bs - csize (bs_buffer bs)"

lemmas stream_accessors =
  stream_input_ended_def stream_error_def stream_buffer_size_def stream_buffer_empty_def
  stream_eof_def stream_bytes_written_def stream_bytes_read_def stream_remaining_capacity_def

section \<open>The invariant and the closed forms\<close>

text \<open>
  The buffer never exceeds the capacity, and the two counters differ by what is buffered (the
  counters are 64-bit words and may wrap; the equation is between words).
\<close>

definition stream_ok :: "byte_stream \<Rightarrow> bool" where
  "stream_ok bs \<longleftrightarrow> length (bs_buffer bs) \<le> unat (bs_capacity bs)
     \<and> bs_writeCount bs = bs_readCount bs + csize (bs_buffer bs)"

definition stream_room :: "byte_stream \<Rightarrow> nat" where
  "stream_room bs = unat (bs_capacity bs) - length (bs_buffer bs)"

lemma stream_ok_new [simp]: "stream_ok (ByteStream capacity)"
  by (simp add: stream_ok_def ByteStream_def)

lemma stream_ok_size: "stream_ok bs \<Longrightarrow> length (bs_buffer bs) < size_limit"
  unfolding stream_ok_def using unat_size_t_less [of "bs_capacity bs"] by simp

lemma stream_ok_unat_size: "stream_ok bs \<Longrightarrow> unat (csize (bs_buffer bs)) = length (bs_buffer bs)"
  by (rule unat_csize) (rule stream_ok_size)

lemma stream_ok_unat_room:
  assumes "stream_ok bs"
  shows "unat (bs_capacity bs - csize (bs_buffer bs)) = stream_room bs"
proof -
  have "csize (bs_buffer bs) \<le> bs_capacity bs"
    using assms by (simp add: word_le_nat_alt stream_ok_unat_size stream_ok_def)
  then show ?thesis
    using assms by (simp add: unat_sub stream_ok_unat_size stream_room_def)
qed

lemma push_loop:
  assumes "unat len \<le> length data"
  shows "forp (\<lambda>i. bindp (liftp (string_index data i)) push_back) 0 len bs
           = (Ok (), bs\<lparr>bs_buffer := bs_buffer bs @ take (unat len) data\<rparr>)"
proof -
  let ?f = "\<lambda>k. bs\<lparr>bs_buffer := bs_buffer bs @ take k data\<rparr>"
  have "forp (\<lambda>i. bindp (liftp (string_index data i)) push_back) 0 len (?f 0) = (Ok (), ?f (unat len))"
    by (rule forp_closed)
      (use assms in \<open>simp add: prog_simps push_back_def take_Suc_conv_app_nth bindp_def\<close>)
  then show ?thesis by simp
qed

lemma pop_loop:
  assumes "unat len \<le> length (bs_buffer bs)"
  shows "forp (\<lambda>i. pop_front) 0 len bs
           = (Ok (), bs\<lparr>bs_buffer := drop (unat len) (bs_buffer bs)\<rparr>)"
proof -
  let ?f = "\<lambda>k. bs\<lparr>bs_buffer := drop k (bs_buffer bs)\<rparr>"
  have "forp (\<lambda>i. pop_front) 0 len (?f 0) = (Ok (), ?f (unat len))"
  proof (rule forp_closed)
    fix j :: size_t
    assume "unat j < unat len"
    with assms have "drop (unat j) (bs_buffer bs)
        = bs_buffer bs ! unat j # drop (Suc (unat j)) (bs_buffer bs)"
      by (simp add: Cons_nth_drop_Suc)
    then show "pop_front (?f (unat j)) = (Ok (), ?f (Suc (unat j)))"
      by (simp add: pop_front_def)
  qed
  then show ?thesis by simp
qed

lemma stream_write_eq:
  assumes "stream_ok bs" and "length data < size_limit"
  shows "stream_write data bs =
    (let n = min (length data) (stream_room bs) in
      (Ok (word_of_nat n),
       bs\<lparr>bs_buffer := bs_buffer bs @ take n data,
          bs_writeCount := bs_writeCount bs + word_of_nat n\<rparr>))"
proof -
  let ?room = "bs_capacity bs - csize (bs_buffer bs)"
  let ?len = "if csize data > ?room then ?room else csize data"
  have n: "unat ?len = min (length data) (stream_room bs)"
    using assms by (auto simp: word_less_nat_alt stream_ok_unat_room unat_csize)
  then have w: "?len = word_of_nat (min (length data) (stream_room bs))"
    by (rule unat_eq_imp_word)
  show ?thesis
    using n unfolding stream_write_def Let_def w by (simp add: prog_simps push_loop)
qed

lemma stream_peek_output_eq:
  assumes "stream_ok bs"
  shows "stream_peek_output len bs = (Ok (take (unat len) (bs_buffer bs)), bs)"
  using assms
  by (auto simp: stream_peek_output_def Let_def stream_ok_unat_size word_less_nat_alt)

lemma stream_pop_output_eq:
  assumes "stream_ok bs"
  shows "stream_pop_output len bs =
    (let n = min (unat len) (length (bs_buffer bs)) in
      (Ok (),
       bs\<lparr>bs_buffer := drop n (bs_buffer bs),
          bs_readCount := bs_readCount bs + word_of_nat n\<rparr>))"
proof -
  let ?len = "if len > csize (bs_buffer bs) then csize (bs_buffer bs) else len"
  have n: "unat ?len = min (unat len) (length (bs_buffer bs))"
    using assms by (auto simp: word_less_nat_alt stream_ok_unat_size)
  then have w: "?len = word_of_nat (min (unat len) (length (bs_buffer bs)))"
    by (rule unat_eq_imp_word)
  show ?thesis
    using n unfolding stream_pop_output_def Let_def w by (simp add: prog_simps pop_loop)
qed

lemma stream_read_eq:
  assumes "stream_ok bs"
  shows "stream_read len bs =
    (let n = min (unat len) (length (bs_buffer bs)) in
      (Ok (take (unat len) (bs_buffer bs)),
       bs\<lparr>bs_buffer := drop n (bs_buffer bs),
          bs_readCount := bs_readCount bs + word_of_nat n\<rparr>))"
  using assms
  by (simp add: stream_read_def bindp_def stream_peek_output_eq stream_pop_output_eq Let_def
      retp_apply)

lemmas stream_eqs =
  stream_write_eq stream_peek_output_eq stream_pop_output_eq stream_read_eq

text \<open>Every operation keeps the invariant.\<close>

lemma stream_ok_write:
  assumes "stream_ok bs" and "length data < size_limit"
  shows "stream_ok (snd (stream_write data bs))"
proof -
  have "length (bs_buffer bs) \<le> unat (bs_capacity bs)"
    using assms by (simp add: stream_ok_def)
  then have "length (bs_buffer bs) + min (length data) (stream_room bs) \<le> unat (bs_capacity bs)"
    by (simp add: stream_room_def)
  with assms show ?thesis
    by (simp add: stream_write_eq Let_def stream_ok_def csize_def algebra_simps min_def)
qed

lemma stream_ok_pop:
  assumes "stream_ok bs"
  shows "stream_ok (snd (stream_pop_output len bs))"
proof -
  let ?n = "min (unat len) (length (bs_buffer bs))"
  have "csize (bs_buffer bs) = word_of_nat ?n + csize (drop ?n (bs_buffer bs))"
    by (simp add: csize_def min_def flip: of_nat_add)
  with assms show ?thesis
    by (auto simp: stream_pop_output_eq Let_def stream_ok_def algebra_simps)
qed

lemma stream_ok_read: "stream_ok bs \<Longrightarrow> stream_ok (snd (stream_read len bs))"
  using stream_ok_pop [of bs len] by (simp add: stream_read_eq stream_pop_output_eq Let_def)

lemma stream_ok_end_input [simp]: "stream_ok (stream_end_input bs) = stream_ok bs"
  by (simp add: stream_ok_def stream_end_input_def)

lemma stream_ok_set_error [simp]: "stream_ok (stream_set_error bs) = stream_ok bs"
  by (simp add: stream_ok_def stream_set_error_def)

section \<open>The interface: a bounded first-in first-out queue of bytes\<close>

text \<open>
  What a client of the stream relies on: \<open>put\<close> accepts as long a prefix of its argument as
  fits and reports its length, \<open>get n\<close> removes and returns the first \<open>n\<close> bytes, or all if
  there are fewer. Neither throws.
\<close>

datatype queue_action = Put bytes | Get size_t

text \<open>
  A client session: its actions in order, with the bytes that went in and the bytes that came
  out along the way.
\<close>

fun session ::
  "(bytes \<Rightarrow> ('s, size_t) prog) \<Rightarrow> (size_t \<Rightarrow> ('s, bytes) prog) \<Rightarrow> queue_action list
     \<Rightarrow> ('s, bytes \<times> bytes) prog" where
  "session put get [] = retp ([], [])"
| "session put get (Put d # as) =
     bindp (put d) (\<lambda>n. bindp (session put get as) (\<lambda>(i, out).
       retp (take (unat n) d @ i, out)))"
| "session put get (Get n # as) =
     bindp (get n) (\<lambda>b. bindp (session put get as) (\<lambda>(i, out). retp (i, b @ out)))"

fun small_action :: "queue_action \<Rightarrow> bool" where
  "small_action (Put d) = (length d < size_limit)"
| "small_action (Get n) = True"

locale byte_queue =
  fixes contents :: "'s \<Rightarrow> bytes"
    and room :: "'s \<Rightarrow> nat"
    and inv :: "'s \<Rightarrow> bool"
    and put :: "bytes \<Rightarrow> ('s, size_t) prog"
    and get :: "size_t \<Rightarrow> ('s, bytes) prog"
  assumes put_law: "inv s \<Longrightarrow> length d < size_limit \<Longrightarrow>
      \<exists>t. put d s = (Ok (word_of_nat (min (length d) (room s))), t) \<and> inv t
        \<and> contents t = contents s @ take (room s) d
        \<and> room t = room s - length d"
    and get_law: "inv s \<Longrightarrow>
      \<exists>t. get n s = (Ok (take (unat n) (contents s)), t) \<and> inv t
        \<and> contents t = drop (unat n) (contents s)
        \<and> room t = room s + min (unat n) (length (contents s))"
begin

text \<open>
  No byte is lost, duplicated or reordered: what was in the queue followed by what went in is
  what came out followed by what is left.
\<close>

lemma session_fifo:
  "inv s \<Longrightarrow> list_all small_action as \<Longrightarrow>
   \<exists>i out t. session put get as s = (Ok (i, out), t) \<and> inv t
     \<and> contents s @ i = out @ contents t
     \<and> room t + length (contents t) = room s + length (contents s)"
proof (induction as arbitrary: s)
  case Nil
  then show ?case by (simp add: prog_simps)
next
  case (Cons a as)
  show ?case
  proof (cases a)
    case (Put d)
    with Cons.prems have d: "length d < size_limit" by simp
    from put_law [OF Cons.prems(1) d] obtain u where
      u: "put d s = (Ok (word_of_nat (min (length d) (room s))), u)" "inv u"
        "contents u = contents s @ take (room s) d" "room u = room s - length d"
      by blast
    have n: "unat (word_of_nat (min (length d) (room s)) :: size_t) = min (length d) (room s)"
      using d by (simp add: unat_of_nat)
    from Cons.IH [OF u(2)] Cons.prems(2) obtain i out t where
      "session put get as u = (Ok (i, out), t)" "inv t"
      "contents u @ i = out @ contents t"
      "room t + length (contents t) = room u + length (contents u)"
      by auto
    with u n Put show ?thesis
      by (intro exI [of _ "take (room s) d @ i"] exI [of _ out] exI [of _ t])
        (auto simp: prog_simps bindp_def min_def)
  next
    case (Get n)
    from get_law [OF Cons.prems(1)] obtain u where
      u: "get n s = (Ok (take (unat n) (contents s)), u)" "inv u"
        "contents u = drop (unat n) (contents s)"
        "room u = room s + min (unat n) (length (contents s))"
      by blast
    from Cons.IH [OF u(2)] Cons.prems(2) obtain i out t where
      t: "session put get as u = (Ok (i, out), t)" "inv t"
        "contents u @ i = out @ contents t"
        "room t + length (contents t) = room u + length (contents u)"
      by auto
    have "contents s @ i = (take (unat n) (contents s) @ out) @ contents t"
      using t(3) u(3) by (metis append.assoc append_take_drop_id)
    with u t Get show ?thesis
      by (intro exI [of _ i] exI [of _ "take (unat n) (contents s) @ out"] exI [of _ t])
        (auto simp: prog_simps bindp_def)
  qed
qed

text \<open>Asking for everything drains the queue.\<close>

lemma get_all:
  assumes "inv s" and "length (contents s) \<le> unat n"
  shows "\<exists>t. get n s = (Ok (contents s), t) \<and> contents t = []"
  using get_law [OF assms(1), of n] assms(2) by auto

end

interpretation bsq: byte_queue bs_buffer stream_room stream_ok stream_write stream_read
proof
  fix bs :: byte_stream and d :: bytes
  assume ok: "stream_ok bs" and d: "length d < size_limit"
  have "stream_ok (snd (stream_write d bs))"
    using ok d by (rule stream_ok_write)
  with ok d show "\<exists>t. stream_write d bs = (Ok (word_of_nat (min (length d) (stream_room bs))), t)
      \<and> stream_ok t \<and> bs_buffer t = bs_buffer bs @ take (stream_room bs) d
      \<and> stream_room t = stream_room bs - length d"
    by (auto simp: stream_write_eq Let_def stream_room_def min_def)
next
  fix bs :: byte_stream and n :: size_t
  assume ok: "stream_ok bs"
  have "stream_ok (snd (stream_read n bs))"
    using ok by (rule stream_ok_read)
  with ok show "\<exists>t. stream_read n bs = (Ok (take (unat n) (bs_buffer bs)), t) \<and> stream_ok t
      \<and> bs_buffer t = drop (unat n) (bs_buffer bs)
      \<and> stream_room t = stream_room bs + min (unat n) (length (bs_buffer bs))"
    by (auto simp: stream_read_eq Let_def stream_room_def min_def stream_ok_def)
qed

section \<open>The specification: the history of the stream\<close>

text \<open>
  The specification never forgets a byte: it keeps everything accepted and everything popped
  since construction. What can be read is what was accepted and not yet popped.
\<close>

record stream_hist =
  h_in :: bytes
  h_out :: bytes
  h_ended :: bool
  h_failed :: bool

definition hist_new :: stream_hist where
  "hist_new = \<lparr>h_in = [], h_out = [], h_ended = False, h_failed = False\<rparr>"

definition hist_pending :: "stream_hist \<Rightarrow> bytes" where
  "hist_pending h = drop (length (h_out h)) (h_in h)"

datatype stream_op =
  Write bytes | Peek_output size_t | Pop_output size_t | Read size_t | End_input | Set_error

datatype stream_reply = Count size_t | Data bytes | Done

fun stream_exec :: "stream_op \<Rightarrow> (byte_stream, stream_reply) prog" where
  "stream_exec (Write data) = bindp (stream_write data) (\<lambda>n. retp (Count n))"
| "stream_exec (Peek_output n) = bindp (stream_peek_output n) (\<lambda>b. retp (Data b))"
| "stream_exec (Pop_output n) = thenp (stream_pop_output n) (retp Done)"
| "stream_exec (Read n) = bindp (stream_read n) (\<lambda>b. retp (Data b))"
| "stream_exec End_input = thenp (modifyp stream_end_input) (retp Done)"
| "stream_exec Set_error = thenp (modifyp stream_set_error) (retp Done)"

fun stream_run :: "stream_op list \<Rightarrow> (byte_stream, stream_reply list) prog" where
  "stream_run [] = retp []"
| "stream_run (x # xs) =
     bindp (stream_exec x) (\<lambda>r. bindp (stream_run xs) (\<lambda>rs. retp (r # rs)))"

fun hist_exec :: "nat \<Rightarrow> stream_op \<Rightarrow> stream_hist \<Rightarrow> stream_reply \<times> stream_hist" where
  "hist_exec cap (Write data) h =
     (let accepted = take (cap - length (hist_pending h)) data
      in (Count (csize accepted), h\<lparr>h_in := h_in h @ accepted\<rparr>))"
| "hist_exec cap (Peek_output n) h = (Data (take (unat n) (hist_pending h)), h)"
| "hist_exec cap (Pop_output n) h =
     (Done, h\<lparr>h_out := h_out h @ take (unat n) (hist_pending h)\<rparr>)"
| "hist_exec cap (Read n) h =
     (Data (take (unat n) (hist_pending h)),
      h\<lparr>h_out := h_out h @ take (unat n) (hist_pending h)\<rparr>)"
| "hist_exec cap End_input h = (Done, h\<lparr>h_ended := True\<rparr>)"
| "hist_exec cap Set_error h = (Done, h\<lparr>h_failed := True\<rparr>)"

fun hist_run :: "nat \<Rightarrow> stream_op list \<Rightarrow> stream_hist \<Rightarrow> stream_reply list \<times> stream_hist" where
  "hist_run cap [] h = ([], h)"
| "hist_run cap (x # xs) h =
     (let (r, h') = hist_exec cap x h; (rs, h'') = hist_run cap xs h' in (r # rs, h''))"

fun small_op :: "stream_op \<Rightarrow> bool" where
  "small_op (Write data) = (length data < size_limit)"
| "small_op _ = True"

text \<open>
  The simulation relation: the buffer is what is pending, and the counters are the lengths of
  the two histories modulo \<open>2 ^ 64\<close>.
\<close>

definition stream_sim :: "nat \<Rightarrow> byte_stream \<Rightarrow> stream_hist \<Rightarrow> bool" where
  "stream_sim cap bs h \<longleftrightarrow>
     unat (bs_capacity bs) = cap \<and> length (bs_buffer bs) \<le> cap
   \<and> h_in h = h_out h @ bs_buffer bs
   \<and> bs_writeCount bs = csize (h_in h) \<and> bs_readCount bs = csize (h_out h)
   \<and> bs_isInputEnded bs = h_ended h \<and> bs_error bs = h_failed h"

lemma stream_sim_ok: "stream_sim cap bs h \<Longrightarrow> stream_ok bs"
  by (auto simp: stream_sim_def stream_ok_def)

lemma stream_sim_pending: "stream_sim cap bs h \<Longrightarrow> hist_pending h = bs_buffer bs"
  by (auto simp: stream_sim_def hist_pending_def)

lemma stream_sim_new: "stream_sim (unat capacity) (ByteStream capacity) hist_new"
  by (simp add: stream_sim_def ByteStream_def hist_new_def)

lemma csize_take: "csize (take n xs) = word_of_nat (min (length xs) n)"
  by (simp add: csize_def)

lemma stream_exec_sim:
  assumes sim: "stream_sim cap bs h" and small: "small_op x"
  shows "\<exists>bs'. stream_exec x bs = (Ok (fst (hist_exec cap x h)), bs')
           \<and> stream_sim cap bs' (snd (hist_exec cap x h))"
proof -
  note ok = stream_sim_ok [OF sim] and pend = stream_sim_pending [OF sim]
  have pop: "stream_sim cap
      (bs\<lparr>bs_buffer := drop (min (unat n) (length (bs_buffer bs))) (bs_buffer bs),
         bs_readCount := bs_readCount bs + word_of_nat (min (unat n) (length (bs_buffer bs)))\<rparr>)
      (h\<lparr>h_out := h_out h @ take (unat n) (hist_pending h)\<rparr>)" for n
    using sim by (auto simp: stream_sim_def pend csize_take min.commute simp flip: take_take)
  show ?thesis
  proof (cases x)
    case (Write data)
    with small sim ok show ?thesis
      by (auto simp: prog_simps bindp_def stream_write_eq Let_def pend csize_take
          stream_sim_def stream_room_def min_def)
  next
    case (Pop_output n)
    with ok pop [of n] show ?thesis
      by (simp add: prog_simps bindp_def stream_pop_output_eq Let_def)
  next
    case (Read n)
    with ok pop [of n] show ?thesis
      by (simp add: prog_simps bindp_def stream_read_eq Let_def pend)
  qed (use sim ok in \<open>auto simp: prog_simps bindp_def stream_peek_output_eq pend stream_sim_def
        stream_end_input_def stream_set_error_def\<close>)
qed

lemma stream_run_sim:
  "stream_sim cap bs h \<Longrightarrow> list_all small_op xs \<Longrightarrow>
   \<exists>bs'. stream_run xs bs = (Ok (fst (hist_run cap xs h)), bs')
     \<and> stream_sim cap bs' (snd (hist_run cap xs h))"
proof (induction xs arbitrary: bs h)
  case Nil
  then show ?case by (simp add: prog_simps)
next
  case (Cons x xs)
  from stream_exec_sim [OF Cons.prems(1), of x] Cons.prems(2) obtain bs1 where
    b: "stream_exec x bs = (Ok (fst (hist_exec cap x h)), bs1)"
      "stream_sim cap bs1 (snd (hist_exec cap x h))"
    by auto
  from Cons.IH [OF b(2)] Cons.prems(2) obtain bs' where
    "stream_run xs bs1 = (Ok (fst (hist_run cap xs (snd (hist_exec cap x h)))), bs')"
    "stream_sim cap bs' (snd (hist_run cap xs (snd (hist_exec cap x h))))"
    by auto
  with b(1) show ?case
    by (auto simp: prog_simps bindp_def Let_def split: prod.splits)
qed

section \<open>Reading in two steps\<close>

text \<open>
  Reading in two steps is reading in one: a read of \<open>m\<close> bytes followed by a read of \<open>n\<close>
  bytes returns, in order, the bytes of one read of \<open>m + n\<close> and leaves the same stream.
\<close>

lemma stream_read_split:
  assumes "stream_ok bs" and "unat m + unat n < size_limit"
  shows "bindp (stream_read m) (\<lambda>a. bindp (stream_read n) (\<lambda>b. retp (a @ b))) bs
           = stream_read (m + n) bs"
proof -
  have mn: "unat (m + n) = unat m + unat n"
    using assms(2) by (simp add: unat_word_ariths)
  let ?bs' = "snd (stream_read m bs)"
  have ok': "stream_ok ?bs'" using assms(1) by (rule stream_ok_read)
  have cnt: "(word_of_nat (min (unat m) k) :: size_t) + word_of_nat (min (unat n) (k - min (unat m) k))
      = word_of_nat (min (unat m + unat n) k)" for k
  proof -
    have "min (unat m) k + min (unat n) (k - min (unat m) k) = min (unat m + unat n) k" by arith
    then show ?thesis by (metis of_nat_add)
  qed
  show ?thesis
    using assms(1) ok' mn cnt [of "length (bs_buffer bs)"]
    by (auto simp: bindp_def stream_read_eq Let_def retp_apply min_def take_add add.assoc add.commute)
qed

section \<open>Properties\<close>

text \<open>
  C1. The byte stream refines its history specification: from a new stream, every sequence of
  writes, peeks, pops, reads, \<open>end_input\<close> and \<open>set_error\<close> runs without an exception and
  without undefined behaviour (no read past the data, no \<open>pop_front\<close> on an empty deque),
  gives exactly the replies of the specification that remembers every byte, and ends in the
  state that corresponds to that history.
\<close>

theorem stream_refines_history:
  assumes "list_all small_op ops"
  shows "\<exists>bs. stream_run ops (ByteStream capacity)
                = (Ok (fst (hist_run (unat capacity) ops hist_new)), bs)
           \<and> stream_sim (unat capacity) bs (snd (hist_run (unat capacity) ops hist_new))"
  using stream_sim_new assms by (rule stream_run_sim)

theorem stream_refines_history_witness:
  "\<exists>bs. stream_run [Write (bytes_of ''cat''), Read 1, Write (bytes_of ''xyz''), End_input, Pop_output 9]
          (ByteStream 3)
        = (Ok [Count 3, Data (bytes_of ''c''), Count 1, Done, Done], bs)
      \<and> stream_sim 3 bs \<lparr>h_in = bytes_of ''catx'', h_out = bytes_of ''catx'', h_ended = True, h_failed = False\<rparr>"
  using stream_refines_history [of
      "[Write (bytes_of ''cat''), Read 1, Write (bytes_of ''xyz''), End_input, Pop_output 9]" 3]
  by (simp add: bytes_of_def hist_new_def hist_pending_def csize_def)

text \<open>
  C2. First in, first out, across any client session of writes and reads on a new stream: the
  bytes accepted so far, in order, are the bytes read so far followed by the bytes still
  buffered, and free room plus buffered bytes is always the capacity.
\<close>

theorem stream_session_fifo:
  assumes "list_all small_action as"
  shows "\<exists>i out t. session stream_write stream_read as (ByteStream capacity) = (Ok (i, out), t)
           \<and> i = out @ bs_buffer t
           \<and> stream_room t + length (bs_buffer t) = unat capacity"
proof -
  have "bs_buffer (ByteStream capacity) = []" "stream_room (ByteStream capacity) = unat capacity"
    by (simp_all add: ByteStream_def stream_room_def)
  then show ?thesis
    using bsq.session_fifo [OF stream_ok_new assms, of capacity] by force
qed

theorem stream_session_fifo_witness:
  "\<exists>i out t. session stream_write stream_read [Put (bytes_of ''abc''), Get 2, Put (bytes_of ''de'')]
        (ByteStream 3) = (Ok (i, out), t)
     \<and> i = out @ bs_buffer t \<and> stream_room t + length (bs_buffer t) = 3"
  using stream_session_fifo [of "[Put (bytes_of ''abc''), Get 2, Put (bytes_of ''de'')]" 3] by simp

text \<open>
  C3. The public accounting of every stream reachable from construction: \<open>bytes_written\<close> and
  \<open>bytes_read\<close> are the numbers of bytes ever accepted and ever popped (modulo \<open>2 ^ 64\<close>), they
  differ by \<open>buffer_size\<close>, \<open>buffer_size\<close> and \<open>remaining_capacity\<close> add up to the capacity, and
  \<open>eof\<close> holds exactly when the input was ended and every accepted byte has been popped.
\<close>

theorem stream_accounting:
  assumes "list_all small_op ops"
    and "stream_run ops (ByteStream capacity) = (r, bs)"
    and "h = snd (hist_run (unat capacity) ops hist_new)"
  shows "stream_bytes_written bs = csize (h_in h)
       \<and> stream_bytes_read bs = csize (h_out h)
       \<and> stream_bytes_written bs = stream_bytes_read bs + stream_buffer_size bs
       \<and> unat (stream_buffer_size bs) + unat (stream_remaining_capacity bs) = unat capacity
       \<and> (stream_eof bs \<longleftrightarrow> h_ended h \<and> h_out h = h_in h)
       \<and> (stream_error bs \<longleftrightarrow> h_failed h)"
proof -
  from stream_run_sim [OF stream_sim_new assms(1), of capacity] assms(2,3)
  have sim: "stream_sim (unat capacity) bs h" by auto
  note ok = stream_sim_ok [OF sim]
  show ?thesis
    using sim stream_ok_unat_size [OF ok] stream_ok_unat_room [OF ok]
    by (auto simp: stream_sim_def stream_accessors stream_room_def)
qed

theorem stream_accounting_witness:
  "\<exists>r bs. stream_run [Write (bytes_of ''ab''), Pop_output 1] (ByteStream 3) = (r, bs)
     \<and> stream_bytes_written bs = 2 \<and> stream_bytes_read bs = 1 \<and> \<not> stream_eof bs"
proof -
  obtain r bs where run: "stream_run [Write (bytes_of ''ab''), Pop_output 1] (ByteStream 3) = (r, bs)"
    by fastforce
  have "list_all small_op [Write (bytes_of ''ab''), Pop_output 1]" by simp
  from stream_accounting [OF this run refl] show ?thesis
    using run by (auto simp: bytes_of_def hist_new_def hist_pending_def csize_def)
qed

text \<open>
  C4. Ending the input does not stop the writer: the code has no check of the flag in \<open>write\<close>,
  so after \<open>end_input\<close> a stream with room still accepts bytes, and one that had reached \<open>eof\<close>
  leaves it again.
\<close>

theorem stream_write_after_end_input:
  assumes "stream_ok bs" and "0 < stream_room bs" and "data \<noteq> []" and "length data < size_limit"
  shows "\<exists>n bs'. stream_write data (stream_end_input bs) = (Ok n, bs') \<and> 0 < unat n
           \<and> bs_buffer bs' = bs_buffer bs @ take (unat n) data
           \<and> stream_input_ended bs' \<and> \<not> stream_eof bs'"
proof -
  have "stream_room (stream_end_input bs) = stream_room bs"
    by (simp add: stream_room_def stream_end_input_def)
  moreover have "unat (word_of_nat (min (length data) (stream_room bs)) :: size_t)
      = min (length data) (stream_room bs)"
    using assms(4) by (simp add: unat_of_nat)
  ultimately show ?thesis
    using assms stream_write_eq [of "stream_end_input bs" data]
    by (simp add: Let_def stream_accessors) (simp add: stream_end_input_def)
qed

theorem stream_write_after_end_input_witness:
  "\<exists>n bs'. stream_write (bytes_of ''x'') (stream_end_input (ByteStream 1)) = (Ok n, bs') \<and> 0 < unat n
     \<and> stream_eof (stream_end_input (ByteStream 1)) \<and> \<not> stream_eof bs'"
  using stream_write_after_end_input [OF stream_ok_new, of 1 "bytes_of ''x''"]
  by (auto simp: bytes_of_def stream_room_def ByteStream_def stream_accessors stream_end_input_def)

end
