(* ===== verification/Buffers.thy ===== *)
theory Buffers
  imports Sponge_Prelude
begin

text \<open>
  The strings that discard bytes from the front: \<open>class Buffer\<close>, \<open>class BufferList\<close> and
  \<open>class BufferViewList\<close> of \<open>libsponge/util/buffer.hh\<close> and \<open>libsponge/util/buffer.cc\<close>.

  A \<open>Buffer\<close> is a shared read-only string and an offset of its own. No member function writes
  the string, so the model keeps the string itself; \<open>_storage.reset()\<close> is \<open>None\<close>. A \<open>BufferList\<close> is
  the list of its buffers, a \<open>BufferViewList\<close> the list of its views, a view being the bytes it shows.
  That sharing is not observable, and how long a view may be used, is the subject of
  \<open>Shared_Buffers\<close> and \<open>Buffer_Programs\<close>. The \<open>while\<close> loops of the two \<open>remove_prefix\<close> functions recurse over the
  deque, one \<open>pop_front\<close> per call.

  The interface \<open>front_droppable\<close> states what the three classes share; the packet parser and
  the writing loop of a file descriptor are its clients.
\<close>

section \<open>The interface\<close>

locale front_droppable =
  fixes contents :: "'s \<Rightarrow> bytes"
    and inv :: "'s \<Rightarrow> bool"
    and size_of :: "'s \<Rightarrow> size_t"
    and remove_prefix :: "size_t \<Rightarrow> ('s, unit) prog"
    and overrun :: exn
  assumes inv_small: "inv s \<Longrightarrow> length (contents s) < size_limit"
    and size_law: "inv s \<Longrightarrow> size_of s = csize (contents s)"
    and remove_law: "inv s \<Longrightarrow> unat n \<le> length (contents s) \<Longrightarrow>
      \<exists>t. remove_prefix n s = (Ok (), t) \<and> inv t \<and> contents t = drop (unat n) (contents s)"
    and overrun_law: "inv s \<Longrightarrow> length (contents s) < unat n \<Longrightarrow>
      \<exists>t. remove_prefix n s = (Throw overrun, t)"
begin

lemma unat_size: "inv s \<Longrightarrow> unat (size_of s) = length (contents s)"
  by (simp add: size_law unat_csize inv_small)

lemma remove_ok_iff: "inv s \<Longrightarrow> fst (remove_prefix n s) = Ok () \<longleftrightarrow> n \<le> size_of s"
  using remove_law [of s n] overrun_law [of s n]
  by (cases "unat n \<le> length (contents s)") (auto simp: word_le_nat_alt unat_size)

lemma remove_never_ub: "inv s \<Longrightarrow> fst (remove_prefix n s) \<noteq> UB"
  using remove_law [of s n] overrun_law [of s n]
  by (cases "unat n \<le> length (contents s)") auto

lemma remove_size:
  assumes "inv s" and "remove_prefix n s = (Ok (), t)"
  shows "inv t" and "contents t = drop (unat n) (contents s)"
    and "unat (size_of t) + unat n = unat (size_of s)"
proof -
  have le: "unat n \<le> length (contents s)"
    using remove_ok_iff [OF assms(1), of n] assms by (simp add: word_le_nat_alt unat_size)
  with remove_law [OF assms(1) le] assms(2) show inv: "inv t"
    and cont: "contents t = drop (unat n) (contents s)" by auto
  show "unat (size_of t) + unat n = unat (size_of s)"
    using inv cont le assms(1) by (simp add: unat_size)
qed

text \<open>Discarding in two steps is discarding once.\<close>

lemma remove_twice:
  assumes "inv s" and "unat m + unat n \<le> length (contents s)"
  shows "\<exists>t u. thenp (remove_prefix m) (remove_prefix n) s = (Ok (), t)
           \<and> remove_prefix (m + n) s = (Ok (), u)
           \<and> contents t = contents u \<and> contents t = drop (unat m + unat n) (contents s)"
proof -
  have "unat m + unat n < 2 ^ LENGTH(64)"
    using assms inv_small [of s] by simp
  then have mn: "unat (m + n) = unat m + unat n" by (simp add: unat_word_ariths)
  from assms remove_law [of s m] obtain t where
    t: "remove_prefix m s = (Ok (), t)" "inv t" "contents t = drop (unat m) (contents s)" by auto
  have "unat n \<le> length (contents t)" using t(3) assms(2) by simp
  with t(2) obtain t' where
    t': "remove_prefix n t = (Ok (), t')" "contents t' = drop (unat n) (contents t)"
    using remove_law by blast
  from assms mn remove_law [of s "m + n"] obtain u where
    "remove_prefix (m + n) s = (Ok (), u)" "contents u = drop (unat m + unat n) (contents s)"
    by auto
  with t t' show ?thesis by (auto simp: prog_simps add.commute)
qed

end

text \<open>A string whose bytes can also be read by position, with a bounds check.\<close>

locale front_readable = front_droppable contents inv size_of remove_prefix overrun
  for contents :: "'s \<Rightarrow> bytes" and inv size_of remove_prefix overrun +
  fixes at :: "'s \<Rightarrow> size_t \<Rightarrow> u8 outcome"
  assumes at_law: "inv s \<Longrightarrow> n < size_of s \<Longrightarrow> at s n = Ok (contents s ! unat n)"

section \<open>Buffer\<close>

record buffer =
  buf_storage :: "bytes option"
  buf_starting_offset :: size_t

definition Buffer_default :: buffer where
  "Buffer_default = \<lparr>buf_storage = None, buf_starting_offset = 0\<rparr>"

definition Buffer :: "bytes \<Rightarrow> buffer" where
  "Buffer str = \<lparr>buf_storage = Some str, buf_starting_offset = 0\<rparr>"

text \<open>
  The view starts at the offset and runs to the end. \<open>buffer_ok\<close> keeps the offset within the
  string, so the subtraction that gives the length of the view does not wrap.
\<close>

definition buffer_str :: "buffer \<Rightarrow> bytes" where
  "buffer_str b = (case buf_storage b of
       None \<Rightarrow> []
     | Some s \<Rightarrow> drop (unat (buf_starting_offset b)) s)"

definition buffer_at :: "buffer \<Rightarrow> size_t \<Rightarrow> u8 outcome" where
  "buffer_at b n = view_at (buffer_str b) n"

definition buffer_size :: "buffer \<Rightarrow> size_t" where
  "buffer_size b = csize (buffer_str b)"

definition buffer_copy :: "buffer \<Rightarrow> bytes" where
  "buffer_copy b = buffer_str b"

definition buffer_remove_prefix :: "size_t \<Rightarrow> (buffer, unit) prog" where
  "buffer_remove_prefix n = (\<lambda>b.
     if n > csize (buffer_str b) then (Throw (Out_of_range ''Buffer::remove_prefix''), b)
     else let b = b\<lparr>buf_starting_offset := buf_starting_offset b + n\<rparr>
       in (Ok (), case buf_storage b of
             None \<Rightarrow> b
           | Some s \<Rightarrow> if buf_starting_offset b = csize s then b\<lparr>buf_storage := None\<rparr> else b))"

definition buffer_ok :: "buffer \<Rightarrow> bool" where
  "buffer_ok b \<longleftrightarrow> (case buf_storage b of
       None \<Rightarrow> True
     | Some s \<Rightarrow> length s < size_limit \<and> unat (buf_starting_offset b) \<le> length s)"

lemma buffer_ok_Buffer [simp]: "buffer_ok (Buffer s) = (length s < size_limit)"
  by (simp add: buffer_ok_def Buffer_def)

lemma buffer_ok_default [simp]: "buffer_ok Buffer_default"
  by (simp add: buffer_ok_def Buffer_default_def)

lemma buffer_str_Buffer [simp]: "buffer_str (Buffer s) = s"
  by (simp add: buffer_str_def Buffer_def)

lemma buffer_str_default [simp]: "buffer_str Buffer_default = []"
  by (simp add: buffer_str_def Buffer_default_def)

lemma buffer_str_small: "buffer_ok b \<Longrightarrow> length (buffer_str b) < size_limit"
  by (auto simp: buffer_ok_def buffer_str_def split: option.splits)

lemma buffer_unat_size: "buffer_ok b \<Longrightarrow> unat (csize (buffer_str b)) = length (buffer_str b)"
  by (simp add: unat_csize buffer_str_small)

lemma buffer_remove_prefix_ok:
  assumes ok: "buffer_ok b" and n: "unat n \<le> length (buffer_str b)"
  shows "\<exists>t. buffer_remove_prefix n b = (Ok (), t) \<and> buffer_ok t
           \<and> buffer_str t = drop (unat n) (buffer_str b)
           \<and> (buf_storage t = None \<longleftrightarrow> drop (unat n) (buffer_str b) = [])"
proof -
  have le: "\<not> n > csize (buffer_str b)"
    using n ok by (simp add: word_less_nat_alt buffer_unat_size)
  show ?thesis
  proof (cases "buf_storage b")
    case None
    with le show ?thesis
      by (simp add: buffer_remove_prefix_def Let_def buffer_ok_def buffer_str_def)
  next
    case (Some s)
    let ?o = "buf_starting_offset b"
    have s: "length s < size_limit" "unat ?o \<le> length s" "unat n \<le> length s - unat ?o"
      using ok n Some by (auto simp: buffer_ok_def buffer_str_def)
    then have "unat ?o + unat n < 2 ^ LENGTH(64)" by simp
    then have sum: "unat (?o + n) = unat ?o + unat n" by (simp add: unat_word_ariths)
    have "?o + n = csize s \<longleftrightarrow> unat ?o + unat n = length s"
      using s(1) sum by (simp add: word_unat_eq_iff unat_csize)
    with le s sum Some show ?thesis
      by (auto simp: buffer_remove_prefix_def Let_def buffer_ok_def buffer_str_def add.commute)
  qed
qed

lemma buffer_remove_prefix_overrun:
  "buffer_ok b \<Longrightarrow> length (buffer_str b) < unat n \<Longrightarrow>
   buffer_remove_prefix n b = (Throw (Out_of_range ''Buffer::remove_prefix''), b)"
  by (simp add: buffer_remove_prefix_def word_less_nat_alt buffer_unat_size)

interpretation buf: front_readable buffer_str buffer_ok buffer_size buffer_remove_prefix
  "Out_of_range ''Buffer::remove_prefix''" buffer_at
proof
  fix b :: buffer and n :: size_t
  assume ok: "buffer_ok b"
  show "length (buffer_str b) < size_limit" using ok by (rule buffer_str_small)
  show "buffer_size b = csize (buffer_str b)" by (simp add: buffer_size_def)
  show "unat n \<le> length (buffer_str b) \<Longrightarrow>
      \<exists>t. buffer_remove_prefix n b = (Ok (), t) \<and> buffer_ok t
        \<and> buffer_str t = drop (unat n) (buffer_str b)"
    using buffer_remove_prefix_ok [OF ok] by blast
  show "length (buffer_str b) < unat n \<Longrightarrow>
      \<exists>t. buffer_remove_prefix n b = (Throw (Out_of_range ''Buffer::remove_prefix''), t)"
    using buffer_remove_prefix_overrun [OF ok] by blast
  show "n < buffer_size b \<Longrightarrow> buffer_at b n = Ok (buffer_str b ! unat n)"
    using ok by (simp add: buffer_at_def buffer_size_def word_less_nat_alt buffer_unat_size)
qed

section \<open>BufferList\<close>

type_synonym buffer_list = "buffer list"

definition BufferList_default :: buffer_list where
  "BufferList_default = []"

definition BufferList :: "buffer \<Rightarrow> buffer_list" where
  "BufferList b = [b]"

text \<open>\<open>for (const auto &buf : other._buffers) _buffers.push_back(buf)\<close>, with \<open>other\<close> another list.\<close>

fun buflist_append :: "buffer_list \<Rightarrow> buffer_list \<Rightarrow> buffer_list" where
  "buflist_append buffers [] = buffers"
| "buflist_append buffers (buf # other) = buflist_append (buffers @ [buf]) other"

text \<open>
  The same with \<open>other\<close> the list itself: the first \<open>push_back\<close> invalidates the iterators of the
  deque that the loop walks, and the loop goes on with them.
\<close>

definition buflist_append_self :: "buffer_list \<Rightarrow> buffer_list outcome" where
  "buflist_append_self buffers = (if buffers = [] then Ok [] else UB)"

text \<open>\<open>BufferList::buffers\<close>.\<close>

definition buflist_buffers :: "buffer_list \<Rightarrow> buffer list" where
  "buflist_buffers buffers = buffers"

definition BufferList_str :: "bytes \<Rightarrow> buffer_list" where
  "BufferList_str str = buflist_append [] (BufferList (Buffer str))"

definition buflist_to_buffer :: "buffer_list \<Rightarrow> buffer outcome" where
  "buflist_to_buffer buffers = (case buffers of
       [] \<Rightarrow> Ok Buffer_default
     | [b] \<Rightarrow> Ok b
     | _ \<Rightarrow> Throw (Runtime_error ''BufferList: please use concatenate() to combine a multi-Buffer BufferList into one Buffer''))"

fun buflist_size_loop :: "size_t \<Rightarrow> buffer_list \<Rightarrow> size_t" where
  "buflist_size_loop ret [] = ret"
| "buflist_size_loop ret (buf # bufs) = buflist_size_loop (ret + buffer_size buf) bufs"

definition buflist_size :: "buffer_list \<Rightarrow> size_t" where
  "buflist_size buffers = buflist_size_loop 0 buffers"

fun buflist_concat_loop :: "bytes \<Rightarrow> buffer_list \<Rightarrow> bytes" where
  "buflist_concat_loop ret [] = ret"
| "buflist_concat_loop ret (buf # bufs) = buflist_concat_loop (ret @ buffer_str buf) bufs"

definition buflist_concatenate :: "buffer_list \<Rightarrow> bytes" where
  "buflist_concatenate buffers = buflist_concat_loop [] buffers"

fun buflist_remove_prefix :: "size_t \<Rightarrow> (buffer_list, unit) prog" where
  "buflist_remove_prefix n [] =
     (if n > 0 then (Throw (Out_of_range ''BufferList::remove_prefix''), []) else (Ok (), []))"
| "buflist_remove_prefix n (front # rest) =
     (if n > 0 then
        (if n < csize (buffer_str front) then
           (case buffer_remove_prefix n front of (r, front') \<Rightarrow> (r, front' # rest))
         else buflist_remove_prefix (n - csize (buffer_str front)) rest)
      else (Ok (), front # rest))"

section \<open>BufferViewList\<close>

type_synonym buffer_view_list = "bytes list"

record iovec =
  iov_base :: bytes
  iov_len :: size_t

definition BufferViewList_view :: "bytes \<Rightarrow> buffer_view_list" where
  "BufferViewList_view str = [str]"

definition BufferViewList_str :: "bytes \<Rightarrow> buffer_view_list" where
  "BufferViewList_str str = BufferViewList_view str"

definition BufferViewList_cstr :: "bytes \<Rightarrow> buffer_view_list" where
  "BufferViewList_cstr s = BufferViewList_view (c_str s)"

fun viewlist_of_loop :: "buffer_view_list \<Rightarrow> buffer_list \<Rightarrow> buffer_view_list" where
  "viewlist_of_loop views [] = views"
| "viewlist_of_loop views (x # xs) = viewlist_of_loop (views @ [buffer_str x]) xs"

definition BufferViewList :: "buffer_list \<Rightarrow> buffer_view_list" where
  "BufferViewList buffers = viewlist_of_loop [] buffers"

fun viewlist_remove_prefix :: "size_t \<Rightarrow> (buffer_view_list, unit) prog" where
  "viewlist_remove_prefix n [] =
     (if n > 0 then (Throw (Out_of_range ''BufferListView::remove_prefix''), []) else (Ok (), []))"
| "viewlist_remove_prefix n (front # rest) =
     (if n > 0 then
        (if n < csize front then (Ok (), drop (unat n) front # rest)
         else viewlist_remove_prefix (n - csize front) rest)
      else (Ok (), front # rest))"

fun viewlist_size_loop :: "size_t \<Rightarrow> buffer_view_list \<Rightarrow> size_t" where
  "viewlist_size_loop ret [] = ret"
| "viewlist_size_loop ret (buf # bufs) = viewlist_size_loop (ret + csize buf) bufs"

definition viewlist_size :: "buffer_view_list \<Rightarrow> size_t" where
  "viewlist_size views = viewlist_size_loop 0 views"

fun viewlist_iovecs_loop :: "iovec list \<Rightarrow> buffer_view_list \<Rightarrow> iovec list" where
  "viewlist_iovecs_loop ret [] = ret"
| "viewlist_iovecs_loop ret (x # xs) =
     viewlist_iovecs_loop (ret @ [\<lparr>iov_base = x, iov_len = csize x\<rparr>]) xs"

definition viewlist_as_iovecs :: "buffer_view_list \<Rightarrow> iovec list" where
  "viewlist_as_iovecs views = viewlist_iovecs_loop [] views"

section \<open>The loops in closed form\<close>

lemma buflist_append_eq [simp]: "buflist_append bs cs = bs @ cs"
  by (induction bs cs rule: buflist_append.induct) auto

lemma buflist_size_loop_eq: "buflist_size_loop r bs = r + csize (concat (map buffer_str bs))"
  by (induction r bs rule: buflist_size_loop.induct) (auto simp: buffer_size_def)

lemma buflist_concat_loop_eq: "buflist_concat_loop r bs = r @ concat (map buffer_str bs)"
  by (induction r bs rule: buflist_concat_loop.induct) auto

lemma viewlist_of_loop_eq: "viewlist_of_loop vs bs = vs @ map buffer_str bs"
  by (induction vs bs rule: viewlist_of_loop.induct) auto

lemma viewlist_size_loop_eq: "viewlist_size_loop r vs = r + csize (concat vs)"
  by (induction r vs rule: viewlist_size_loop.induct) auto

lemma viewlist_iovecs_loop_eq:
  "viewlist_iovecs_loop r vs = r @ map (\<lambda>x. \<lparr>iov_base = x, iov_len = csize x\<rparr>) vs"
  by (induction r vs rule: viewlist_iovecs_loop.induct) auto

lemma buflist_size_eq: "buflist_size bs = csize (concat (map buffer_str bs))"
  by (simp add: buflist_size_def buflist_size_loop_eq)

lemma buflist_concatenate_eq: "buflist_concatenate bs = concat (map buffer_str bs)"
  by (simp add: buflist_concatenate_def buflist_concat_loop_eq)

lemma BufferViewList_eq: "BufferViewList bs = map buffer_str bs"
  by (simp add: BufferViewList_def viewlist_of_loop_eq)

lemma viewlist_size_eq: "viewlist_size vs = csize (concat vs)"
  by (simp add: viewlist_size_def viewlist_size_loop_eq)

lemma viewlist_as_iovecs_eq:
  "viewlist_as_iovecs vs = map (\<lambda>x. \<lparr>iov_base = x, iov_len = csize x\<rparr>) vs"
  by (simp add: viewlist_as_iovecs_def viewlist_iovecs_loop_eq)

definition buflist_ok :: "buffer_list \<Rightarrow> bool" where
  "buflist_ok bs \<longleftrightarrow> list_all buffer_ok bs \<and> length (concat (map buffer_str bs)) < size_limit"

definition viewlist_ok :: "buffer_view_list \<Rightarrow> bool" where
  "viewlist_ok vs \<longleftrightarrow> length (concat vs) < size_limit"

lemma viewlist_remove_prefix_ok:
  "viewlist_ok vs \<Longrightarrow> unat n \<le> length (concat vs) \<Longrightarrow>
   \<exists>ws. viewlist_remove_prefix n vs = (Ok (), ws) \<and> concat ws = drop (unat n) (concat vs)"
proof (induction n vs rule: viewlist_remove_prefix.induct)
  case (1 n)
  then show ?case by (simp add: unat_eq_zero)
next
  case (2 n front rest)
  have sz: "unat (csize front) = length front"
    using "2.prems"(1) by (simp add: viewlist_ok_def unat_csize)
  show ?case
  proof (cases "n > 0 \<and> \<not> n < csize front")
    case False
    then show ?thesis
      using sz by (auto simp: word_less_nat_alt word_neq_0_conv [symmetric])
  next
    case True
    then have "csize front \<le> n" by (simp add: not_less)
    then have diff: "unat (n - csize front) = unat n - length front"
      by (simp add: unat_sub sz)
    have "viewlist_ok rest" "unat (n - csize front) \<le> length (concat rest)"
      using "2.prems" diff by (auto simp: viewlist_ok_def)
    with "2.IH" True obtain ws where
      "viewlist_remove_prefix (n - csize front) rest = (Ok (), ws)"
      "concat ws = drop (unat n - length front) (concat rest)"
      by (auto simp: diff)
    moreover have "length front \<le> unat n"
      using \<open>csize front \<le> n\<close> by (simp add: word_le_nat_alt sz)
    ultimately show ?thesis using True by simp
  qed
qed

lemma viewlist_remove_prefix_overrun:
  "viewlist_ok vs \<Longrightarrow> length (concat vs) < unat n \<Longrightarrow>
   viewlist_remove_prefix n vs = (Throw (Out_of_range ''BufferListView::remove_prefix''), [])"
proof (induction n vs rule: viewlist_remove_prefix.induct)
  case (1 n)
  then show ?case by (simp add: word_less_nat_alt)
next
  case (2 n front rest)
  have sz: "unat (csize front) = length front"
    using "2.prems"(1) by (simp add: viewlist_ok_def unat_csize)
  have "n > 0" "csize front \<le> n"
    using "2.prems"(2) by (auto simp: word_less_nat_alt word_le_nat_alt sz)
  then show ?case
    using "2.IH" "2.prems" sz by (auto simp: viewlist_ok_def unat_sub)
qed

text \<open>
  Removing from a list of buffers and from the list of their views are the same computation:
  one of them throws where the other does, and the buffers left show the views left.
\<close>

lemma buflist_remove_prefix_views:
  "list_all buffer_ok bs \<Longrightarrow>
   map buffer_str (snd (buflist_remove_prefix n bs))
     = snd (viewlist_remove_prefix n (map buffer_str bs))
   \<and> (fst (buflist_remove_prefix n bs) = Ok ()
       \<longleftrightarrow> fst (viewlist_remove_prefix n (map buffer_str bs)) = Ok ())
   \<and> (fst (buflist_remove_prefix n bs) \<noteq> Ok () \<longrightarrow>
        fst (buflist_remove_prefix n bs) = Throw (Out_of_range ''BufferList::remove_prefix''))
   \<and> list_all buffer_ok (snd (buflist_remove_prefix n bs))"
proof (induction n bs rule: buflist_remove_prefix.induct)
  case (1 n)
  then show ?case by simp
next
  case (2 n front rest)
  show ?case
  proof (cases "n > 0 \<and> n < csize (buffer_str front)")
    case True
    then have "unat n \<le> length (buffer_str front)"
      using "2.prems" by (simp add: word_less_nat_alt buffer_unat_size)
    with "2.prems" buffer_remove_prefix_ok [of front n] obtain t where
      "buffer_remove_prefix n front = (Ok (), t)" "buffer_ok t"
      "buffer_str t = drop (unat n) (buffer_str front)"
      by auto
    with True "2.prems" show ?thesis by simp
  next
    case False
    with "2.IH" "2.prems" show ?thesis by auto
  qed
qed

interpretation blist: front_droppable "\<lambda>bs. concat (map buffer_str bs)" buflist_ok buflist_size
  buflist_remove_prefix "Out_of_range ''BufferList::remove_prefix''"
proof
  fix bs :: buffer_list and n :: size_t
  assume ok: "buflist_ok bs"
  then have all: "list_all buffer_ok bs" and v: "viewlist_ok (map buffer_str bs)"
    by (simp_all add: buflist_ok_def viewlist_ok_def)
  note sim = buflist_remove_prefix_views [OF all, of n]
  show "length (concat (map buffer_str bs)) < size_limit" using ok by (simp add: buflist_ok_def)
  show "buflist_size bs = csize (concat (map buffer_str bs))" by (rule buflist_size_eq)
  show "\<exists>t. buflist_remove_prefix n bs = (Ok (), t) \<and> buflist_ok t
          \<and> concat (map buffer_str t) = drop (unat n) (concat (map buffer_str bs))"
    if n: "unat n \<le> length (concat (map buffer_str bs))"
  proof -
    from viewlist_remove_prefix_ok [OF v n] obtain ws where
      ws: "viewlist_remove_prefix n (map buffer_str bs) = (Ok (), ws)"
        "concat ws = drop (unat n) (concat (map buffer_str bs))" by blast
    obtain r t where t: "buflist_remove_prefix n bs = (r, t)" by fastforce
    from sim t ws have "r = Ok ()" "map buffer_str t = ws" "list_all buffer_ok t" by auto
    with t ws ok show ?thesis by (auto simp: buflist_ok_def)
  qed
  show "\<exists>t. buflist_remove_prefix n bs = (Throw (Out_of_range ''BufferList::remove_prefix''), t)"
    if n: "length (concat (map buffer_str bs)) < unat n"
    using sim viewlist_remove_prefix_overrun [OF v n]
    by (cases "buflist_remove_prefix n bs") auto
qed

interpretation vlist: front_droppable concat viewlist_ok viewlist_size
  viewlist_remove_prefix "Out_of_range ''BufferListView::remove_prefix''"
proof
  fix vs :: buffer_view_list and n :: size_t
  assume ok: "viewlist_ok vs"
  show "length (concat vs) < size_limit" using ok by (simp add: viewlist_ok_def)
  show "viewlist_size vs = csize (concat vs)" by (rule viewlist_size_eq)
  show "unat n \<le> length (concat vs) \<Longrightarrow>
      \<exists>t. viewlist_remove_prefix n vs = (Ok (), t) \<and> viewlist_ok t
        \<and> concat t = drop (unat n) (concat vs)"
    using viewlist_remove_prefix_ok [OF ok, of n] ok by (auto simp: viewlist_ok_def)
  show "length (concat vs) < unat n \<Longrightarrow>
      \<exists>t. viewlist_remove_prefix n vs = (Throw (Out_of_range ''BufferListView::remove_prefix''), t)"
    using viewlist_remove_prefix_overrun [OF ok] by blast
qed

text \<open>
  A \<open>Buffer\<close> discards exactly the bytes asked for or none: removing at most \<open>size()\<close> bytes
  leaves the rest of the string and gives up the shared storage exactly when nothing is left;
  asking for more throws \<open>out_of_range\<close> and changes nothing.
\<close>

lemma buffer_remove_prefix_spec:
  assumes "buffer_ok b"
  shows "if n \<le> buffer_size b
         then (\<exists>t. buffer_remove_prefix n b = (Ok (), t) \<and> buffer_ok t
                 \<and> buffer_copy t = drop (unat n) (buffer_copy b)
                 \<and> (buf_storage t = None \<longleftrightarrow> buffer_size t = 0))
         else buffer_remove_prefix n b = (Throw (Out_of_range ''Buffer::remove_prefix''), b)"
proof (cases "n \<le> buffer_size b")
  case True
  then have "unat n \<le> length (buffer_str b)"
    using buf.unat_size [OF assms] by (simp add: word_le_nat_alt)
  from buffer_remove_prefix_ok [OF assms this] show ?thesis
  proof (elim exE conjE)
    fix t
    assume t: "buffer_remove_prefix n b = (Ok (), t)" "buffer_ok t"
      "buffer_str t = drop (unat n) (buffer_str b)"
      "buf_storage t = None \<longleftrightarrow> drop (unat n) (buffer_str b) = []"
    have "buffer_size t = 0 \<longleftrightarrow> buffer_str t = []"
      by (simp only: buffer_size_def csize_eq_0_iff [OF buffer_str_small [OF t(2)]])
    then have "buf_storage t = None \<longleftrightarrow> buffer_size t = 0"
      by (simp only: t(3,4))
    then show ?thesis
      using t(1-3) by (simp only: True if_True buffer_copy_def) (intro exI [of _ t] conjI refl; assumption)
  qed
next
  case False
  then have "length (buffer_str b) < unat n"
    using buf.unat_size [OF assms] by (simp add: word_le_nat_alt)
  with False assms show ?thesis by (simp add: buffer_remove_prefix_overrun)
qed

section \<open>Properties\<close>

text \<open>
  C7. A \<open>BufferList\<close> behaves as the one string its buffers spell: \<open>size()\<close> is the length of
  \<open>concatenate()\<close>, \<open>remove_prefix(n)\<close> with \<open>n \<le> size()\<close> drops the first \<open>n\<close> bytes of it
  wherever the buffer boundaries fall, and a larger \<open>n\<close> throws \<open>out_of_range\<close>.
\<close>

theorem buflist_remove_prefix_spec:
  assumes "buflist_ok bs"
  shows "unat (buflist_size bs) = length (buflist_concatenate bs)
       \<and> (if n \<le> buflist_size bs
          then (\<exists>t. buflist_remove_prefix n bs = (Ok (), t) \<and> buflist_ok t
                  \<and> buflist_concatenate t = drop (unat n) (buflist_concatenate bs))
          else (\<exists>t. buflist_remove_prefix n bs
                  = (Throw (Out_of_range ''BufferList::remove_prefix''), t)))"
  using blist.unat_size [OF assms] blist.remove_law [OF assms, of n] blist.overrun_law [OF assms, of n]
  by (auto simp: buflist_concatenate_eq word_le_nat_alt)

theorem buflist_remove_prefix_spec_witness:
  "\<exists>t. buflist_remove_prefix 3 (buflist_append (BufferList_str [1, 2]) (BufferList_str [3, 4])) = (Ok (), t)
     \<and> buflist_concatenate t = [4]"
  using buflist_remove_prefix_spec [of "buflist_append (BufferList_str [1, 2]) (BufferList_str [3, 4])" 3]
  by (auto simp: buflist_ok_def BufferList_str_def BufferList_def buflist_size_eq
      buflist_concatenate_eq csize_def)



end
