(* ===== verification/Shared_Buffers.thy ===== *)
theory Shared_Buffers
  imports Buffers
begin

text \<open>
  The memory behind \<open>libsponge/util/buffer.hh\<close> and \<open>libsponge/util/buffer.cc\<close>. In \<open>Buffers\<close> a
  \<open>Buffer\<close> is a value with a string of its own; in the code it is a \<open>std::shared_ptr\<close> to a string that
  other buffers may share, and a view is a pointer into such a string that keeps nothing alive. Here
  the strings are in a \<open>store\<close> with their use counts, a pointer is an address, and every copy and
  destruction that the member functions make is a step; using the memory of a string that was freed
  is undefined behaviour.

  The lemmas: exact accounting of the use counts by the buffers that exist (\<open>exact\<close>), for each
  operation the operation of \<open>Buffers\<close> that it implements (\<open>abs_buffer\<close> reads a buffer off the store),
  and from these, for programs with several variables, that the two models cannot be told apart, that
  a string is freed with its last buffer, and how long a view can be read.
\<close>

section \<open>Shared strings\<close>

type_synonym addr = nat

record store =
  sto_text :: "addr \<Rightarrow> bytes option"
  sto_uses :: "addr \<Rightarrow> nat"
  sto_next :: addr

definition empty_store :: store where
  "empty_store = \<lparr>sto_text = (\<lambda>_. None), sto_uses = (\<lambda>_. 0), sto_next = 0\<rparr>"

text \<open>\<open>std::shared_ptr<std::string>\<close>: \<open>*p\<close>, \<open>make_shared\<close>, the copy, and the release of the destructor.\<close>

definition sptr_deref :: "addr \<Rightarrow> (store, bytes) prog" where
  "sptr_deref a = (\<lambda>s. case sto_text s a of None \<Rightarrow> (UB, s) | Some str \<Rightarrow> (Ok str, s))"

definition sptr_make :: "bytes \<Rightarrow> (store, addr option) prog" where
  "sptr_make str = (\<lambda>s. (Ok (Some (sto_next s)),
     s\<lparr>sto_text := (sto_text s)(sto_next s \<mapsto> str), sto_uses := (sto_uses s)(sto_next s := 1),
       sto_next := Suc (sto_next s)\<rparr>))"

definition sptr_copy :: "addr option \<Rightarrow> (store, addr option) prog" where
  "sptr_copy p = (case p of None \<Rightarrow> retp None
     | Some a \<Rightarrow> thenp (sptr_deref a)
         (thenp (modifyp (\<lambda>s. s\<lparr>sto_uses := (sto_uses s)(a := Suc (sto_uses s a))\<rparr>)) (retp p)))"

definition sptr_release :: "addr option \<Rightarrow> (store, unit) prog" where
  "sptr_release p = (case p of None \<Rightarrow> retp ()
     | Some a \<Rightarrow> thenp (sptr_deref a)
         (modifyp (\<lambda>s. s\<lparr>sto_uses := (sto_uses s)(a := sto_uses s a - 1),
            sto_text := (if sto_uses s a = 1 then (sto_text s)(a := None) else sto_text s)\<rparr>)))"

section \<open>Views\<close>

text \<open>\<open>std::string_view\<close>: a pointer, here an address with a position, and a length.\<close>

record string_view =
  sv_data :: "addr option"
  sv_start :: size_t
  sv_size :: size_t

definition null_view :: string_view where
  "null_view = \<lparr>sv_data = None, sv_start = 0, sv_size = 0\<rparr>"

text \<open>Reading all the bytes it shows.\<close>

definition sv_read :: "string_view \<Rightarrow> (store, bytes) prog" where
  "sv_read v = (case sv_data v of None \<Rightarrow> retp []
     | Some a \<Rightarrow> bindp (sptr_deref a) (\<lambda>str.
         if unat (sv_start v) + unat (sv_size v) \<le> length str
         then retp (take (unat (sv_size v)) (drop (unat (sv_start v)) str)) else ubp))"

definition sv_remove_prefix :: "size_t \<Rightarrow> string_view \<Rightarrow> string_view" where
  "sv_remove_prefix n v = v\<lparr>sv_start := sv_start v + n, sv_size := sv_size v - n\<rparr>"

section \<open>Buffer\<close>

record shared_buffer =
  sb_storage :: "addr option"
  sb_starting_offset :: size_t

definition sbuf_default :: shared_buffer where
  "sbuf_default = \<lparr>sb_storage = None, sb_starting_offset = 0\<rparr>"

definition sbuf_make :: "bytes \<Rightarrow> (store, shared_buffer) prog" where
  "sbuf_make str = bindp (sptr_make str) (\<lambda>p. retp \<lparr>sb_storage = p, sb_starting_offset = 0\<rparr>)"

text \<open>The copy constructor and the destructor, which the compiler generates.\<close>

definition sbuf_copy :: "shared_buffer \<Rightarrow> (store, shared_buffer) prog" where
  "sbuf_copy b = bindp (sptr_copy (sb_storage b)) (\<lambda>p. retp (b\<lparr>sb_storage := p\<rparr>))"

definition sbuf_destroy :: "shared_buffer \<Rightarrow> (store, unit) prog" where
  "sbuf_destroy b = sptr_release (sb_storage b)"

definition sbuf_str :: "shared_buffer \<Rightarrow> (store, string_view) prog" where
  "sbuf_str b = (case sb_storage b of None \<Rightarrow> retp null_view
     | Some a \<Rightarrow> bindp (sptr_deref a) (\<lambda>str. retp \<lparr>sv_data = Some a, sv_start = sb_starting_offset b,
         sv_size = csize str - sb_starting_offset b\<rparr>))"

definition sbuf_size :: "shared_buffer \<Rightarrow> (store, size_t) prog" where
  "sbuf_size b = bindp (sbuf_str b) (\<lambda>v. retp (sv_size v))"

definition sbuf_read :: "shared_buffer \<Rightarrow> (store, bytes) prog" where
  "sbuf_read b = bindp (sbuf_str b) sv_read"

definition sbuf_at :: "shared_buffer \<Rightarrow> size_t \<Rightarrow> (store, u8) prog" where
  "sbuf_at b n = bindp (sbuf_read b) (\<lambda>str. liftp (view_at str n))"

text \<open>A member function of a buffer may change the buffer and the store.\<close>

definition on_store :: "(store, 'a) prog \<Rightarrow> (store \<times> 'o, 'a) prog" where
  "on_store m = zoomp fst (\<lambda>s (_, this). (s, this)) m"

definition sbuf_remove_prefix :: "size_t \<Rightarrow> (store \<times> shared_buffer, unit) prog" where
  "sbuf_remove_prefix n = bindp (getp snd) (\<lambda>this. bindp (on_store (sbuf_str this)) (\<lambda>view.
     if n > sv_size view then throwp (Out_of_range ''Buffer::remove_prefix'')
     else let offset = sb_starting_offset this + n
       in thenp (modifyp (\<lambda>(s, b). (s, b\<lparr>sb_starting_offset := offset\<rparr>)))
         (case sb_storage this of None \<Rightarrow> retp ()
          | Some a \<Rightarrow> bindp (on_store (sptr_deref a)) (\<lambda>str.
              if offset = csize str
              then thenp (on_store (sptr_release (Some a))) (modifyp (\<lambda>(s, b). (s, b\<lparr>sb_storage := None\<rparr>)))
              else retp ()))))"

section \<open>BufferList\<close>

type_synonym shared_list = "shared_buffer list"

text \<open>\<open>append\<close>, with \<open>other\<close> another list; the copy constructor and the destructor of the deque.\<close>

fun slist_append :: "shared_list \<Rightarrow> shared_list \<Rightarrow> (store, shared_list) prog" where
  "slist_append buffers [] = retp buffers"
| "slist_append buffers (buf # other) = bindp (sbuf_copy buf) (\<lambda>b. slist_append (buffers @ [b]) other)"

definition slist_copy :: "shared_list \<Rightarrow> (store, shared_list) prog" where
  "slist_copy other = slist_append [] other"

fun slist_destroy :: "shared_list \<Rightarrow> (store, unit) prog" where
  "slist_destroy [] = retp ()"
| "slist_destroy (buf # buffers) = thenp (sbuf_destroy buf) (slist_destroy buffers)"

text \<open>
  \<open>BufferList(Buffer buffer)\<close>: the parameter, the array of the initializer list and the element of the
  deque are each a copy. \<open>BufferList(std::string &&str)\<close>: the argument of \<open>append\<close> is a temporary
  \<open>BufferList\<close> made from \<open>buf\<close>.
\<close>

definition slist_of_buffer :: "shared_buffer \<Rightarrow> (store, shared_list) prog" where
  "slist_of_buffer argument = bindp (sbuf_copy argument) (\<lambda>buffer. bindp (sbuf_copy buffer) (\<lambda>init.
     bindp (sbuf_copy init) (\<lambda>element.
       thenp (sbuf_destroy init) (thenp (sbuf_destroy buffer) (retp [element])))))"

definition slist_of_string :: "bytes \<Rightarrow> (store, shared_list) prog" where
  "slist_of_string str = bindp (sbuf_make str) (\<lambda>buf. bindp (slist_of_buffer buf) (\<lambda>temporary.
     bindp (slist_append [] temporary) (\<lambda>buffers.
       thenp (slist_destroy temporary) (thenp (sbuf_destroy buf) (retp buffers)))))"

definition slist_to_buffer :: "shared_list \<Rightarrow> (store, shared_buffer) prog" where
  "slist_to_buffer buffers = (case buffers of
       [] \<Rightarrow> retp sbuf_default
     | [b] \<Rightarrow> sbuf_copy b
     | _ \<Rightarrow> throwp (Runtime_error ''BufferList: please use concatenate() to combine a multi-Buffer BufferList into one Buffer''))"

fun slist_size_loop :: "size_t \<Rightarrow> shared_list \<Rightarrow> (store, size_t) prog" where
  "slist_size_loop ret [] = retp ret"
| "slist_size_loop ret (buf # bufs) = bindp (sbuf_size buf) (\<lambda>n. slist_size_loop (ret + n) bufs)"

definition slist_size :: "shared_list \<Rightarrow> (store, size_t) prog" where
  "slist_size buffers = slist_size_loop 0 buffers"

fun slist_concat_loop :: "bytes \<Rightarrow> shared_list \<Rightarrow> (store, bytes) prog" where
  "slist_concat_loop ret [] = retp ret"
| "slist_concat_loop ret (buf # bufs) = bindp (sbuf_read buf) (\<lambda>str. slist_concat_loop (ret @ str) bufs)"

definition slist_concatenate :: "shared_list \<Rightarrow> (store, bytes) prog" where
  "slist_concatenate buffers = thenp (slist_size buffers) (slist_concat_loop [] buffers)"

text \<open>\<open>pop_front\<close> destroys the buffer it takes off.\<close>

fun slist_remove_prefix :: "size_t \<Rightarrow> shared_list \<Rightarrow> store \<Rightarrow> unit outcome \<times> store \<times> shared_list" where
  "slist_remove_prefix n [] s =
     (if n > 0 then (Throw (Out_of_range ''BufferList::remove_prefix''), s, []) else (Ok (), s, []))"
| "slist_remove_prefix n (front # rest) s =
     (if n > 0 then
        (case sbuf_size front s of
           (Ok size', s) \<Rightarrow>
             (if n < size' then
                (case sbuf_remove_prefix n (s, front) of (r, s, front') \<Rightarrow> (r, s, front' # rest))
              else
                (case sbuf_destroy front s of
                   (Ok _, s) \<Rightarrow> slist_remove_prefix (n - size') rest s
                 | (Throw e, s) \<Rightarrow> (Throw e, s, rest)
                 | (UB, s) \<Rightarrow> (UB, s, rest)))
         | (Throw e, s) \<Rightarrow> (Throw e, s, front # rest)
         | (UB, s) \<Rightarrow> (UB, s, front # rest))
      else (Ok (), s, front # rest))"

section \<open>BufferViewList\<close>

type_synonym shared_views = "string_view list"

fun sviews_of_loop :: "shared_views \<Rightarrow> shared_list \<Rightarrow> (store, shared_views) prog" where
  "sviews_of_loop views [] = retp views"
| "sviews_of_loop views (x # xs) = bindp (sbuf_str x) (\<lambda>v. sviews_of_loop (views @ [v]) xs)"

definition sviews_of :: "shared_list \<Rightarrow> (store, shared_views) prog" where
  "sviews_of buffers = sviews_of_loop [] buffers"

fun sviews_remove_prefix :: "size_t \<Rightarrow> (shared_views, unit) prog" where
  "sviews_remove_prefix n [] =
     (if n > 0 then (Throw (Out_of_range ''BufferListView::remove_prefix''), []) else (Ok (), []))"
| "sviews_remove_prefix n (front # rest) =
     (if n > 0 then
        (if n < sv_size front then (Ok (), sv_remove_prefix n front # rest)
         else sviews_remove_prefix (n - sv_size front) rest)
      else (Ok (), front # rest))"

text \<open>What a system call reads through the \<open>iovec\<close>s: they hold the pointers and lengths of the views.\<close>

fun sviews_read :: "shared_views \<Rightarrow> (store, bytes) prog" where
  "sviews_read [] = retp []"
| "sviews_read (v # vs) = bindp (sv_read v) (\<lambda>d. bindp (sviews_read vs) (\<lambda>ds. retp (d @ ds)))"

section \<open>Exact accounting\<close>

text \<open>
  \<open>exact refs s\<close>: each string in the store is used by as many pointers as its count says, namely
  \<open>refs\<close>, and is there exactly if there is one: nothing dangles, nothing leaks.
\<close>

definition exact :: "(addr \<Rightarrow> nat) \<Rightarrow> store \<Rightarrow> bool" where
  "exact refs s \<longleftrightarrow> (\<forall>a. sto_uses s a = refs a \<and> (sto_text s a = None \<longleftrightarrow> refs a = 0))
     \<and> (\<forall>a \<ge> sto_next s. refs a = 0)"

definition points :: "addr option \<Rightarrow> addr \<Rightarrow> nat" where
  "points p a = (if p = Some a then 1 else 0)"

text \<open>The strings that are still used are the same.\<close>

definition agree :: "(addr \<Rightarrow> nat) \<Rightarrow> store \<Rightarrow> store \<Rightarrow> bool" where
  "agree refs s t \<longleftrightarrow> (\<forall>a. refs a > 0 \<longrightarrow> sto_text t a = sto_text s a)"

lemma points_simps [simp]: "points None a = 0" "points (Some a) a = 1" "points (Some a) b = (if a = b then 1 else 0)"
  by (simp_all add: points_def)

lemma agree_refl [simp]: "agree refs s s"
  by (simp add: agree_def)

lemma agree_trans: "agree refs s t \<Longrightarrow> agree refs t u \<Longrightarrow> agree refs s u"
  by (simp add: agree_def)

lemma agree_less: "agree refs s t \<Longrightarrow> (\<And>a. refs' a > 0 \<Longrightarrow> refs a > 0) \<Longrightarrow> agree refs' s t"
  by (simp add: agree_def)

lemma exact_empty: "exact (\<lambda>_. 0) empty_store"
  by (simp add: exact_def empty_store_def)

lemma sptr_deref_live:
  "exact refs s \<Longrightarrow> refs a > 0 \<Longrightarrow> \<exists>str. sto_text s a = Some str \<and> sptr_deref a s = (Ok str, s)"
  by (cases "sto_text s a") (auto simp: exact_def sptr_deref_def)

lemma sptr_make_exact:
  assumes "exact refs s"
  shows "\<exists>t. sptr_make str s = (Ok (Some (sto_next s)), t) \<and> sto_text t (sto_next s) = Some str
    \<and> exact (\<lambda>a. refs a + points (Some (sto_next s)) a) t \<and> agree refs s t"
  using assms by (auto simp: sptr_make_def exact_def agree_def)

lemma sptr_copy_exact:
  assumes "exact refs s" and "\<And>a. p = Some a \<Longrightarrow> refs a > 0"
  shows "\<exists>t. sptr_copy p s = (Ok p, t) \<and> exact (\<lambda>a. refs a + points p a) t \<and> sto_text t = sto_text s"
proof (cases p)
  case None
  with assms(1) show ?thesis by (auto simp: sptr_copy_def prog_simps)
next
  case (Some a)
  with assms(2) have "refs a > 0" by simp
  moreover from sptr_deref_live [OF assms(1) this] obtain str where "sptr_deref a s = (Ok str, s)" by blast
  ultimately show ?thesis
    using assms(1) Some by (fastforce simp: sptr_copy_def prog_simps exact_def)
qed

lemma sptr_release_exact:
  assumes "exact (\<lambda>a. refs a + points p a) s"
  shows "\<exists>t. sptr_release p s = (Ok (), t) \<and> exact refs t \<and> agree refs s t"
proof (cases p)
  case None
  with assms show ?thesis by (auto simp: sptr_release_def prog_simps)
next
  case (Some a)
  from sptr_deref_live [OF assms, of a] Some obtain str where "sptr_deref a s = (Ok str, s)" by auto
  with assms Some show ?thesis
    by (auto simp: sptr_release_def prog_simps exact_def agree_def split: if_splits)
qed

section \<open>A buffer and the value it stands for\<close>

definition abs_buffer :: "store \<Rightarrow> shared_buffer \<Rightarrow> buffer" where
  "abs_buffer s b = \<lparr>buf_storage = Option.bind (sb_storage b) (sto_text s),
     buf_starting_offset = sb_starting_offset b\<rparr>"

definition uses :: "shared_list \<Rightarrow> addr \<Rightarrow> nat" where
  "uses bs a = sum_list (map (\<lambda>b. points (sb_storage b) a) bs)"

lemma uses_simps [simp]:
  "uses [] a = 0" "uses (b # bs) a = points (sb_storage b) a + uses bs a" "uses (bs @ cs) a = uses bs a + uses cs a"
  by (simp_all add: uses_def)

lemma uses_pos: "b \<in> set bs \<Longrightarrow> sb_storage b = Some a \<Longrightarrow> uses bs a > 0"
  by (induction bs) auto

lemma abs_buffer_agree:
  "agree refs s t \<Longrightarrow> (\<And>a. sb_storage b = Some a \<Longrightarrow> refs a > 0) \<Longrightarrow> abs_buffer t b = abs_buffer s b"
  by (cases "sb_storage b") (auto simp: abs_buffer_def agree_def)

lemma abs_list_agree:
  "agree refs s t \<Longrightarrow> (\<And>a. uses bs a > 0 \<Longrightarrow> refs a > 0) \<Longrightarrow> map (abs_buffer t) bs = map (abs_buffer s) bs"
  by (auto intro!: abs_buffer_agree dest: uses_pos)

lemma abs_text: "sto_text t = sto_text s \<Longrightarrow> abs_buffer t = abs_buffer s"
  by (rule ext) (simp add: abs_buffer_def)

text \<open>A view of a store that shows these bytes; its end does not wrap.\<close>

definition view_shows :: "store \<Rightarrow> string_view \<Rightarrow> bytes \<Rightarrow> bool" where
  "view_shows s v str \<longleftrightarrow> sv_size v = csize str \<and> length str < size_limit \<and> sv_read v s = (Ok str, s)
     \<and> unat (sv_start v) + unat (sv_size v) < size_limit"

lemma sbuf_str_shows:
  assumes "exact refs s" and "\<And>a. sb_storage b = Some a \<Longrightarrow> refs a > 0" and ok: "buffer_ok (abs_buffer s b)"
  shows "\<exists>v. sbuf_str b s = (Ok v, s) \<and> view_shows s v (buffer_str (abs_buffer s b)) \<and> sv_data v = sb_storage b"
proof (cases "sb_storage b")
  case None
  then show ?thesis
    by (simp add: sbuf_str_def null_view_def view_shows_def sv_read_def buffer_str_def abs_buffer_def prog_simps)
next
  case (Some a)
  from sptr_deref_live [OF assms(1) assms(2) [OF Some]] obtain str where
    str: "sto_text s a = Some str" "sptr_deref a s = (Ok str, s)" by blast
  let ?o = "sb_starting_offset b"
  have o: "unat ?o \<le> length str" "length str < size_limit"
    using ok Some str(1) by (simp_all add: buffer_ok_def abs_buffer_def)
  have abs: "buffer_str (abs_buffer s b) = drop (unat ?o) str"
    using Some str(1) by (simp add: buffer_str_def abs_buffer_def)
  have size: "csize str - ?o = csize (drop (unat ?o) str)"
    using o by (simp add: csize_def of_nat_diff)
  have len: "unat (csize (drop (unat ?o) str)) = length str - unat ?o"
    using o by (simp add: unat_csize)
  show ?thesis
    using Some str(2) o by (simp add: sbuf_str_def view_shows_def sv_read_def abs size len prog_simps)
qed

lemma view_shows_size: "view_shows s v str \<Longrightarrow> sv_size v = csize str \<and> unat (csize str) = length str"
  by (simp add: view_shows_def unat_csize)

lemma view_shows_remove_prefix:
  assumes v: "view_shows s v str" and n: "unat n \<le> length str"
  shows "view_shows s (sv_remove_prefix n v) (drop (unat n) str)"
proof -
  from view_shows_size [OF v] have size: "unat (sv_size v) = length str" by simp
  from v n size have "unat (sv_start v) + unat n < 2 ^ LENGTH(64)" by (simp add: view_shows_def)
  then have start: "unat (sv_start v + n) = unat (sv_start v) + unat n" by (simp add: unat_word_ariths)
  have less: "unat (sv_size v - n) = length str - unat n"
    using n size by (simp add: unat_sub word_le_nat_alt)
  have "csize str - n = csize (drop (unat n) str)" using n by (simp add: csize_def of_nat_diff)
  moreover have "sv_read (sv_remove_prefix n v) s = (Ok (drop (unat n) str), s)"
  proof (cases "sv_data v")
    case None
    with v n show ?thesis by (simp add: view_shows_def sv_read_def sv_remove_prefix_def prog_simps)
  next
    case (Some a)
    with v obtain str' where str': "sto_text s a = Some str'" "unat (sv_start v) + length str \<le> length str'"
      "str = take (length str) (drop (unat (sv_start v)) str')"
      by (auto simp: view_shows_def sv_read_def sptr_deref_def bindp_def retp_def ubp_def size
          split: option.splits if_splits)
    have "take (length str - unat n) (drop (unat n) (drop (unat (sv_start v)) str')) = drop (unat n) str"
      by (subst (2) str'(3)) (simp only: drop_take)
    then have "take (length str - unat n) (drop (unat (sv_start v) + unat n) str') = drop (unat n) str"
      by (simp add: add.commute)
    with Some str'(1,2) n show ?thesis
      by (simp add: sv_read_def sv_remove_prefix_def sptr_deref_def bindp_def retp_def start less)
  qed
  moreover have "unat (csize (drop (unat n) str)) = length str - unat n"
    using v by (simp add: view_shows_def unat_csize less_imp_diff_less)
  ultimately show ?thesis
    using v n size by (simp add: view_shows_def sv_remove_prefix_def start) linarith
qed

section \<open>The operations of a Buffer, implemented\<close>

lemma sbuf_read_exact:
  assumes "exact refs s" and "\<And>a. sb_storage b = Some a \<Longrightarrow> refs a > 0" and "buffer_ok (abs_buffer s b)"
  shows "sbuf_read b s = (Ok (buffer_copy (abs_buffer s b)), s)"
    and "sbuf_size b s = (Ok (buffer_size (abs_buffer s b)), s)"
    and "sbuf_at b n s = (buffer_at (abs_buffer s b) n, s)"
proof -
  from sbuf_str_shows [OF assms] obtain v where
    v: "sbuf_str b s = (Ok v, s)" "view_shows s v (buffer_str (abs_buffer s b))" by blast
  then show read: "sbuf_read b s = (Ok (buffer_copy (abs_buffer s b)), s)"
    by (simp add: sbuf_read_def buffer_copy_def view_shows_def prog_simps)
  from v show "sbuf_size b s = (Ok (buffer_size (abs_buffer s b)), s)"
    by (simp add: sbuf_size_def buffer_size_def view_shows_def prog_simps)
  from read show "sbuf_at b n s = (buffer_at (abs_buffer s b) n, s)"
    by (simp add: sbuf_at_def buffer_at_def buffer_copy_def prog_simps)
qed

lemma sbuf_copy_exact:
  assumes "exact refs s" and "\<And>a. sb_storage b = Some a \<Longrightarrow> refs a > 0"
  shows "\<exists>t. sbuf_copy b s = (Ok b, t) \<and> exact (\<lambda>a. refs a + points (sb_storage b) a) t \<and> sto_text t = sto_text s"
  using sptr_copy_exact [OF assms(1), of "sb_storage b"] assms(2) by (auto simp: sbuf_copy_def prog_simps)

lemma sbuf_destroy_exact:
  "exact (\<lambda>a. refs a + points (sb_storage b) a) s \<Longrightarrow>
    \<exists>t. sbuf_destroy b s = (Ok (), t) \<and> exact refs t \<and> agree refs s t"
  unfolding sbuf_destroy_def by (rule sptr_release_exact)

lemma on_store_apply: "m s = (r, t) \<Longrightarrow> on_store m (s, this) = (r, (t, this))"
  by (simp add: on_store_def zoomp_def)

lemma sbuf_remove_prefix_exact:
  assumes ex: "exact (\<lambda>a. refs a + points (sb_storage b) a) s" and ok: "buffer_ok (abs_buffer s b)"
  shows "\<exists>r t c. sbuf_remove_prefix n (s, b) = (r, (t, c))
    \<and> buffer_remove_prefix n (abs_buffer s b) = (r, abs_buffer t c) \<and> buffer_ok (abs_buffer t c)
    \<and> exact (\<lambda>a. refs a + points (sb_storage c) a) t \<and> agree refs s t"
proof -
  from sbuf_str_shows [OF ex _ ok] obtain v where
    v: "sbuf_str b s = (Ok v, s)" "sv_size v = csize (buffer_str (abs_buffer s b))"
    by (auto simp: view_shows_def)
  note st = on_store_apply [where m = "sbuf_str b" and s = s and this = b, OF v(1)]
  note defs = sbuf_remove_prefix_def prog_simps st v(2) buffer_remove_prefix_def
  show ?thesis
  proof (cases "n > sv_size v")
    case True
    with ex ok v(2) show ?thesis by (simp add: defs)
  next
    case False
    then have le: "unat n \<le> length (buffer_str (abs_buffer s b))"
      using v(2) buffer_unat_size [OF ok] by (simp add: not_less word_le_nat_alt)
    from buffer_remove_prefix_ok [OF ok le] obtain c where
      c: "buffer_remove_prefix n (abs_buffer s b) = (Ok (), c)" "buffer_ok c" by blast
    show ?thesis
    proof (cases "sb_storage b")
      case None
      with False ex c show ?thesis
        by (auto simp: defs Let_def abs_buffer_def split: if_splits)
    next
      case (Some a)
      with sptr_deref_live [OF ex, of a] obtain str where
        str: "sto_text s a = Some str" "sptr_deref a s = (Ok str, s)" by auto
      from sptr_release_exact [OF ex] Some obtain t where
        t: "sptr_release (Some a) s = (Ok (), t)" "exact refs t" "agree refs s t" by auto
      show ?thesis
        using False Some c ex t(2,3) str(1)
        by (cases "sb_starting_offset b + n = csize str")
          (auto simp: defs Let_def abs_buffer_def on_store_apply [where m = "sptr_deref a", OF str(2)]
            on_store_apply [where m = "sptr_release (Some a)", OF t(1)] split: if_splits)
    qed
  qed
qed

section \<open>The operations of a BufferList, implemented\<close>

lemma slist_append_exact:
  assumes "exact (\<lambda>a. refs a + uses buffers a) s" and "\<And>a. uses other a > 0 \<Longrightarrow> refs a + uses buffers a > 0"
  shows "\<exists>t. slist_append buffers other s = (Ok (buffers @ other), t)
    \<and> exact (\<lambda>a. refs a + uses (buffers @ other) a) t \<and> sto_text t = sto_text s"
  using assms
proof (induction buffers other arbitrary: s rule: slist_append.induct)
  case (1 buffers)
  then show ?case by (auto simp: prog_simps)
next
  case (2 buffers b other)
  have "refs a + uses buffers a > 0" if "sb_storage b = Some a" for a
    using "2.prems"(2) [of a] that by simp
  from sbuf_copy_exact [OF "2.prems"(1) this] obtain t where
    t: "sbuf_copy b s = (Ok b, t)" "exact (\<lambda>a. refs a + uses buffers a + points (sb_storage b) a) t"
      "sto_text t = sto_text s"
    by blast
  have "exact (\<lambda>a. refs a + uses (buffers @ [b]) a) t" using t(2) by (simp add: add.assoc)
  moreover have "uses other a > 0 \<Longrightarrow> refs a + uses (buffers @ [b]) a > 0" for a
    using "2.prems"(2) [of a] by auto
  ultimately obtain u where "slist_append (buffers @ [b]) other t = (Ok ((buffers @ [b]) @ other), u)"
      "exact (\<lambda>a. refs a + uses ((buffers @ [b]) @ other) a) u" "sto_text u = sto_text t"
    using "2.IH" by blast
  with t(1,3) show ?case by (simp add: prog_simps)
qed

lemma slist_copy_exact:
  assumes "exact refs s" and "\<And>a. uses other a > 0 \<Longrightarrow> refs a > 0"
  shows "\<exists>t. slist_copy other s = (Ok other, t) \<and> exact (\<lambda>a. refs a + uses other a) t \<and> sto_text t = sto_text s"
  using slist_append_exact [of refs "[]" s other] assms by (simp add: slist_copy_def)

lemma slist_destroy_exact:
  "exact (\<lambda>a. refs a + uses bs a) s \<Longrightarrow> \<exists>t. slist_destroy bs s = (Ok (), t) \<and> exact refs t \<and> agree refs s t"
proof (induction bs arbitrary: s)
  case Nil
  then show ?case by (simp add: prog_simps)
next
  case (Cons b bs)
  have "exact (\<lambda>a. (refs a + uses bs a) + points (sb_storage b) a) s" using Cons.prems by (simp add: ac_simps)
  from sbuf_destroy_exact [OF this] obtain t where
    t: "sbuf_destroy b s = (Ok (), t)" "exact (\<lambda>a. refs a + uses bs a) t" "agree (\<lambda>a. refs a + uses bs a) s t"
    by blast
  from Cons.IH [OF t(2)] obtain u where u: "slist_destroy bs t = (Ok (), u)" "exact refs u" "agree refs t u"
    by blast
  have "agree refs s u" by (rule agree_trans [OF agree_less [OF t(3)] u(3)]) simp
  with t(1) u show ?case by (simp add: prog_simps)
qed

lemma slist_of_buffer_exact:
  assumes "exact refs s" and "\<And>a. sb_storage b = Some a \<Longrightarrow> refs a > 0"
  shows "\<exists>t. slist_of_buffer b s = (Ok [b], t) \<and> exact (\<lambda>a. refs a + points (sb_storage b) a) t \<and> agree refs s t"
proof -
  let ?p = "points (sb_storage b)"
  from sbuf_copy_exact [OF assms] obtain t1 where
    t1: "sbuf_copy b s = (Ok b, t1)" "exact (\<lambda>a. refs a + ?p a) t1" "sto_text t1 = sto_text s" by blast
  from sbuf_copy_exact [OF t1(2), of b] obtain t2 where
    t2: "sbuf_copy b t1 = (Ok b, t2)" "exact (\<lambda>a. refs a + ?p a + ?p a) t2" "sto_text t2 = sto_text t1" by auto
  from sbuf_copy_exact [OF t2(2), of b] obtain t3 where
    t3: "sbuf_copy b t2 = (Ok b, t3)" "exact (\<lambda>a. refs a + ?p a + ?p a + ?p a) t3" "sto_text t3 = sto_text t2" by auto
  from sbuf_destroy_exact [OF t3(2)] obtain t4 where
    t4: "sbuf_destroy b t3 = (Ok (), t4)" "exact (\<lambda>a. refs a + ?p a + ?p a) t4" "agree (\<lambda>a. refs a + ?p a + ?p a) t3 t4"
    by blast
  from sbuf_destroy_exact [OF t4(2)] obtain t5 where
    t5: "sbuf_destroy b t4 = (Ok (), t5)" "exact (\<lambda>a. refs a + ?p a) t5" "agree (\<lambda>a. refs a + ?p a) t4 t5"
    by blast
  have "agree refs s t5"
    using t1(3) t2(3) t3(3) t4(3) t5(3) by (simp add: agree_def)
  with t1(1) t2(1) t3(1) t4(1) t5(1,2) show ?thesis by (simp add: slist_of_buffer_def prog_simps)
qed

lemma slist_of_string_exact:
  assumes ex: "exact refs s"
  shows "\<exists>bs t. slist_of_string str s = (Ok bs, t) \<and> exact (\<lambda>a. refs a + uses bs a) t \<and> agree refs s t
    \<and> map (abs_buffer t) bs = BufferList_str str"
proof -
  let ?p = "Some (sto_next s)" and ?b = "\<lparr>sb_storage = Some (sto_next s), sb_starting_offset = 0\<rparr>"
  from sptr_make_exact [OF ex, of str] obtain t1 where
    t1: "sptr_make str s = (Ok ?p, t1)" "sto_text t1 (sto_next s) = Some str"
      "exact (\<lambda>a. refs a + points ?p a) t1" "agree refs s t1" by blast
  then have make: "sbuf_make str s = (Ok ?b, t1)" by (simp add: sbuf_make_def prog_simps)
  from slist_of_buffer_exact [OF t1(3), of ?b] obtain t2 where
    t2: "slist_of_buffer ?b t1 = (Ok [?b], t2)" "exact (\<lambda>a. refs a + points ?p a + points ?p a) t2"
      "agree (\<lambda>a. refs a + points ?p a) t1 t2" by auto
  from slist_copy_exact [OF t2(2), of "[?b]"] obtain t3 where
    t3: "slist_append [] [?b] t2 = (Ok [?b], t3)" "sto_text t3 = sto_text t2"
      "exact (\<lambda>a. refs a + points ?p a + points ?p a + points ?p a) t3" by (auto simp: slist_copy_def)
  from slist_destroy_exact [of "\<lambda>a. refs a + points ?p a + points ?p a" "[?b]", OF _] t3(3) obtain t4 where
    t4: "slist_destroy [?b] t3 = (Ok (), t4)" "exact (\<lambda>a. refs a + points ?p a + points ?p a) t4"
      "agree (\<lambda>a. refs a + points ?p a + points ?p a) t3 t4" by fastforce
  from sbuf_destroy_exact [of "\<lambda>a. refs a + points ?p a" ?b t4] t4(2) obtain t5 where
    t5: "sbuf_destroy ?b t4 = (Ok (), t5)" "exact (\<lambda>a. refs a + points ?p a) t5" "agree (\<lambda>a. refs a + points ?p a) t4 t5"
    by auto
  have "agree refs s t5" "sto_text t5 (sto_next s) = Some str"
    using t1(2,4) t2(3) t3(2) t4(3) t5(3) by (simp_all add: agree_def)
  moreover have "slist_of_string str s = (Ok [?b], t5)"
    using make t2(1) t3(1) t4(1) t5(1) by (simp add: slist_of_string_def prog_simps)
  ultimately show ?thesis
    using t5(2) by (auto simp: abs_buffer_def BufferList_str_def BufferList_def Buffer_def)
qed

text \<open>Reading a list.\<close>

lemma slist_read_exact:
  assumes "exact refs s"
  shows "(\<And>a. uses bs a > 0 \<Longrightarrow> refs a > 0) \<Longrightarrow> list_all buffer_ok (map (abs_buffer s) bs) \<Longrightarrow>
    slist_size_loop n bs s = (Ok (buflist_size_loop n (map (abs_buffer s) bs)), s)
    \<and> slist_concat_loop d bs s = (Ok (buflist_concat_loop d (map (abs_buffer s) bs)), s)"
proof (induction bs arbitrary: n d)
  case Nil
  then show ?case by (simp add: prog_simps)
next
  case (Cons b bs)
  have live: "refs a > 0" if "sb_storage b = Some a" for a using Cons.prems(1) [of a] that by simp
  have "buffer_ok (abs_buffer s b)" using Cons.prems(2) by simp
  note read = sbuf_read_exact [OF assms live this]
  have "uses bs a > 0 \<Longrightarrow> refs a > 0" for a using Cons.prems(1) [of a] by simp
  with Cons.IH Cons.prems(2) show ?case by (simp add: read [unfolded buffer_copy_def] prog_simps)
qed

lemma slist_size_exact:
  assumes "exact refs s" and "\<And>a. uses bs a > 0 \<Longrightarrow> refs a > 0" and "list_all buffer_ok (map (abs_buffer s) bs)"
  shows "slist_size bs s = (Ok (buflist_size (map (abs_buffer s) bs)), s)"
    and "slist_concatenate bs s = (Ok (buflist_concatenate (map (abs_buffer s) bs)), s)"
  using slist_read_exact [OF assms] by (simp_all add: slist_size_def slist_concatenate_def buflist_size_def
      buflist_concatenate_def prog_simps)

lemma slist_remove_prefix_exact:
  assumes "exact (\<lambda>a. refs a + uses bs a) s" and "list_all buffer_ok (map (abs_buffer s) bs)"
  shows "\<exists>r t cs. slist_remove_prefix n bs s = (r, t, cs)
    \<and> buflist_remove_prefix n (map (abs_buffer s) bs) = (r, map (abs_buffer t) cs)
    \<and> list_all buffer_ok (map (abs_buffer t) cs) \<and> exact (\<lambda>a. refs a + uses cs a) t \<and> agree refs s t"
  using assms
proof (induction bs arbitrary: n s)
  case Nil
  then show ?case by simp
next
  case (Cons b bs)
  let ?rest = "\<lambda>a. refs a + uses bs a"
  have ex: "exact (\<lambda>a. ?rest a + points (sb_storage b) a) s" using Cons.prems(1) by (simp add: ac_simps)
  have ok: "buffer_ok (abs_buffer s b)" "list_all buffer_ok (map (abs_buffer s) bs)" using Cons.prems(2) by simp_all
  have size: "sbuf_size b s = (Ok (csize (buffer_str (abs_buffer s b))), s)"
    using sbuf_read_exact(2) [OF ex _ ok(1)] by (simp add: buffer_size_def)
  have same: "map (abs_buffer t) bs = map (abs_buffer s) bs" if "agree ?rest s t" for t
    by (rule abs_list_agree [OF that]) simp
  have less: "agree refs s t" if "agree ?rest s t" for t by (rule agree_less [OF that]) simp
  consider "n = 0" | "n > 0" "n < csize (buffer_str (abs_buffer s b))"
    | "n > 0" "\<not> n < csize (buffer_str (abs_buffer s b))"
    using word_neq_0_conv by blast
  then show ?case
  proof cases
    case 1
    with Cons.prems show ?thesis by simp
  next
    case 2
    from sbuf_remove_prefix_exact [OF ex ok(1), of n] obtain r t c where
      t: "sbuf_remove_prefix n (s, b) = (r, t, c)" "buffer_remove_prefix n (abs_buffer s b) = (r, abs_buffer t c)"
        "buffer_ok (abs_buffer t c)" "exact (\<lambda>a. ?rest a + points (sb_storage c) a) t" "agree ?rest s t" by blast
    have "list_all buffer_ok (map (abs_buffer t) bs)" using same [OF t(5)] ok(2) by (simp only:)
    with 2 t size same [OF t(5)] less [OF t(5)] show ?thesis by (auto simp: ac_simps)
  next
    case 3
    from sbuf_destroy_exact [OF ex] obtain t where
      t: "sbuf_destroy b s = (Ok (), t)" "exact ?rest t" "agree ?rest s t" by blast
    have "list_all buffer_ok (map (abs_buffer t) bs)" using same [OF t(3)] ok(2) by (simp only:)
    from Cons.IH [OF t(2) this, of "n - csize (buffer_str (abs_buffer s b))"] same [OF t(3)] obtain r u cs where
      "slist_remove_prefix (n - csize (buffer_str (abs_buffer s b))) bs t = (r, u, cs)"
      "buflist_remove_prefix (n - csize (buffer_str (abs_buffer s b))) (map (abs_buffer s) bs) = (r, map (abs_buffer u) cs)"
      "list_all buffer_ok (map (abs_buffer u) cs)" "exact (\<lambda>a. refs a + uses cs a) u" "agree refs t u" by metis
    moreover have "agree refs s u" using less [OF t(3)] \<open>agree refs t u\<close> by (rule agree_trans)
    ultimately show ?thesis using 3 size t(1) by simp
  qed
qed

section \<open>The views of a list\<close>

lemma view_shows_agree:
  "agree refs s t \<Longrightarrow> (\<And>a. sv_data v = Some a \<Longrightarrow> refs a > 0) \<Longrightarrow> view_shows s v str \<Longrightarrow> view_shows t v str"
  by (cases "sv_data v")
    (auto simp: view_shows_def sv_read_def agree_def sptr_deref_def bindp_def retp_def ubp_def
      split: option.splits if_splits)

lemma sviews_of_loop_shows:
  assumes ex: "exact refs s"
  shows "(\<And>a. uses bs a > 0 \<Longrightarrow> refs a > 0) \<Longrightarrow> list_all buffer_ok (map (abs_buffer s) bs) \<Longrightarrow>
    \<exists>vs. sviews_of_loop views bs s = (Ok (views @ vs), s)
      \<and> list_all2 (view_shows s) vs (map buffer_str (map (abs_buffer s) bs))
      \<and> (\<forall>v \<in> set vs. \<forall>a. sv_data v = Some a \<longrightarrow> uses bs a > 0)"
proof (induction bs arbitrary: views)
  case Nil
  then show ?case by (simp add: prog_simps)
next
  case (Cons b bs)
  have live: "refs a > 0" if "sb_storage b = Some a" for a using Cons.prems(1) [of a] that by simp
  have "buffer_ok (abs_buffer s b)" using Cons.prems(2) by simp
  from sbuf_str_shows [OF ex live this] obtain v where
    v: "sbuf_str b s = (Ok v, s)" "view_shows s v (buffer_str (abs_buffer s b))" "sv_data v = sb_storage b" by blast
  have "uses bs a > 0 \<Longrightarrow> refs a > 0" for a using Cons.prems(1) [of a] by simp
  with Cons.IH [of "views @ [v]"] Cons.prems(2) obtain vs where
    "sviews_of_loop (views @ [v]) bs s = (Ok ((views @ [v]) @ vs), s)"
    "list_all2 (view_shows s) vs (map buffer_str (map (abs_buffer s) bs))"
    "\<forall>v \<in> set vs. \<forall>a. sv_data v = Some a \<longrightarrow> uses bs a > 0" by auto
  with v show ?case by (intro exI [of _ "v # vs"]) (auto simp: prog_simps)
qed

lemma sviews_read_shows: "list_all2 (view_shows s) vs strs \<Longrightarrow> sviews_read vs s = (Ok (concat strs), s)"
  by (induction vs strs rule: list_all2_induct) (simp_all add: prog_simps view_shows_def)

lemma sviews_remove_prefix_shows:
  "list_all2 (view_shows s) vs strs \<Longrightarrow> viewlist_remove_prefix n strs = (r, strs') \<Longrightarrow>
    \<exists>vs'. sviews_remove_prefix n vs = (r, vs') \<and> list_all2 (view_shows s) vs' strs'
      \<and> sv_data ` set vs' \<subseteq> sv_data ` set vs"
proof (induction vs strs arbitrary: n rule: list_all2_induct)
  case Nil
  then show ?case by (auto split: if_splits)
next
  case (Cons v vs str strs)
  from Cons.hyps have size: "sv_size v = csize str" "unat (csize str) = length str" by (simp_all add: view_shows_size)
  consider "n = 0" | "n > 0" "n < csize str" | "n > 0" "\<not> n < csize str" using word_neq_0_conv by blast
  then show ?case
  proof cases
    case 2
    then have "unat n \<le> length str" using size(2) by (simp add: word_less_nat_alt)
    from view_shows_remove_prefix [OF Cons.hyps(1) this] 2 Cons size(1) show ?thesis
      by (auto simp: sv_remove_prefix_def)
  next
    case 3
    with Cons.prems have "viewlist_remove_prefix (n - csize str) strs = (r, strs')" by simp
    from Cons.IH [OF this] 3 size(1) show ?thesis by fastforce
  qed (use Cons in auto)
qed

end
