(* ===== verification/Buffer_Programs.thy ===== *)
theory Buffer_Programs
  imports Shared_Buffers
begin

text \<open>
  Programs with several \<open>BufferList\<close> variables over the members of \<open>libsponge/util/buffer.hh\<close>, run
  twice: on shared strings, with every copy and destruction (\<open>shared_run\<close>), and on the values of
  \<open>Buffers\<close> (\<open>value_run\<close>). An exception of a command is caught and part of its reply, and the program
  goes on with what the exception left behind.

  The lemmas: each command keeps the two runs tied together (\<open>tied\<close>) and leaves alone the strings
  that the other variables use.
\<close>

section \<open>The commands\<close>

datatype list_cmd =
    From_string nat bytes
  | Assign nat nat
  | Append_list nat nat
  | Remove_front nat size_t
  | To_buffer nat nat
  | Clear nat
  | Get_size nat
  | Concatenate nat
  | Read_views nat size_t

datatype list_reply = Done | Thrown exn | Size_is size_t | Bytes_are bytes

text \<open>The variable that a command changes.\<close>

fun target :: "list_cmd \<Rightarrow> nat option" where
  "target (From_string i _) = Some i"
| "target (Assign i _) = Some i"
| "target (Append_list i _) = Some i"
| "target (Remove_front i _) = Some i"
| "target (To_buffer i _) = Some i"
| "target (Clear i) = Some i"
| "target _ = None"

text \<open>
  The variables exist, a list is not appended to itself (that is undefined behaviour, see
  \<open>buflist_append_self\<close>), and strings have a length that \<open>size()\<close> can return.
\<close>

fun legal_list_cmd :: "nat \<Rightarrow> list_cmd \<Rightarrow> bool" where
  "legal_list_cmd k (From_string i str) \<longleftrightarrow> i < k \<and> length str < size_limit"
| "legal_list_cmd k (Assign i j) \<longleftrightarrow> i < k \<and> j < k"
| "legal_list_cmd k (Append_list i j) \<longleftrightarrow> i < k \<and> j < k \<and> i \<noteq> j"
| "legal_list_cmd k (Remove_front i _) \<longleftrightarrow> i < k"
| "legal_list_cmd k (To_buffer i j) \<longleftrightarrow> i < k \<and> j < k"
| "legal_list_cmd k (Clear i) \<longleftrightarrow> i < k"
| "legal_list_cmd k (Get_size i) \<longleftrightarrow> i < k"
| "legal_list_cmd k (Concatenate i) \<longleftrightarrow> i < k"
| "legal_list_cmd k (Read_views i _) \<longleftrightarrow> i < k"

section \<open>On shared strings\<close>

type_synonym shared_state = "store \<times> shared_list list"

definition get_list :: "nat \<Rightarrow> (shared_state, shared_list) prog" where
  "get_list i = getp (\<lambda>(_, ls). ls ! i)"

text \<open>A variable takes a new value, whose buffers are its own; the destructor of the old one runs.\<close>

definition put_list :: "nat \<Rightarrow> shared_list \<Rightarrow> (shared_state, unit) prog" where
  "put_list i new = bindp (get_list i) (\<lambda>old. thenp (on_store (slist_destroy old))
     (modifyp (\<lambda>(s, ls). (s, ls[i := new]))))"

fun shared_exec :: "list_cmd \<Rightarrow> (shared_state, list_reply) prog" where
  "shared_exec (From_string i str) =
     bindp (on_store (slist_of_string str)) (\<lambda>new. thenp (put_list i new) (retp Done))"
| "shared_exec (Assign i j) = bindp (get_list j) (\<lambda>other. bindp (on_store (slist_copy other)) (\<lambda>new.
     thenp (put_list i new) (retp Done)))"
| "shared_exec (Append_list i j) = bindp (get_list i) (\<lambda>this. bindp (get_list j) (\<lambda>other.
     bindp (on_store (slist_append this other)) (\<lambda>new.
     thenp (modifyp (\<lambda>(s, ls). (s, ls[i := new]))) (retp Done))))"
| "shared_exec (Remove_front i n) = (\<lambda>(s, ls). case slist_remove_prefix n (ls ! i) s of (r, s, this) \<Rightarrow>
     ((case r of Ok _ \<Rightarrow> Ok Done | Throw e \<Rightarrow> Throw e | UB \<Rightarrow> UB), (s, ls[i := this])))"
| "shared_exec (To_buffer i j) = bindp (get_list j) (\<lambda>other. bindp (on_store (slist_to_buffer other)) (\<lambda>buf.
     bindp (on_store (slist_of_buffer buf)) (\<lambda>new. thenp (on_store (sbuf_destroy buf))
     (thenp (put_list i new) (retp Done)))))"
| "shared_exec (Clear i) = thenp (put_list i []) (retp Done)"
| "shared_exec (Get_size i) = bindp (get_list i) (\<lambda>this. bindp (on_store (slist_size this)) (\<lambda>n. retp (Size_is n)))"
| "shared_exec (Concatenate i) =
     bindp (get_list i) (\<lambda>this. bindp (on_store (slist_concatenate this)) (\<lambda>str. retp (Bytes_are str)))"
| "shared_exec (Read_views i n) = bindp (get_list i) (\<lambda>this. bindp (on_store (sviews_of this)) (\<lambda>views.
     bindp (localp views (sviews_remove_prefix n)) (\<lambda>views. bindp (on_store (sviews_read views)) (\<lambda>str.
     retp (Bytes_are str)))))"

fun shared_run :: "list_cmd list \<Rightarrow> (shared_state, list_reply list) prog" where
  "shared_run [] = retp []"
| "shared_run (c # cs) = bindp (catchp (shared_exec c) (\<lambda>e. retp (Thrown e))) (\<lambda>reply.
     bindp (shared_run cs) (\<lambda>replies. retp (reply # replies)))"

section \<open>On values\<close>

type_synonym value_state = "buffer_list list"

fun value_exec :: "list_cmd \<Rightarrow> (value_state, list_reply) prog" where
  "value_exec (From_string i str) = (\<lambda>vs. (Ok Done, vs[i := BufferList_str str]))"
| "value_exec (Assign i j) = (\<lambda>vs. (Ok Done, vs[i := vs ! j]))"
| "value_exec (Append_list i j) = (\<lambda>vs. (Ok Done, vs[i := buflist_append (vs ! i) (vs ! j)]))"
| "value_exec (Remove_front i n) = (\<lambda>vs. case buflist_remove_prefix n (vs ! i) of (r, v) \<Rightarrow>
     ((case r of Ok _ \<Rightarrow> Ok Done | Throw e \<Rightarrow> Throw e | UB \<Rightarrow> UB), vs[i := v]))"
| "value_exec (To_buffer i j) = (\<lambda>vs. case buflist_to_buffer (vs ! j) of
     Ok b \<Rightarrow> (Ok Done, vs[i := BufferList b]) | Throw e \<Rightarrow> (Throw e, vs) | UB \<Rightarrow> (UB, vs))"
| "value_exec (Clear i) = (\<lambda>vs. (Ok Done, vs[i := BufferList_default]))"
| "value_exec (Get_size i) = (\<lambda>vs. (Ok (Size_is (buflist_size (vs ! i))), vs))"
| "value_exec (Concatenate i) = (\<lambda>vs. (Ok (Bytes_are (buflist_concatenate (vs ! i))), vs))"
| "value_exec (Read_views i n) = (\<lambda>vs. case viewlist_remove_prefix n (BufferViewList (vs ! i)) of (r, views) \<Rightarrow>
     ((case r of Ok _ \<Rightarrow> Ok (Bytes_are (concat (map iov_base (viewlist_as_iovecs views))))
       | Throw e \<Rightarrow> Throw e | UB \<Rightarrow> UB), vs))"

fun value_run :: "list_cmd list \<Rightarrow> (value_state, list_reply list) prog" where
  "value_run [] = retp []"
| "value_run (c # cs) = bindp (catchp (value_exec c) (\<lambda>e. retp (Thrown e))) (\<lambda>reply.
     bindp (value_run cs) (\<lambda>replies. retp (reply # replies)))"

section \<open>The two runs, tied together\<close>

definition all_uses :: "shared_list list \<Rightarrow> addr \<Rightarrow> nat" where
  "all_uses ls a = sum_list (map (\<lambda>bs. uses bs a) ls)"

definition tied :: "shared_state \<Rightarrow> value_state \<Rightarrow> bool" where
  "tied = (\<lambda>(s, ls) vs. exact (all_uses ls) s \<and> map (map (abs_buffer s)) ls = vs
     \<and> list_all (list_all buffer_ok) vs)"

text \<open>The uses by the other variables.\<close>

abbreviation other_uses :: "nat \<Rightarrow> shared_list list \<Rightarrow> addr \<Rightarrow> nat" where
  "other_uses i ls \<equiv> all_uses (ls[i := []])"

lemma all_uses_simps [simp]: "all_uses [] a = 0" "all_uses (bs # ls) a = uses bs a + all_uses ls a"
  by (simp_all add: all_uses_def)

lemma all_uses_update: "i < length ls \<Longrightarrow> all_uses (ls[i := bs]) a = other_uses i ls a + uses bs a"
proof (induction ls arbitrary: i)
  case (Cons x ls)
  then show ?case by (cases i) simp_all
qed simp

lemma list_all_update: "list_all P xs \<Longrightarrow> P x \<Longrightarrow> list_all P (xs[i := x])"
  unfolding list_all_iff using set_update_subset_insert [of xs i x] by blast

lemma all_uses_split: "i < length ls \<Longrightarrow> all_uses ls a = other_uses i ls a + uses (ls ! i) a"
  using all_uses_update [of i ls "ls ! i" a] by (simp only: list_update_id)

lemma uses_le_all: "i < length ls \<Longrightarrow> uses (ls ! i) a \<le> all_uses ls a"
  using all_uses_split [of i ls a] by linarith

lemma uses_le_others: "i < length ls \<Longrightarrow> j < length ls \<Longrightarrow> i \<noteq> j \<Longrightarrow> uses (ls ! j) a \<le> other_uses i ls a"
  using uses_le_all [of j "ls[i := []]" a] by simp

lemma tied_list:
  assumes "tied (s, ls) vs" "i < length ls"
  shows "exact (all_uses ls) s" "map (abs_buffer s) (ls ! i) = vs ! i" "list_all buffer_ok (vs ! i)"
    "i < length vs" "uses (ls ! i) a > 0 \<Longrightarrow> all_uses ls a > 0"
    "exact (\<lambda>a. other_uses i ls a + uses (ls ! i) a) s"
proof -
  from assms show "exact (all_uses ls) s" "map (abs_buffer s) (ls ! i) = vs ! i" "i < length vs"
    by (auto simp: tied_def)
  with assms show "list_all buffer_ok (vs ! i)" by (simp add: tied_def list_all_length)
  show "uses (ls ! i) a > 0 \<Longrightarrow> all_uses ls a > 0" using uses_le_all [OF assms(2), of a] by simp
  have "all_uses ls = (\<lambda>a. other_uses i ls a + uses (ls ! i) a)"
    using assms(2) by (rule ext [OF all_uses_split])
  with \<open>exact (all_uses ls) s\<close> show "exact (\<lambda>a. other_uses i ls a + uses (ls ! i) a) s" by metis
qed

text \<open>One command: at most the variable \<open>i\<close> changed, and no string of another variable.\<close>

definition stepped :: "nat option \<Rightarrow> shared_state \<Rightarrow> shared_state \<Rightarrow> bool" where
  "stepped i = (\<lambda>(s, ls) (t, ls'). length ls' = length ls
     \<and> (\<forall>j < length ls. i \<noteq> Some j \<longrightarrow> ls' ! j = ls ! j \<and> agree (uses (ls ! j)) s t))"

lemma stepped_refl [simp]: "stepped i x x"
  by (simp add: stepped_def split: prod.splits)

lemma tied_update:
  assumes tied: "tied (s, ls) vs" and i: "i < length ls"
    and t: "exact (\<lambda>a. other_uses i ls a + uses new a) t" "agree (other_uses i ls) s t"
    and v: "map (abs_buffer t) new = v" "list_all buffer_ok v"
  shows "tied (t, ls[i := new]) (vs[i := v]) \<and> stepped (Some i) (s, ls) (t, ls[i := new])"
proof -
  have agree: "agree (uses (ls ! j)) s t" if "j < length ls" "j \<noteq> i" for j
    by (rule agree_less [OF t(2)]) (metis i that uses_le_others gr0I le_zero_eq)
  have len: "length vs = length ls" using tied by (auto simp: tied_def)
  have "map (map (abs_buffer t)) (ls[i := new]) = vs[i := v]"
  proof (rule nth_equalityI)
    fix j
    assume "j < length (map (map (abs_buffer t)) (ls[i := new]))"
    then have j: "j < length ls" by simp
    show "map (map (abs_buffer t)) (ls[i := new]) ! j = vs[i := v] ! j"
    proof (cases "j = i")
      case False
      have "map (abs_buffer t) (ls ! j) = map (abs_buffer s) (ls ! j)"
        by (rule abs_list_agree [OF agree [OF j False]])
      with tied_list(2) [OF tied j] j False show ?thesis by simp
    qed (use j v(1) len in simp)
  qed (simp add: len)
  moreover have "list_all (list_all buffer_ok) (vs[i := v])"
    using tied v(2) by (auto simp: tied_def intro: list_all_update)
  moreover have "all_uses (ls[i := new]) = (\<lambda>a. other_uses i ls a + uses new a)"
    using i by (rule ext [OF all_uses_update])
  ultimately show ?thesis using t(1) agree by (simp add: tied_def stepped_def)
qed

section \<open>Every command\<close>

text \<open>
  \<open>implements c (s, ls) vs\<close>: the command ends in the same way on both sides, without undefined
  behaviour, and leaves them tied.
\<close>

definition implements :: "list_cmd \<Rightarrow> shared_state \<Rightarrow> value_state \<Rightarrow> bool" where
  "implements c x vs \<longleftrightarrow> (\<exists>r y vs'. shared_exec c x = (r, y) \<and> value_exec c vs = (r, vs') \<and> r \<noteq> UB
     \<and> tied y vs' \<and> stepped (target c) x y)"

lemma implementsI:
  "shared_exec c x = (r, y) \<Longrightarrow> value_exec c vs = (r, vs') \<Longrightarrow> r \<noteq> UB \<Longrightarrow> tied y vs' \<and> stepped (target c) x y \<Longrightarrow>
    implements c x vs"
  by (auto simp: implements_def)

lemma get_list_apply: "get_list i (s, ls) = (Ok (ls ! i), (s, ls))"
  by (simp add: get_list_def prog_simps)

lemma agree_abs: "sto_text t = sto_text s \<Longrightarrow> agree refs s t"
  by (simp add: agree_def)

lemma put_list_tied:
  assumes tied: "tied (s, ls) vs" and i: "i < length ls"
    and t: "exact (\<lambda>a. all_uses ls a + uses new a) t" "agree (all_uses ls) s t"
    and ok: "map (abs_buffer t) new = v" "list_all buffer_ok v"
  shows "\<exists>u. put_list i new (t, ls) = (Ok (), (u, ls[i := new]))
    \<and> tied (u, ls[i := new]) (vs[i := v]) \<and> stepped (Some i) (s, ls) (u, ls[i := new])"
proof -
  let ?rest = "\<lambda>a. other_uses i ls a + uses new a"
  have "(\<lambda>a. all_uses ls a + uses new a) = (\<lambda>a. ?rest a + uses (ls ! i) a)"
    using all_uses_split [OF i] by (simp add: fun_eq_iff)
  then have "exact (\<lambda>a. ?rest a + uses (ls ! i) a) t" using t(1) by metis
  from slist_destroy_exact [OF this] obtain u where
    u: "slist_destroy (ls ! i) t = (Ok (), u)" "exact ?rest u" "agree ?rest t u" by blast
  have new: "map (abs_buffer u) new = v"
    using abs_list_agree [OF u(3), of new] ok(1) by simp
  have "agree (other_uses i ls) s u"
  proof (rule agree_trans)
    show "agree (other_uses i ls) s t" by (rule agree_less [OF t(2)]) (use all_uses_split [OF i] in simp)
    show "agree (other_uses i ls) t u" by (rule agree_less [OF u(3)]) simp
  qed
  from tied_update [OF tied i u(2) this new ok(2)] u(1) show ?thesis
    by (auto simp: put_list_def get_list_apply on_store_apply [where m = "slist_destroy (ls ! i)"] prog_simps)
qed

lemma implements_From_string:
  assumes "tied (s, ls) vs" "legal_list_cmd (length ls) (From_string i str)"
  shows "implements (From_string i str) (s, ls) vs"
proof -
  from assms(2) have i: "i < length ls" and len: "length str < size_limit" by simp_all
  from slist_of_string_exact [OF tied_list(1) [OF assms(1) i], of str] obtain new t where
    t: "slist_of_string str s = (Ok new, t)" "exact (\<lambda>a. all_uses ls a + uses new a) t" "agree (all_uses ls) s t"
      "map (abs_buffer t) new = BufferList_str str" by blast
  have "list_all buffer_ok (BufferList_str str)" using len by (simp add: BufferList_str_def BufferList_def)
  from put_list_tied [OF assms(1) i t(2,3,4) this] t(1) show ?thesis
    by (auto intro!: implementsI simp: on_store_apply [where m = "slist_of_string str"] prog_simps)
qed

lemma implements_Assign:
  assumes "tied (s, ls) vs" "legal_list_cmd (length ls) (Assign i j)"
  shows "implements (Assign i j) (s, ls) vs"
proof -
  from assms(2) have i: "i < length ls" "j < length ls" by simp_all
  note j = tied_list [OF assms(1) i(2)]
  from slist_copy_exact [OF j(1,5)] obtain t where
    t: "slist_copy (ls ! j) s = (Ok (ls ! j), t)" "exact (\<lambda>a. all_uses ls a + uses (ls ! j) a) t"
      "sto_text t = sto_text s" by blast
  have "map (abs_buffer t) (ls ! j) = vs ! j" using j(2) abs_text [OF t(3)] by simp
  from put_list_tied [OF assms(1) i(1) t(2) agree_abs [OF t(3)] this j(3)] t(1) show ?thesis
    by (auto intro!: implementsI simp: get_list_apply on_store_apply [where m = "slist_copy (ls ! j)"] prog_simps)
qed

lemma implements_Append_list:
  assumes "tied (s, ls) vs" "legal_list_cmd (length ls) (Append_list i j)"
  shows "implements (Append_list i j) (s, ls) vs"
proof -
  from assms(2) have i: "i < length ls" "j < length ls" "i \<noteq> j" by simp_all
  note mine = tied_list [OF assms(1) i(1)] and other = tied_list [OF assms(1) i(2)]
  have "uses (ls ! j) a > 0 \<Longrightarrow> other_uses i ls a + uses (ls ! i) a > 0" for a
    using uses_le_others [OF i, of a] by simp
  from slist_append_exact [OF mine(6) this] obtain t where
    t: "slist_append (ls ! i) (ls ! j) s = (Ok (ls ! i @ ls ! j), t)"
      "exact (\<lambda>a. other_uses i ls a + uses (ls ! i @ ls ! j) a) t" "sto_text t = sto_text s" by blast
  have "map (abs_buffer t) (ls ! i @ ls ! j) = vs ! i @ vs ! j"
    using mine(2) other(2) abs_text [OF t(3)] by simp
  moreover have "list_all buffer_ok (vs ! i @ vs ! j)" using mine(3) other(3) by simp
  ultimately show ?thesis
    using tied_update [OF assms(1) i(1) t(2) agree_abs [OF t(3)]] t(1)
    by (auto intro!: implementsI simp: get_list_apply on_store_apply [where m = "slist_append (ls ! i) (ls ! j)"] prog_simps)
qed

lemma implements_Remove_front:
  assumes "tied (s, ls) vs" "legal_list_cmd (length ls) (Remove_front i n)"
  shows "implements (Remove_front i n) (s, ls) vs"
proof -
  from assms(2) have i: "i < length ls" by simp
  note mine = tied_list [OF assms(1) i]
  have "list_all buffer_ok (map (abs_buffer s) (ls ! i))" using mine(2,3) by simp
  from slist_remove_prefix_exact [OF mine(6) this, of n] mine(2) obtain r t cs where
    t: "slist_remove_prefix n (ls ! i) s = (r, t, cs)" "buflist_remove_prefix n (vs ! i) = (r, map (abs_buffer t) cs)"
      "list_all buffer_ok (map (abs_buffer t) cs)" "exact (\<lambda>a. other_uses i ls a + uses cs a) t"
      "agree (other_uses i ls) s t" by auto
  from buflist_remove_prefix_views [OF mine(3), of n] t(2) have "r \<noteq> UB" by auto
  with tied_update [OF assms(1) i t(4,5) refl t(3)] t(1,2) show ?thesis
    by (auto intro!: implementsI split: outcome.splits)
qed

lemma implements_Clear:
  assumes "tied (s, ls) vs" "legal_list_cmd (length ls) (Clear i)"
  shows "implements (Clear i) (s, ls) vs"
proof -
  from assms(2) have i: "i < length ls" by simp
  from put_list_tied [OF assms(1) i, of "[]" s] tied_list(1) [OF assms(1) i] show ?thesis
    by (auto intro!: implementsI simp: BufferList_default_def prog_simps)
qed

lemma slist_to_buffer_exact:
  assumes ex: "exact refs s" and live: "\<forall>a. uses bs a > 0 \<longrightarrow> refs a > 0"
    and ok: "list_all buffer_ok (map (abs_buffer s) bs)"
  shows "(\<exists>b t. slist_to_buffer bs s = (Ok b, t) \<and> buflist_to_buffer (map (abs_buffer s) bs) = Ok (abs_buffer t b)
        \<and> exact (\<lambda>a. refs a + points (sb_storage b) a) t \<and> sto_text t = sto_text s \<and> buffer_ok (abs_buffer t b))
      \<or> (\<exists>e. slist_to_buffer bs s = (Throw e, s) \<and> buflist_to_buffer (map (abs_buffer s) bs) = Throw e)"
proof -
  consider "bs = []" | b where "bs = [b]" | b c cs where "bs = b # c # cs" by (metis neq_Nil_conv)
  then show ?thesis
  proof cases
    case 1
    with ex show ?thesis
      by (simp add: slist_to_buffer_def buflist_to_buffer_def sbuf_default_def Buffer_default_def abs_buffer_def
          buffer_ok_def prog_simps)
  next
    case 2
    have "refs a > 0" if "sb_storage b = Some a" for a using live [rule_format, of a] that 2 by simp
    from sbuf_copy_exact [OF ex this] obtain t where
      "sbuf_copy b s = (Ok b, t)" "exact (\<lambda>a. refs a + points (sb_storage b) a) t" "sto_text t = sto_text s" by blast
    moreover from this(3) have "abs_buffer t = abs_buffer s" by (rule abs_text)
    ultimately show ?thesis using 2 ok by (auto simp: slist_to_buffer_def buflist_to_buffer_def)
  qed (simp add: slist_to_buffer_def buflist_to_buffer_def prog_simps)
qed

lemma implements_To_buffer:
  assumes "tied (s, ls) vs" "legal_list_cmd (length ls) (To_buffer i j)"
  shows "implements (To_buffer i j) (s, ls) vs"
proof -
  from assms(2) have i: "i < length ls" "j < length ls" by simp_all
  note other = tied_list [OF assms(1) i(2)]
  have ok: "list_all buffer_ok (map (abs_buffer s) (ls ! j))" using other(2,3) by simp
  have "\<forall>a. uses (ls ! j) a > 0 \<longrightarrow> all_uses ls a > 0" using other(5) by blast
  from slist_to_buffer_exact [OF other(1) this ok] show ?thesis
  proof (elim disjE exE conjE)
    fix b t
    assume t: "slist_to_buffer (ls ! j) s = (Ok b, t)" "buflist_to_buffer (map (abs_buffer s) (ls ! j)) = Ok (abs_buffer t b)"
      "exact (\<lambda>a. all_uses ls a + points (sb_storage b) a) t" "sto_text t = sto_text s" "buffer_ok (abs_buffer t b)"
    from slist_of_buffer_exact [OF t(3), of b] obtain u where
      u: "slist_of_buffer b t = (Ok [b], u)"
        "exact (\<lambda>a. all_uses ls a + points (sb_storage b) a + points (sb_storage b) a) u"
        "agree (\<lambda>a. all_uses ls a + points (sb_storage b) a) t u" by auto
    from sbuf_destroy_exact [OF u(2)] obtain w where
      w: "sbuf_destroy b u = (Ok (), w)" "exact (\<lambda>a. all_uses ls a + points (sb_storage b) a) w"
        "agree (\<lambda>a. all_uses ls a + points (sb_storage b) a) u w" by blast
    have new: "exact (\<lambda>a. all_uses ls a + uses [b] a) w" using w(2) by simp
    have agree: "agree (all_uses ls) s w" using t(4) u(3) w(3) by (simp add: agree_def)
    have "abs_buffer w b = abs_buffer t b"
      by (rule abs_buffer_agree [OF agree_trans [OF u(3) w(3)]]) simp
    then have abs: "map (abs_buffer w) [b] = BufferList (abs_buffer t b)" by (simp add: BufferList_def)
    have "list_all buffer_ok (BufferList (abs_buffer t b))" using t(5) by (simp add: BufferList_def)
    from put_list_tied [OF assms(1) i(1) new agree abs this] t(1,2) u(1) w(1) other(2) show ?thesis
      by (auto intro!: implementsI simp: get_list_apply on_store_apply [where m = "slist_to_buffer (ls ! j)"]
          on_store_apply [where m = "slist_of_buffer b"] on_store_apply [where m = "sbuf_destroy b"] prog_simps)
  next
    fix e
    assume "slist_to_buffer (ls ! j) s = (Throw e, s)" "buflist_to_buffer (map (abs_buffer s) (ls ! j)) = Throw e"
    with assms(1) other(2) show ?thesis
      by (auto intro!: implementsI simp: get_list_apply on_store_apply [where m = "slist_to_buffer (ls ! j)"] prog_simps)
  qed
qed

lemma implements_readers:
  assumes "tied (s, ls) vs" "i < length ls"
  shows "implements (Get_size i) (s, ls) vs" "implements (Concatenate i) (s, ls) vs"
proof -
  note mine = tied_list [OF assms]
  have "list_all buffer_ok (map (abs_buffer s) (ls ! i))" using mine(2,3) by simp
  note read = slist_size_exact [OF mine(1,5) this]
  from read(1) mine(2) assms(1) show "implements (Get_size i) (s, ls) vs"
    by (auto intro!: implementsI simp: get_list_apply on_store_apply [where m = "slist_size (ls ! i)"] prog_simps)
  from read(2) mine(2) assms(1) show "implements (Concatenate i) (s, ls) vs"
    by (auto intro!: implementsI simp: get_list_apply on_store_apply [where m = "slist_concatenate (ls ! i)"] prog_simps)
qed

text \<open>The views of a variable, cut by \<open>remove_prefix\<close> or not.\<close>

lemma sviews_of_tied:
  assumes "tied (s, ls) vs" "i < length ls"
  shows "\<exists>views. sviews_of (ls ! i) s = (Ok views, s) \<and> list_all2 (view_shows s) views (BufferViewList (vs ! i))
    \<and> (\<forall>v \<in> set views. \<forall>a. sv_data v = Some a \<longrightarrow> uses (ls ! i) a > 0)"
proof -
  note mine = tied_list [OF assms]
  have "list_all buffer_ok (map (abs_buffer s) (ls ! i))" using mine(2,3) by simp
  from sviews_of_loop_shows [OF mine(1,5) this, of "[]"] mine(2) show ?thesis
    by (auto simp: sviews_of_def BufferViewList_eq)
qed

lemma viewlist_remove_prefix_never_UB: "fst (viewlist_remove_prefix n strs) \<noteq> UB"
  by (induction n strs rule: viewlist_remove_prefix.induct) auto

lemma implements_Read_views:
  assumes "tied (s, ls) vs" "legal_list_cmd (length ls) (Read_views i n)"
  shows "implements (Read_views i n) (s, ls) vs"
proof -
  from assms(2) have i: "i < length ls" by simp
  from sviews_of_tied [OF assms(1) i] obtain views where
    v: "sviews_of (ls ! i) s = (Ok views, s)" "list_all2 (view_shows s) views (BufferViewList (vs ! i))" by blast
  obtain r strs where cut: "viewlist_remove_prefix n (BufferViewList (vs ! i)) = (r, strs)" by fastforce
  from sviews_remove_prefix_shows [OF v(2) cut] obtain views' where
    views': "sviews_remove_prefix n views = (r, views')" "list_all2 (view_shows s) views' strs" by blast
  have "r \<noteq> UB" using viewlist_remove_prefix_never_UB [of n "BufferViewList (vs ! i)"] cut by simp
  then consider "r = Ok ()" | e where "r = Throw e" by (cases r) auto
  then show ?thesis
    using assms(1) v(1) cut views' sviews_read_shows [OF views'(2)]
    by cases (auto intro!: implementsI simp: get_list_apply on_store_apply [where m = "sviews_of (ls ! i)"]
        on_store_apply [where m = "sviews_read views'"] localp_def viewlist_as_iovecs_eq comp_def prog_simps)
qed

lemma every_cmd_implemented:
  assumes "tied (s, ls) vs" "legal_list_cmd (length ls) c"
  shows "implements c (s, ls) vs"
proof (cases c)
  case (Get_size i)
  with assms show ?thesis using implements_readers(1) [OF assms(1), of i] by simp
next
  case (Concatenate i)
  with assms show ?thesis using implements_readers(2) [OF assms(1), of i] by simp
qed (use assms in \<open>auto simp del: legal_list_cmd.simps intro: implements_From_string implements_Assign
      implements_Append_list implements_Remove_front implements_To_buffer implements_Clear implements_Read_views\<close>)

section \<open>Every program\<close>

lemma run_tied:
  "tied (s, ls) vs \<Longrightarrow> list_all (legal_list_cmd (length ls)) cs \<Longrightarrow>
    \<exists>replies t ls' vs'. shared_run cs (s, ls) = (Ok replies, (t, ls')) \<and> value_run cs vs = (Ok replies, vs')
      \<and> tied (t, ls') vs' \<and> length ls' = length ls
      \<and> (\<forall>i < length ls. (\<forall>c \<in> set cs. target c \<noteq> Some i) \<longrightarrow> ls' ! i = ls ! i \<and> agree (uses (ls ! i)) s t)"
proof (induction cs arbitrary: s ls vs)
  case Nil
  then show ?case by (simp add: prog_simps)
next
  case (Cons c cs)
  from every_cmd_implemented [OF Cons.prems(1), of c] Cons.prems(2) obtain r t ls1 vs1 where
    step: "shared_exec c (s, ls) = (r, (t, ls1))" "value_exec c vs = (r, vs1)" "r \<noteq> UB" "tied (t, ls1) vs1"
      "stepped (target c) (s, ls) (t, ls1)"
    by (auto simp: implements_def)
  define reply where "reply = (case r of Ok x \<Rightarrow> x | Throw e \<Rightarrow> Thrown e | UB \<Rightarrow> Done)"
  have head: "catchp (shared_exec c) (\<lambda>e. retp (Thrown e)) (s, ls) = (Ok reply, (t, ls1))"
    "catchp (value_exec c) (\<lambda>e. retp (Thrown e)) vs = (Ok reply, vs1)"
    using step(1-3) by (cases r; simp add: reply_def prog_simps)+
  from step(5) have len: "length ls1 = length ls"
    and same: "\<And>i. i < length ls \<Longrightarrow> target c \<noteq> Some i \<Longrightarrow> ls1 ! i = ls ! i \<and> agree (uses (ls ! i)) s t"
    by (simp_all add: stepped_def)
  from Cons.IH [OF step(4)] Cons.prems(2) len obtain replies u ls2 vs2 where
    rest: "shared_run cs (t, ls1) = (Ok replies, (u, ls2))" "value_run cs vs1 = (Ok replies, vs2)" "tied (u, ls2) vs2"
      "length ls2 = length ls"
      "\<forall>i < length ls. (\<forall>c \<in> set cs. target c \<noteq> Some i) \<longrightarrow> ls2 ! i = ls1 ! i \<and> agree (uses (ls1 ! i)) t u"
    by auto
  have "ls2 ! i = ls ! i \<and> agree (uses (ls ! i)) s u"
    if "i < length ls" "\<forall>c' \<in> set (c # cs). target c' \<noteq> Some i" for i
  proof -
    from same [of i] that have first: "ls1 ! i = ls ! i" "agree (uses (ls ! i)) s t" by simp_all
    from rest(5) that have "ls2 ! i = ls1 ! i \<and> agree (uses (ls1 ! i)) t u" by simp
    with first show ?thesis using agree_trans [of _ s t u] by metis
  qed
  with head rest(1-4) show ?case by (simp add: prog_simps)
qed

lemma tied_start: "tied (empty_store, replicate k []) (replicate k BufferList_default)"
proof -
  have "all_uses (replicate k []) = (\<lambda>_. 0)" by (induction k) (simp_all add: fun_eq_iff)
  then show ?thesis using exact_empty by (simp add: tied_def BufferList_default_def list_all_length)
qed

lemma all_uses_pos: "all_uses ls a > 0 \<longleftrightarrow> (\<exists>bs \<in> set ls. \<exists>b \<in> set bs. sb_storage b = Some a)"
proof -
  have "uses bs a > 0 \<longleftrightarrow> (\<exists>b \<in> set bs. sb_storage b = Some a)" for bs
    by (induction bs) (auto simp: points_def)
  then show ?thesis by (induction ls) auto
qed

text \<open>A view does not keep its string: with the only list that holds it gone, the view dangles.\<close>

lemma dangling_view:
  "fst (shared_run [From_string 0 [97, 98]] (empty_store, [[]])) = Ok [Done]"
  "case shared_run [From_string 0 [97, 98]] (empty_store, [[]]) of (_, (s, ls)) \<Rightarrow>
     (case sviews_of (ls ! 0) s of (Ok views, _) \<Rightarrow>
        fst (sviews_read views s) = Ok [97, 98]
        \<and> fst (sviews_read views (fst (snd (shared_run [Clear 0] (s, ls))))) = UB
      | _ \<Rightarrow> False)"
  by code_simp+

section \<open>Properties\<close>

text \<open>
  C9. Sharing is not observable, and memory is exact: every program over \<open>BufferList\<close> variables, run
  on shared strings with all its copies and destructions, has no undefined behaviour, gets the same
  replies, exceptions included, as on values that share nothing, and ends with lists that stand for
  those values; a string is still allocated exactly if a buffer of some variable refers to it, so
  nothing is freed early and nothing leaks.
\<close>

theorem shared_buffers_refine_values:
  assumes "list_all (legal_list_cmd k) cs"
  shows "\<exists>replies s ls. shared_run cs (empty_store, replicate k []) = (Ok replies, (s, ls))
    \<and> value_run cs (replicate k BufferList_default) = (Ok replies, map (map (abs_buffer s)) ls)
    \<and> (\<forall>a. sto_text s a \<noteq> None \<longleftrightarrow> (\<exists>bs \<in> set ls. \<exists>b \<in> set bs. sb_storage b = Some a))"
proof -
  from run_tied [OF tied_start] assms obtain replies s ls vs where
    run: "shared_run cs (empty_store, replicate k []) = (Ok replies, (s, ls))"
      "value_run cs (replicate k BufferList_default) = (Ok replies, vs)" and tied: "tied (s, ls) vs"
    by (metis length_replicate)
  from tied have "vs = map (map (abs_buffer s)) ls" "\<forall>a. sto_text s a \<noteq> None \<longleftrightarrow> all_uses ls a > 0"
    by (auto simp: tied_def exact_def)
  with run show ?thesis by (simp add: all_uses_pos)
qed

theorem shared_buffers_refine_values_witness:
  "\<exists>s ls. shared_run [From_string 0 [1, 2], Assign 1 0, Append_list 1 0, Remove_front 0 2, Get_size 1, To_buffer 0 1,
         Remove_front 1 5]
       (empty_store, [[], []])
     = (Ok [Done, Done, Done, Done, Size_is 4,
          Thrown (Runtime_error ''BufferList: please use concatenate() to combine a multi-Buffer BufferList into one Buffer''),
          Thrown (Out_of_range ''BufferList::remove_prefix'')], (s, ls))
     \<and> (\<forall>a. sto_text s a \<noteq> None \<longleftrightarrow> (\<exists>bs \<in> set ls. \<exists>b \<in> set bs. sb_storage b = Some a))"
proof -
  let ?cs = "[From_string 0 [1, 2], Assign 1 0, Append_list 1 0, Remove_front 0 2, Get_size 1, To_buffer 0 1,
      Remove_front 1 5]"
  have expected: "fst (value_run ?cs [BufferList_default, BufferList_default])
      = Ok [Done, Done, Done, Done, Size_is 4,
          Thrown (Runtime_error ''BufferList: please use concatenate() to combine a multi-Buffer BufferList into one Buffer''),
          Thrown (Out_of_range ''BufferList::remove_prefix'')]"
    by code_simp
  have "list_all (legal_list_cmd 2) ?cs" by simp
  from shared_buffers_refine_values [OF this] expected show ?thesis by (auto simp: numeral_2_eq_2)
qed

text \<open>
  C10. How long a view may be kept: the views of a \<open>BufferList\<close>, which own nothing, can be read without
  undefined behaviour as long as that list is left alone, whatever happens meanwhile to the lists that
  share strings with it, and they always read what \<open>concatenate()\<close> of the list returns.
\<close>

theorem views_follow_their_list:
  assumes "list_all (legal_list_cmd k) before" and "shared_run before (empty_store, replicate k []) = (Ok replies, (s, ls))"
    and "i < k" and "sviews_of (ls ! i) s = (Ok views, s)"
    and "list_all (legal_list_cmd k) after" and "\<forall>c \<in> set after. target c \<noteq> Some i"
    and "shared_run after (s, ls) = (Ok replies', (t, ls'))"
  shows "\<exists>str. sviews_read views t = (Ok str, t) \<and> slist_concatenate (ls' ! i) t = (Ok str, t)
    \<and> slist_concatenate (ls ! i) s = (Ok str, s)"
proof -
  from run_tied [OF tied_start, of k before] assms(1,2) obtain vs where
    tied: "tied (s, ls) vs" and k: "length ls = k" by auto
  from run_tied [OF tied, of after] assms(5,7) k obtain vs' where
    tied': "tied (t, ls') vs'" "length ls' = k"
    and same: "\<forall>j < length ls. (\<forall>c \<in> set after. target c \<noteq> Some j) \<longrightarrow> ls' ! j = ls ! j \<and> agree (uses (ls ! j)) s t"
    by auto
  have i: "i < length ls" "i < length ls'" using assms(3) k tied'(2) by simp_all
  from same i(1) assms(6) have ls': "ls' ! i = ls ! i" and agree: "agree (uses (ls ! i)) s t" by blast+
  note mine = tied_list [OF tied i(1)] and mine' = tied_list [OF tied'(1) i(2)]
  have vs': "vs' ! i = vs ! i"
    using abs_list_agree [OF agree, of "ls ! i"] mine(2) mine'(2) ls' by simp
  from sviews_of_tied [OF tied i(1)] assms(4) have
    "list_all2 (view_shows s) views (BufferViewList (vs ! i))"
    "\<forall>v \<in> set views. \<forall>a. sv_data v = Some a \<longrightarrow> uses (ls ! i) a > 0" by auto
  then have "list_all2 (view_shows t) views (BufferViewList (vs ! i))"
    by (elim list.rel_mono_strong) (auto intro: view_shows_agree [OF agree])
  then have "sviews_read views t = (Ok (buflist_concatenate (vs ! i)), t)"
    using sviews_read_shows by (simp add: BufferViewList_eq buflist_concatenate_eq)
  moreover have "slist_concatenate (ls ! i) s = (Ok (buflist_concatenate (vs ! i)), s)"
    using slist_size_exact(2) [OF mine(1) mine(5)] mine(2,3) by simp
  moreover have "slist_concatenate (ls' ! i) t = (Ok (buflist_concatenate (vs ! i)), t)"
    using slist_size_exact(2) [OF mine'(1) mine'(5)] mine'(2,3) vs' by simp
  ultimately show ?thesis by blast
qed

theorem views_follow_their_list_witness:
  "case shared_run [From_string 0 [1, 2, 3], Assign 1 0] (empty_store, [[], []]) of (_, (s, ls)) \<Rightarrow>
     (case sviews_of (ls ! 0) s of (Ok views, _) \<Rightarrow>
        fst (sviews_read views (fst (snd (shared_run [Clear 1, From_string 1 [9]] (s, ls))))) = Ok [1, 2, 3]
      | _ \<Rightarrow> False)"
proof -
  let ?before = "[From_string 0 [1, 2, 3], Assign 1 0]" and ?after = "[Clear 1, From_string 1 [9]]"
  let ?b = "\<lparr>sb_storage = Some 0, sb_starting_offset = 0\<rparr>"
  let ?s = "\<lparr>sto_text = [0 \<mapsto> [1, 2, 3]], sto_uses = (\<lambda>_. 0)(0 := 2), sto_next = 1\<rparr>" and ?ls = "[[?b], [?b]]"
  let ?views = "[\<lparr>sv_data = Some 0, sv_start = 0, sv_size = 3\<rparr>]"
  note defs = slist_of_string_def slist_of_buffer_def sbuf_make_def sptr_make_def sbuf_copy_def sptr_copy_def
    sbuf_destroy_def sptr_release_def sptr_deref_def slist_copy_def put_list_def get_list_def on_store_def
    zoomp_def empty_store_def prog_defs
  have b: "shared_run ?before (empty_store, replicate 2 []) = (Ok [Done, Done], (?s, ?ls))"
    by (simp add: defs numeral_2_eq_2)
  have v: "sviews_of (?ls ! 0) ?s = (Ok ?views, ?s)"
    by (simp add: sviews_of_def sbuf_str_def defs csize_def)
  have c: "slist_concatenate (?ls ! 0) ?s = (Ok [1, 2, 3], ?s)"
    by (simp add: slist_concatenate_def slist_size_def sbuf_size_def sbuf_read_def sbuf_str_def sv_read_def defs csize_def)
  obtain r t ls' where a: "shared_run ?after (?s, ?ls) = (r, (t, ls'))" by (metis prod_cases3)
  then have "r = Ok [Done, Done]" by (simp add: defs numeral_2_eq_2)
  with a have a: "shared_run ?after (?s, ?ls) = (Ok [Done, Done], (t, ls'))" by simp
  have "list_all (legal_list_cmd 2) ?before" "list_all (legal_list_cmd 2) ?after" "\<forall>c \<in> set ?after. target c \<noteq> Some 0"
    by simp_all
  from views_follow_their_list [OF this(1) b _ v this(2,3) a] c
  have "fst (sviews_read ?views t) = Ok [1, 2, 3]" by auto
  with a b v show ?thesis by (simp add: numeral_2_eq_2)
qed

end
