(* ===== verification/Parser.thy ===== *)
theory Parser
  imports Buffers
begin

text \<open>
  Reading and writing packet fields in network byte order: \<open>ParseResult\<close>, \<open>as_string\<close>,
  \<open>class NetParser\<close> and \<open>struct NetUnparser\<close> of \<open>libsponge/util/parser.hh\<close> and
  \<open>libsponge/util/parser.cc\<close>.

  A parser is a \<open>Buffer\<close> and the result so far. The templates \<open>_parse_int<T>\<close> and
  \<open>_unparse_int<T>\<close> are polymorphic in the width of \<open>T\<close>, with \<open>u32\<close>, \<open>u16\<close> and \<open>u8\<close> their
  instances. The table of \<open>as_string\<close> is indexed without a check, as the code does.

  The lemmas: the big-endian value of a list of bytes and its inverse, the parser as a client of
  \<open>front_readable\<close>, the interface \<open>int_codec\<close> that the three widths implement, and the round
  trips of whole sequences of fields.
\<close>

section \<open>ParseResult\<close>

datatype parse_result =
    NoError | BadChecksum | PacketTooShort | WrongIPVersion | HeaderTooShort | TruncatedPacket
  | Unsupported

text \<open>\<open>static_cast<size_t>(r)\<close>; it also gives the built-in order of the enumeration.\<close>

fun result_number :: "parse_result \<Rightarrow> size_t" where
  "result_number NoError = 0"
| "result_number BadChecksum = 1"
| "result_number PacketTooShort = 2"
| "result_number WrongIPVersion = 3"
| "result_number HeaderTooShort = 4"
| "result_number TruncatedPacket = 5"
| "result_number Unsupported = 6"

lemma result_number_inject [simp]: "result_number a = result_number b \<longleftrightarrow> a = b"
  by (cases a; cases b) simp_all

instantiation parse_result :: linorder
begin

definition less_eq_parse_result :: "parse_result \<Rightarrow> parse_result \<Rightarrow> bool" where
  "less_eq_parse_result a b \<longleftrightarrow> result_number a \<le> result_number b"

definition less_parse_result :: "parse_result \<Rightarrow> parse_result \<Rightarrow> bool" where
  "less_parse_result a b \<longleftrightarrow> result_number a < result_number b"

instance
  by standard
    (auto simp: less_eq_parse_result_def less_parse_result_def,
      metis order_le_imp_less_or_eq result_number_inject)

end

definition names :: "string list" where
  "names = [''NoError'', ''BadChecksum'', ''PacketTooShort'', ''WrongIPVersion'',
     ''HeaderTooShort'', ''TruncatedPacket'']"

definition as_string :: "parse_result \<Rightarrow> string outcome" where
  "as_string r = array_index names (result_number r)"

section \<open>NetParser\<close>

record net_parser =
  np_buffer :: buffer
  np_error :: parse_result

definition NetParser :: "buffer \<Rightarrow> net_parser" where
  "NetParser buffer = \<lparr>np_buffer = buffer, np_error = NoError\<rparr>"

definition get_error :: "net_parser \<Rightarrow> parse_result" where
  "get_error p = np_error p"

definition set_error :: "parse_result \<Rightarrow> net_parser \<Rightarrow> net_parser" where
  "set_error res p = p\<lparr>np_error := res\<rparr>"

definition parser_error :: "net_parser \<Rightarrow> bool" where
  "parser_error p = (get_error p \<noteq> NoError)"

definition parser_buffer :: "net_parser \<Rightarrow> buffer" where
  "parser_buffer p = np_buffer p"

definition check_size :: "size_t \<Rightarrow> (net_parser, unit) prog" where
  "check_size sz = modifyp (\<lambda>p.
     if sz > buffer_size (np_buffer p) then set_error PacketTooShort p else p)"

definition on_buffer :: "(buffer, 'a) prog \<Rightarrow> (net_parser, 'a) prog" where
  "on_buffer = zoomp np_buffer (\<lambda>b p. p\<lparr>np_buffer := b\<rparr>)"

definition size_of_type :: "'a::len itself \<Rightarrow> size_t" where
  "size_of_type T = word_of_nat (LENGTH('a) div 8)"

definition parse_int :: "(net_parser, 'a::len word) prog" where
  "parse_int =
    (let len = size_of_type TYPE('a) in
     thenp (check_size len)
       (bindp (getp parser_error) (\<lambda>failed.
          if failed then retp 0
          else bindp (getp np_buffer) (\<lambda>buffer.
            bindp (localp (0 :: 'a word)
                (forp (\<lambda>i ret. case buffer_at buffer i of
                     Ok c \<Rightarrow> (Ok (), push_bit 8 ret + ucast c)
                   | Throw e \<Rightarrow> (Throw e, ret)
                   | UB \<Rightarrow> (UB, ret)) 0 len)) (\<lambda>ret.
            thenp (on_buffer (buffer_remove_prefix len)) (retp ret))))))"

definition parser_u32 :: "(net_parser, u32) prog" where
  "parser_u32 = parse_int"

definition parser_u16 :: "(net_parser, u16) prog" where
  "parser_u16 = parse_int"

definition parser_u8 :: "(net_parser, u8) prog" where
  "parser_u8 = parse_int"

definition parser_remove_prefix :: "size_t \<Rightarrow> (net_parser, unit) prog" where
  "parser_remove_prefix n =
     thenp (check_size n)
       (bindp (getp parser_error) (\<lambda>failed.
          if failed then retp () else on_buffer (buffer_remove_prefix n)))"

section \<open>NetUnparser\<close>

definition unparse_int :: "'a::len word \<Rightarrow> (bytes, unit) prog" where
  "unparse_int val =
    (let len = size_of_type TYPE('a) in
     forp (\<lambda>i s.
       let the_byte = ucast (drop_bit (unat ((len - i - 1) * 8)) val AND 0xff) :: u8
       in (Ok (), s @ [the_byte])) 0 len)"

definition unparser_u32 :: "u32 \<Rightarrow> (bytes, unit) prog" where
  "unparser_u32 val = unparse_int val"

definition unparser_u16 :: "u16 \<Rightarrow> (bytes, unit) prog" where
  "unparser_u16 val = unparse_int val"

definition unparser_u8 :: "u8 \<Rightarrow> (bytes, unit) prog" where
  "unparser_u8 val = unparse_int val"

section \<open>Big-endian numbers\<close>

definition be_val :: "bytes \<Rightarrow> 'a::len word" where
  "be_val bs = foldl (\<lambda>ret c. push_bit 8 ret + ucast c) 0 bs"

definition be_bytes :: "'a::len word \<Rightarrow> bytes" where
  "be_bytes v = map (\<lambda>i. ucast (drop_bit (8 * (LENGTH('a) div 8 - 1 - i)) v)) [0..<LENGTH('a) div 8]"

lemma be_val_snoc: "be_val (bs @ [c]) = push_bit 8 (be_val bs) + ucast c"
  by (simp add: be_val_def)

lemma length_be_bytes [simp]: "length (be_bytes (v :: 'a::len word)) = LENGTH('a) div 8"
  by (simp add: be_bytes_def)

lemma byte_split:
  fixes x :: "'a::len word"
  assumes "8 \<le> LENGTH('a)"
  shows "push_bit 8 (drop_bit 8 x) + ucast (ucast x :: 8 word) = x"
proof -
  have "ucast (ucast x :: 8 word) = take_bit 8 x"
    using assms by (intro bit_word_eqI) (auto simp: bit_simps)
  then show ?thesis by (simp add: bits_ident)
qed

lemma be_val_be_bytes_prefix:
  fixes v :: "'a::len word"
  assumes "LENGTH('a) = 8 * w" and "k \<le> w"
  shows "be_val (take k (be_bytes v)) = drop_bit (8 * (w - k)) v"
  using assms(2)
proof (induction k)
  case 0
  then show ?case
    using assms(1) by (auto simp: be_val_def intro!: bit_word_eqI dest: bit_imp_le_length simp: bit_simps)
next
  case (Suc k)
  let ?x = "drop_bit (8 * (w - Suc k)) v"
  have k: "k < length (be_bytes v)" using Suc.prems assms(1) by simp
  have "8 * (w - k) = 8 + 8 * (w - Suc k)" using Suc.prems by simp
  then have x: "drop_bit (8 * (w - k)) v = drop_bit 8 ?x" by (simp add: drop_bit_drop_bit)
  have "be_val (take (Suc k) (be_bytes v)) = push_bit 8 (drop_bit (8 * (w - k)) v) + ucast (be_bytes v ! k)"
    using Suc k by (simp add: take_Suc_conv_app_nth be_val_snoc)
  also have "be_bytes v ! k = ucast ?x"
    using k assms(1) by (simp add: be_bytes_def)
  also have "push_bit 8 (drop_bit (8 * (w - k)) v) + ucast (ucast ?x :: 8 word) = ?x"
    unfolding x using assms(1) Suc.prems by (intro byte_split) simp
  finally show ?case .
qed

lemma be_val_be_bytes:
  fixes v :: "'a::len word"
  assumes "8 dvd LENGTH('a)"
  shows "be_val (be_bytes v) = v"
proof -
  from assms obtain w where w: "LENGTH('a) = 8 * w" by (auto simp: dvd_def)
  from be_val_be_bytes_prefix [OF w order_refl, of v] w show ?thesis by simp
qed

text \<open>
  There are as many byte lists of the right length as words, and \<open>be_bytes\<close> is injective, so
  every such list is the encoding of its value.
\<close>

lemma be_bytes_be_val:
  assumes "8 dvd LENGTH('a::len)" and "length bs = LENGTH('a) div 8"
  shows "be_bytes (be_val bs :: 'a word) = bs"
proof -
  let ?L = "{xs :: bytes. set xs \<subseteq> UNIV \<and> length xs = LENGTH('a) div 8}"
  have inj: "inj (be_bytes :: 'a word \<Rightarrow> bytes)"
    by (rule inj_on_inverseI [where g = be_val]) (simp add: be_val_be_bytes assms(1))
  have fin: "finite ?L" by (rule finite_lists_length_eq) simp
  have "card ?L = 256 ^ (LENGTH('a) div 8)"
    by (subst card_lists_length_eq) (simp_all add: card_word)
  also have "\<dots> = 2 ^ LENGTH('a)"
    using assms(1) by (auto elim!: dvdE simp: power_mult)
  also have "\<dots> = card (range (be_bytes :: 'a word \<Rightarrow> bytes))"
    using inj by (simp add: card_image card_word)
  finally have "range (be_bytes :: 'a word \<Rightarrow> bytes) = ?L"
    by (intro card_subset_eq [OF fin]) auto
  with assms(2) obtain v :: "'a word" where "bs = be_bytes v" by auto
  with assms(1) show ?thesis by (simp add: be_val_be_bytes)
qed

section \<open>The fields as a codec\<close>

lemma size_of_type_unat:
  "LENGTH('a::len) < size_limit \<Longrightarrow> unat (size_of_type TYPE('a)) = LENGTH('a) div 8"
  by (simp add: size_of_type_def unat_of_nat)

lemma unparse_int_eq:
  fixes val :: "'a::len word"
  assumes "LENGTH('a) < size_limit"
  shows "unparse_int val s = (Ok (), s @ be_bytes val)"
proof -
  let ?w = "LENGTH('a) div 8" and ?n = "size_of_type TYPE('a)"
  let ?f = "\<lambda>k. s @ take k (be_bytes val)"
  note w = size_of_type_unat [OF assms]
  have "unparse_int val (?f 0) = (Ok (), ?f (unat ?n))"
    unfolding unparse_int_def Let_def
  proof (rule forp_closed)
    fix j :: size_t
    assume j: "unat j < unat ?n"
    then have "j < ?n" by (simp add: word_less_nat_alt)
    then have "unat (?n - j - 1) = ?w - 1 - unat j"
      using j w by (simp add: unat_sub word_less_nat_alt word_le_nat_alt)
    moreover have "(?w - 1 - unat j) * 8 < size_limit" using assms by simp
    moreover have "unat (k * 8) = unat k * 8" if "unat k * 8 < size_limit" for k :: size_t
      using that unat_mult_lem [of k 8] by simp
    ultimately have sh: "unat ((?n - j - 1) * 8) = 8 * (?w - 1 - unat j)"
      by (metis mult.commute)
    have "ucast (drop_bit (unat ((?n - j - 1) * 8)) val AND 0xff) = be_bytes val ! unat j"
      unfolding sh low_byte using j w by (simp add: be_bytes_def)
    then show "(Ok (), ?f (unat j) @ [ucast (drop_bit (unat ((?n - j - 1) * 8)) val AND 0xff)])
        = (Ok (), ?f (Suc (unat j)))"
      using j w by (simp add: take_Suc_conv_app_nth)
  qed
  then show ?thesis using w by simp
qed

text \<open>Reading \<open>len\<close> bytes by position, on any string that offers a checked \<open>at\<close>.\<close>

context front_readable
begin

lemma read_loop:
  assumes inv: "inv s" and len: "unat len \<le> length (contents s)"
  shows "localp (0 :: 'a::len word) (forp (\<lambda>i ret. case at s i of
             Ok c \<Rightarrow> (Ok (), push_bit 8 ret + ucast c)
           | Throw e \<Rightarrow> (Throw e, ret)
           | UB \<Rightarrow> (UB, ret)) 0 len) t
         = (Ok (be_val (take (unat len) (contents s))), t)"
proof -
  let ?f = "\<lambda>k. be_val (take k (contents s)) :: 'a word"
  have "forp (\<lambda>i ret. case at s i of
             Ok c \<Rightarrow> (Ok (), push_bit 8 ret + ucast c)
           | Throw e \<Rightarrow> (Throw e, ret)
           | UB \<Rightarrow> (UB, ret)) 0 len (?f 0) = (Ok (), ?f (unat len))"
  proof (rule forp_closed)
    fix j :: size_t
    assume j: "unat j < unat len"
    then have "j < size_of s" using len unat_size [OF inv] by (simp add: word_less_nat_alt)
    then have "at s j = Ok (contents s ! unat j)" using inv by (rule at_law [rotated])
    then show "(case at s j of
             Ok c \<Rightarrow> (Ok (), push_bit 8 (?f (unat j)) + ucast c)
           | Throw e \<Rightarrow> (Throw e, ?f (unat j))
           | UB \<Rightarrow> (UB, ?f (unat j))) = (Ok (), ?f (Suc (unat j)))"
      using j len by (simp add: take_Suc_conv_app_nth be_val_snoc)
  qed
  then show ?thesis by (simp add: localp_def be_val_def)
qed

end

definition parser_input :: "net_parser \<Rightarrow> bytes" where
  "parser_input p = buffer_str (np_buffer p)"

definition parser_ok :: "net_parser \<Rightarrow> bool" where
  "parser_ok p \<longleftrightarrow> buffer_ok (np_buffer p)"

lemma check_size_eq:
  "parser_ok p \<Longrightarrow> check_size n p
     = (Ok (), p\<lparr>np_error := (if length (parser_input p) < unat n then PacketTooShort else np_error p)\<rparr>)"
  by (simp add: check_size_def modifyp_apply parser_ok_def parser_input_def buffer_size_def
      word_less_nat_alt buffer_unat_size set_error_def)

lemma parser_failed_iff: "parser_error p \<longleftrightarrow> np_error p \<noteq> NoError"
  by (simp add: parser_error_def get_error_def)

lemma parser_update_id [simp]: "p\<lparr>np_error := np_error p\<rparr> = p"
  by simp

lemma parse_int_short:
  assumes "parser_ok p" and "LENGTH('a::len) < size_limit"
    and "np_error p \<noteq> NoError \<or> length (parser_input p) < LENGTH('a) div 8"
  shows "(parse_int :: (net_parser, 'a word) prog) p
    = (Ok 0, p\<lparr>np_error := (if length (parser_input p) < LENGTH('a) div 8 then PacketTooShort
                            else np_error p)\<rparr>)"
  using assms
  by (auto simp: parse_int_def Let_def prog_simps check_size_eq size_of_type_unat parser_failed_iff)

lemma parse_int_eq:
  assumes ok: "parser_ok p" and small: "LENGTH('a::len) < size_limit"
    and "np_error p = NoError" and len: "LENGTH('a) div 8 \<le> length (parser_input p)"
  shows "\<exists>p'. (parse_int :: (net_parser, 'a word) prog) p
           = (Ok (be_val (take (LENGTH('a) div 8) (parser_input p))), p')
       \<and> parser_ok p' \<and> np_error p' = NoError
       \<and> parser_input p' = drop (LENGTH('a) div 8) (parser_input p)"
proof -
  let ?n = "size_of_type TYPE('a)" and ?b = "np_buffer p"
  note n = size_of_type_unat [OF small]
  have inv: "buffer_ok ?b" and le: "unat ?n \<le> length (buffer_str ?b)"
    using ok len n by (simp_all add: parser_ok_def parser_input_def)
  from buf.remove_law [OF inv le] obtain b' where
    b': "buffer_remove_prefix ?n ?b = (Ok (), b')" "buffer_ok b'"
      "buffer_str b' = drop (unat ?n) (buffer_str ?b)" by blast
  have "check_size ?n p = (Ok (), p)"
    using ok len n by (simp add: check_size_eq)
  then have "(parse_int :: (net_parser, 'a word) prog) p
      = (Ok (be_val (take (unat ?n) (buffer_str ?b))), p\<lparr>np_buffer := b'\<rparr>)"
    using assms(3) b'(1)
    by (simp add: parse_int_def Let_def prog_simps parser_failed_iff buf.read_loop [OF inv le]
        on_buffer_def)
  with b' n assms(3) show ?thesis by (simp add: parser_ok_def parser_input_def)
qed

lemma parser_remove_prefix_eq:
  assumes "parser_ok p"
  shows "if np_error p = NoError \<and> unat n \<le> length (parser_input p)
    then \<exists>p'. parser_remove_prefix n p = (Ok (), p') \<and> parser_ok p' \<and> np_error p' = NoError
            \<and> parser_input p' = drop (unat n) (parser_input p)
    else parser_remove_prefix n p
      = (Ok (), p\<lparr>np_error := (if length (parser_input p) < unat n then PacketTooShort
                              else np_error p)\<rparr>)"
proof (cases "np_error p = NoError \<and> unat n \<le> length (parser_input p)")
  case True
  with assms have inv: "buffer_ok (np_buffer p)" and le: "unat n \<le> length (buffer_str (np_buffer p))"
    by (simp_all add: parser_ok_def parser_input_def)
  from buf.remove_law [OF inv le] True assms show ?thesis
    by (auto simp: parser_remove_prefix_def prog_simps check_size_eq parser_failed_iff on_buffer_def
        parser_ok_def parser_input_def)
next
  case False
  with assms show ?thesis
    by (auto simp: parser_remove_prefix_def prog_simps check_size_eq parser_failed_iff)
qed

section \<open>The interface of a fixed-width field\<close>

locale int_codec =
  fixes width :: nat
    and code :: "'v \<Rightarrow> bytes"
    and zero :: 'v
    and enc :: "'v \<Rightarrow> (bytes, unit) prog"
    and dec :: "(net_parser, 'v) prog"
  assumes code_length: "length (code v) = width"
    and code_inject: "code v = code w \<Longrightarrow> v = w"
    and enc_law: "enc v s = (Ok (), s @ code v)"
    and dec_law: "parser_ok p \<Longrightarrow> np_error p = NoError \<Longrightarrow> width \<le> length (parser_input p) \<Longrightarrow>
      \<exists>v p'. dec p = (Ok v, p') \<and> parser_ok p' \<and> np_error p' = NoError
        \<and> code v = take width (parser_input p) \<and> parser_input p' = drop width (parser_input p)"
    and dec_short: "parser_ok p \<Longrightarrow> np_error p \<noteq> NoError \<or> length (parser_input p) < width \<Longrightarrow>
      dec p = (Ok zero, p\<lparr>np_error := (if length (parser_input p) < width then PacketTooShort
                                      else np_error p)\<rparr>)"
begin

lemma dec_enc:
  assumes "parser_ok p" and "np_error p = NoError" and "parser_input p = code v @ rest"
  shows "\<exists>p'. dec p = (Ok v, p') \<and> parser_ok p' \<and> np_error p' = NoError \<and> parser_input p' = rest"
proof -
  have "width \<le> length (parser_input p)" using assms(3) code_length [of v] by simp
  from dec_law [OF assms(1,2) this] assms(3) code_length [of v] show ?thesis
    using code_inject by fastforce
qed

lemma enc_dec:
  assumes "parser_ok p" and "dec p = (Ok v, p')" and "np_error p' = NoError"
  shows "parser_ok p' \<and> np_error p = NoError \<and> parser_input p = code v @ parser_input p'"
proof (cases "np_error p = NoError \<and> width \<le> length (parser_input p)")
  case True
  with dec_law [OF assms(1)] assms(2) show ?thesis by auto
next
  case False
  with dec_short [OF assms(1)] assms(2,3) show ?thesis by (auto split: if_splits)
qed

lemma dec_total:
  assumes "parser_ok p"
  shows "\<exists>v p'. dec p = (Ok v, p') \<and> parser_ok p'
     \<and> (np_error p' = NoError \<longleftrightarrow> np_error p = NoError \<and> width \<le> length (parser_input p))
     \<and> (np_error p' \<noteq> NoError \<longrightarrow> v = zero \<and> np_buffer p' = np_buffer p)
     \<and> (np_error p' = NoError \<longrightarrow> length (parser_input p) = width + length (parser_input p'))"
proof (cases "np_error p = NoError \<and> width \<le> length (parser_input p)")
  case True
  with dec_law [OF assms] show ?thesis by auto
next
  case False
  with dec_short [OF assms] assms show ?thesis by (auto simp: parser_ok_def parser_input_def)
qed

end

lemma be_bytes_inject:
  "8 dvd LENGTH('a::len) \<Longrightarrow> be_bytes (v :: 'a word) = be_bytes w \<Longrightarrow> v = w"
  by (metis be_val_be_bytes)

lemma int_codecI:
  assumes "8 dvd LENGTH('a::len)" and "LENGTH('a) < size_limit"
    and enc: "\<And>v :: 'a word. enc v = unparse_int v"
    and dec: "dec = (parse_int :: (net_parser, 'a word) prog)"
  shows "int_codec (LENGTH('a) div 8) (be_bytes :: 'a word \<Rightarrow> bytes) 0 enc dec"
proof
  fix v w :: "'a word" and s :: bytes
  show "length (be_bytes v) = LENGTH('a) div 8" by simp
  show "be_bytes v = be_bytes w \<Longrightarrow> v = w" using assms(1) by (rule be_bytes_inject)
  show "enc v s = (Ok (), s @ be_bytes v)" using assms(2) by (simp add: enc unparse_int_eq)
next
  fix p :: net_parser
  assume ok: "parser_ok p"
  show "\<exists>v p'. dec p = (Ok v, p') \<and> parser_ok p' \<and> np_error p' = NoError
      \<and> be_bytes v = take (LENGTH('a) div 8) (parser_input p)
      \<and> parser_input p' = drop (LENGTH('a) div 8) (parser_input p)"
    if "np_error p = NoError" "LENGTH('a) div 8 \<le> length (parser_input p)"
    using parse_int_eq [OF ok assms(2) that] that(2)
    by (auto simp: dec be_bytes_be_val [OF assms(1)])
  show "dec p = (Ok 0, p\<lparr>np_error := (if length (parser_input p) < LENGTH('a) div 8
      then PacketTooShort else np_error p)\<rparr>)"
    if "np_error p \<noteq> NoError \<or> length (parser_input p) < LENGTH('a) div 8"
    using parse_int_short [OF ok assms(2) that] by (simp add: dec)
qed

interpretation c32: int_codec 4 "be_bytes :: u32 \<Rightarrow> bytes" 0 unparser_u32 parser_u32
  using int_codecI [where 'a = 32, of unparser_u32 parser_u32]
  by (simp add: unparser_u32_def parser_u32_def)

interpretation c16: int_codec 2 "be_bytes :: u16 \<Rightarrow> bytes" 0 unparser_u16 parser_u16
  using int_codecI [where 'a = 16, of unparser_u16 parser_u16]
  by (simp add: unparser_u16_def parser_u16_def)

interpretation c8: int_codec 1 "be_bytes :: u8 \<Rightarrow> bytes" 0 unparser_u8 parser_u8
  using int_codecI [where 'a = 8, of unparser_u8 parser_u8]
  by (simp add: unparser_u8_def parser_u8_def)

section \<open>Sequences of fields\<close>

datatype field = F32 u32 | F16 u16 | F8 u8

datatype field_type = T32 | T16 | T8

fun type_of :: "field \<Rightarrow> field_type" where
  "type_of (F32 v) = T32"
| "type_of (F16 v) = T16"
| "type_of (F8 v) = T8"

fun width_of :: "field_type \<Rightarrow> nat" where
  "width_of T32 = 4"
| "width_of T16 = 2"
| "width_of T8 = 1"

fun zero_of :: "field_type \<Rightarrow> field" where
  "zero_of T32 = F32 0"
| "zero_of T16 = F16 0"
| "zero_of T8 = F8 0"

fun field_code :: "field \<Rightarrow> bytes" where
  "field_code (F32 v) = be_bytes v"
| "field_code (F16 v) = be_bytes v"
| "field_code (F8 v) = be_bytes v"

fun unparse_field :: "field \<Rightarrow> (bytes, unit) prog" where
  "unparse_field (F32 v) = unparser_u32 v"
| "unparse_field (F16 v) = unparser_u16 v"
| "unparse_field (F8 v) = unparser_u8 v"

fun parse_field :: "field_type \<Rightarrow> (net_parser, field) prog" where
  "parse_field T32 = bindp parser_u32 (\<lambda>v. retp (F32 v))"
| "parse_field T16 = bindp parser_u16 (\<lambda>v. retp (F16 v))"
| "parse_field T8 = bindp parser_u8 (\<lambda>v. retp (F8 v))"

fun unparse_fields :: "field list \<Rightarrow> (bytes, unit) prog" where
  "unparse_fields [] = retp ()"
| "unparse_fields (f # fs) = thenp (unparse_field f) (unparse_fields fs)"

fun parse_fields :: "field_type list \<Rightarrow> (net_parser, field list) prog" where
  "parse_fields [] = retp []"
| "parse_fields (t # ts) =
     bindp (parse_field t) (\<lambda>f. bindp (parse_fields ts) (\<lambda>fs. retp (f # fs)))"

lemma unparse_field_eq: "unparse_field f s = (Ok (), s @ field_code f)"
  by (cases f) (simp_all add: c32.enc_law c16.enc_law c8.enc_law)

lemma unparse_fields_eq: "unparse_fields fs s = (Ok (), s @ concat (map field_code fs))"
  by (induction fs arbitrary: s) (simp_all add: prog_simps bindp_def unparse_field_eq)

lemma length_field_code [simp]: "length (field_code f) = width_of (type_of f)"
  by (cases f) simp_all

lemma then_unparser [prog_simps]:
  "thenp (unparser_u32 v) k s = k (s @ be_bytes v)"
  "thenp (unparser_u16 w) k s = k (s @ be_bytes w)"
  "thenp (unparser_u8 x) k s = k (s @ be_bytes x)"
  by (simp_all add: prog_simps c32.enc_law c16.enc_law c8.enc_law)

lemma parse_field_roundtrip:
  assumes "parser_ok p" and "np_error p = NoError" and "parser_input p = field_code f @ rest"
  shows "\<exists>p'. parse_field (type_of f) p = (Ok f, p') \<and> parser_ok p' \<and> np_error p' = NoError
     \<and> parser_input p' = rest"
  using assms c32.dec_enc [of p] c16.dec_enc [of p] c8.dec_enc [of p]
  by (cases f) (fastforce simp: prog_simps bindp_def)+

lemma parse_field_total:
  assumes "parser_ok p"
  shows "\<exists>f p'. parse_field t p = (Ok f, p') \<and> type_of f = t \<and> parser_ok p'
     \<and> (np_error p' = NoError \<longleftrightarrow> np_error p = NoError \<and> width_of t \<le> length (parser_input p))
     \<and> (np_error p' \<noteq> NoError \<longrightarrow> f = zero_of t \<and> np_buffer p' = np_buffer p)
     \<and> (np_error p' = NoError \<longrightarrow> parser_input p = field_code f @ parser_input p')"
proof (cases t)
  case T32
  from c32.dec_total [OF assms] c32.enc_dec [OF assms] T32 show ?thesis
    by (fastforce simp: prog_simps bindp_def)
next
  case T16
  from c16.dec_total [OF assms] c16.enc_dec [OF assms] T16 show ?thesis
    by (fastforce simp: prog_simps bindp_def)
next
  case T8
  from c8.dec_total [OF assms] c8.enc_dec [OF assms] T8 show ?thesis
    by (fastforce simp: prog_simps bindp_def)
qed

lemma parse_fields_roundtrip:
  "parser_ok p \<Longrightarrow> np_error p = NoError \<Longrightarrow> parser_input p = concat (map field_code fs) @ rest \<Longrightarrow>
   \<exists>p'. parse_fields (map type_of fs) p = (Ok fs, p') \<and> parser_ok p' \<and> np_error p' = NoError
     \<and> parser_input p' = rest"
proof (induction fs arbitrary: p)
  case Nil
  then show ?case by (simp add: prog_simps)
next
  case (Cons f fs)
  from Cons.prems(3) have "parser_input p = field_code f @ concat (map field_code fs) @ rest"
    by simp
  from parse_field_roundtrip [OF Cons.prems(1,2) this] obtain p1 where
    p1: "parse_field (type_of f) p = (Ok f, p1)" "parser_ok p1" "np_error p1 = NoError"
      "parser_input p1 = concat (map field_code fs) @ rest" by blast
  from Cons.IH [OF p1(2-4)] p1(1) show ?case by (auto simp: prog_simps bindp_def)
qed

lemma parse_fields_total:
  "parser_ok p \<Longrightarrow>
   \<exists>fs p'. parse_fields ts p = (Ok fs, p') \<and> map type_of fs = ts \<and> parser_ok p'
     \<and> (np_error p \<noteq> NoError \<longrightarrow> np_error p' \<noteq> NoError \<and> fs = map zero_of ts \<and> np_buffer p' = np_buffer p)
     \<and> (np_error p' = NoError \<longleftrightarrow>
          np_error p = NoError \<and> sum_list (map width_of ts) \<le> length (parser_input p))
     \<and> (np_error p' = NoError \<longrightarrow>
          parser_input p = concat (map field_code fs) @ parser_input p')"
proof (induction ts arbitrary: p)
  case Nil
  then show ?case by (simp add: prog_simps)
next
  case (Cons t ts)
  from parse_field_total [OF Cons.prems, of t] obtain f p1 where
    f: "parse_field t p = (Ok f, p1)" "type_of f = t" "parser_ok p1"
      "np_error p1 = NoError \<longleftrightarrow> np_error p = NoError \<and> width_of t \<le> length (parser_input p)"
      "np_error p1 \<noteq> NoError \<longrightarrow> f = zero_of t \<and> np_buffer p1 = np_buffer p"
      "np_error p1 = NoError \<longrightarrow> parser_input p = field_code f @ parser_input p1"
    by blast
  from Cons.IH [OF f(3)] obtain fs p2 where
    fs: "parse_fields ts p1 = (Ok fs, p2)" "map type_of fs = ts" "parser_ok p2"
      "np_error p1 \<noteq> NoError \<longrightarrow> np_error p2 \<noteq> NoError \<and> fs = map zero_of ts \<and> np_buffer p2 = np_buffer p1"
      "np_error p2 = NoError \<longleftrightarrow>
        np_error p1 = NoError \<and> sum_list (map width_of ts) \<le> length (parser_input p1)"
      "np_error p2 = NoError \<longrightarrow> parser_input p1 = concat (map field_code fs) @ parser_input p2"
    by blast
  have len: "length (parser_input p) = width_of t + length (parser_input p1)" if "np_error p1 = NoError"
    using f(2,6) that by simp
  have run: "parse_fields (t # ts) p = (Ok (f # fs), p2)"
    using f(1) fs(1) by (simp add: prog_simps bindp_def)
  show ?case
  proof (cases "np_error p1 = NoError")
    case True
    with f(4) have e: "np_error p = NoError" by simp
    from True f(6) have split: "parser_input p = field_code f @ parser_input p1" by simp
    have "np_error p2 = NoError \<longleftrightarrow>
        np_error p = NoError \<and> sum_list (map width_of (t # ts)) \<le> length (parser_input p)"
      using fs(5) True e len [OF True] by simp
    moreover have "np_error p2 = NoError \<longrightarrow>
        parser_input p = concat (map field_code (f # fs)) @ parser_input p2"
      using fs(6) split by simp
    ultimately show ?thesis
      using run f(2) fs(2,3) e by (intro exI [of _ "f # fs"] exI [of _ p2]) simp
  next
    case False
    with f fs run show ?thesis by auto
  qed
qed

text \<open>The worked example of the documentation: write four fields behind a tag byte, read them back.\<close>

definition parser_example :: "unit outcome" where
  "parser_example =
    (let val1 = 0xdeadbeef; val2 = 0xc0c0; val3 = 0xff; val4 = 0x0c05fefe;
         buffer = [0x32] :: bytes
     in case thenp (unparser_u32 val1) (thenp (unparser_u16 val2)
               (thenp (unparser_u8 val3) (unparser_u32 val4))) buffer of
          (Ok _, buffer) \<Rightarrow>
            fst (bindp parser_u8 (\<lambda>out0. bindp parser_u32 (\<lambda>out1. bindp parser_u16 (\<lambda>out2.
                 bindp parser_u8 (\<lambda>out3. bindp parser_u32 (\<lambda>out4.
                 if out0 \<noteq> 0x32 \<or> out1 \<noteq> val1 \<or> out2 \<noteq> val2 \<or> out3 \<noteq> val3 \<or> out4 \<noteq> val4
                 then throwp (Runtime_error ''bad parse'') else retp ())))))
               (NetParser (Buffer buffer)))
        | (Throw e, _) \<Rightarrow> Throw e
        | (UB, _) \<Rightarrow> UB)"

section \<open>Properties\<close>

text \<open>
  C11. Round trip of packet headers: any sequence of 32-, 16- and 8-bit fields written with
  \<open>NetUnparser\<close> is read back unchanged by \<open>NetParser\<close> with the same field types, without an
  error, and the bytes that follow are left in the buffer.
\<close>

theorem fields_roundtrip:
  assumes "unparse_fields fs [] = (r, bs)" and "length (bs @ rest) < size_limit"
  shows "\<exists>p'. parse_fields (map type_of fs) (NetParser (Buffer (bs @ rest))) = (Ok fs, p')
           \<and> parser_input p' = rest \<and> \<not> parser_error p'"
proof -
  have "parser_ok (NetParser (Buffer (bs @ rest)))"
    using assms(2) by (simp add: parser_ok_def NetParser_def)
  moreover have "parser_input (NetParser (Buffer (bs @ rest))) = concat (map field_code fs) @ rest"
    using assms(1) by (simp add: parser_input_def NetParser_def unparse_fields_eq)
  moreover have "np_error (NetParser (Buffer (bs @ rest))) = NoError"
    by (simp add: NetParser_def)
  ultimately show ?thesis
    using parse_fields_roundtrip [of "NetParser (Buffer (bs @ rest))" fs rest]
    by (auto simp: parser_failed_iff)
qed

theorem fields_roundtrip_witness: "parser_example = Ok ()"
proof -
  let ?fs = "[F8 0x32, F32 0xdeadbeef, F16 0xc0c0, F8 0xff, F32 0x0c05fefe]"
  have run: "unparse_fields ?fs [] = (Ok (), concat (map field_code ?fs))"
    by (simp only: unparse_fields_eq append_Nil)
  from fields_roundtrip [OF run, of "[]"] obtain p' where
    "parse_fields (map type_of ?fs) (NetParser (Buffer (concat (map field_code ?fs)))) = (Ok ?fs, p')"
    by auto
  then obtain p1 p2 p3 p4 where
    "parser_u8 (NetParser (Buffer (concat (map field_code ?fs)))) = (Ok 0x32, p1)"
    "parser_u32 p1 = (Ok 0xdeadbeef, p2)" "parser_u16 p2 = (Ok 0xc0c0, p3)"
    "parser_u8 p3 = (Ok 0xff, p4)" "parser_u32 p4 = (Ok 0x0c05fefe, p')"
    by (auto simp: bindp_eq_Ok prog_simps)
  moreover have "be_bytes (0x32 :: u8) = [0x32]"
    by (simp add: be_bytes_def)
  ultimately show ?thesis
    by (simp add: parser_example_def Let_def prog_simps c32.enc_law)
qed



text \<open>
  \<open>as_string\<close> is defined for the results up to \<open>TruncatedPacket\<close>, with a different name for
  each; for the last enumerator, \<open>Unsupported\<close>, it indexes one past the end of its table of six
  names.
\<close>

lemma as_string_unsupported_out_of_range:
  "(as_string r = UB \<longleftrightarrow> r = Unsupported)
   \<and> (as_string r \<noteq> UB \<longleftrightarrow> r < Unsupported)
   \<and> inj_on as_string {r. r < Unsupported}"
proof -
  have dom: "r < Unsupported \<longleftrightarrow> r \<noteq> Unsupported" for r
    by (cases r) (simp_all add: less_parse_result_def)
  have "inj_on as_string {r. r < Unsupported}"
  proof (rule inj_onI)
    fix a b
    assume "a \<in> {r. r < Unsupported}" "b \<in> {r. r < Unsupported}" "as_string a = as_string b"
    then show "a = b"
      by (cases a; cases b) (simp_all add: dom as_string_def array_index_def names_def)
  qed
  moreover have "as_string r = UB \<longleftrightarrow> r = Unsupported"
    by (cases r) (simp_all add: as_string_def array_index_def names_def)
  ultimately show ?thesis by (simp add: dom)
qed

end
