(* ===== verification/Internet_Checksum.thy ===== *)
theory Internet_Checksum
  imports Sponge_Prelude
begin

text \<open>
  The Internet checksum, \<open>class InternetChecksum\<close> of \<open>libsponge/util/util.hh\<close> and
  \<open>libsponge/util/util.cc\<close>.

  The state is the 32-bit sum and the parity of the number of bytes added so far, so that data
  can come in pieces of any length. \<open>value\<close> folds the carries back in a loop that is proved to
  end. The lemmas give the sum in closed form (\<open>word_sum\<close>), relate the folded sum to the ones'
  complement residue modulo 65535 (\<open>ones_fold\<close>), and derive from it that a packet carrying its
  own checksum verifies and that a change of one byte is noticed.
\<close>

record inet_checksum =
  ic_sum :: u32
  ic_parity :: bool

definition InternetChecksum :: "u32 \<Rightarrow> inet_checksum" where
  "InternetChecksum initial_sum = \<lparr>ic_sum = initial_sum, ic_parity = False\<rparr>"

definition checksum_add_byte :: "u8 \<Rightarrow> (inet_checksum, unit) prog" where
  "checksum_add_byte c = modifyp (\<lambda>ic.
     let val = ucast c :: u16;
         val = (if \<not> ic_parity ic then push_bit 8 val else val)
     in ic\<lparr>ic_sum := ic_sum ic + ucast val, ic_parity := \<not> ic_parity ic\<rparr>)"

definition checksum_add :: "bytes \<Rightarrow> (inet_checksum, unit) prog" where
  "checksum_add data =
     forp (\<lambda>i. bindp (liftp (array_index data i)) checksum_add_byte) 0 (csize data)"

lemma fold_carry_less:
  fixes ret :: u32
  assumes "ret > 0xffff"
  shows "unat (drop_bit 16 ret + (ret AND 0xffff)) = unat ret div 65536 + unat ret mod 65536"
    and "unat ret div 65536 + unat ret mod 65536 < unat ret"
proof -
  have m: "(0xffff :: u32) = mask 16" by (simp add: mask_eq_exp_minus_1)
  have d: "unat (drop_bit 16 ret) = unat ret div 65536"
    by (simp add: unat_drop_bit_eq) (simp add: drop_bit_eq_div)
  have a: "unat (ret AND 0xffff) = unat ret mod 65536"
    unfolding m take_bit_eq_mask [symmetric] unsigned_take_bit_eq by (simp add: take_bit_eq_mod)
  have "unat ret < 2 ^ LENGTH(32)" by (rule unsigned_less)
  then have lt: "unat ret < 4294967296" by simp
  then have "unat ret div 65536 + unat ret mod 65536 < 2 ^ LENGTH(32)"
    by simp
  then show "unat (drop_bit 16 ret + (ret AND 0xffff)) = unat ret div 65536 + unat ret mod 65536"
    by (simp add: unat_word_ariths d a)
  have "65536 \<le> unat ret" using assms by (simp add: word_less_nat_alt)
  then have "65536 div 65536 \<le> unat ret div 65536" by (rule div_le_mono)
  then show "unat ret div 65536 + unat ret mod 65536 < unat ret"
    using div_mult_mod_eq [of "unat ret" 65536] by linarith
qed

function fold_carry :: "u32 \<Rightarrow> u32" where
  "fold_carry ret =
     (if ret > 0xffff then fold_carry (drop_bit 16 ret + (ret AND 0xffff)) else ret)"
  by pat_completeness auto
termination
  by (relation "measure unat") (simp_all add: fold_carry_less)

declare fold_carry.simps [simp del]

definition checksum_value :: "inet_checksum \<Rightarrow> u16" where
  "checksum_value ic = (let ret = fold_carry (ic_sum ic) in ucast (NOT ret))"

section \<open>The sum\<close>

text \<open>Bytes at even positions (parity false) are high bytes, the others low bytes.\<close>

fun word_sum :: "bool \<Rightarrow> bytes \<Rightarrow> nat" where
  "word_sum p [] = 0"
| "word_sum p (b # bs) = (if p then unat b else 256 * unat b) + word_sum (\<not> p) bs"

lemma word_sum_append:
  "word_sum p (xs @ ys) = word_sum p xs + word_sum (p \<noteq> odd (length xs)) ys"
  by (induction p xs rule: word_sum.induct) auto

lemma unat_u8_less: "unat (b :: u8) < 256"
  using unsigned_less [of b, where 'a = nat] by simp

lemma unat_u16_less: "unat (b :: u16) < 65536"
  using unsigned_less [of b, where 'a = nat] by simp

lemma word_sum_bound:
  "word_sum p xs \<le> 65535 * (length xs div 2)
     + (if odd (length xs) then (if p then 255 else 65280) else 0)"
proof (induction p xs rule: word_sum.induct)
  case (1 p)
  show ?case by simp
next
  case (2 p b bs)
  then show ?case
    using unat_u8_less [of b] by (cases p; cases "odd (length bs)") (auto elim!: oddE evenE)
qed

lemma word_sum_small: "word_sum p xs \<le> 65535 * ((length xs + 1) div 2)"
  by (rule order_trans [OF word_sum_bound]) (auto elim: oddE)

lemma checksum_add_byte_eq:
  "checksum_add_byte c ic = (Ok (), \<lparr>ic_sum = ic_sum ic + word_of_nat (word_sum (ic_parity ic) [c]),
     ic_parity = \<not> ic_parity ic\<rparr>)"
proof -
  have hi: "ucast (push_bit 8 (ucast c :: u16)) = (word_of_nat (256 * unat c) :: u32)"
  proof -
    have "push_bit 8 (ucast c :: u16) = word_of_nat (256 * unat c)"
      by (simp add: push_bit_eq_mult)
    then have "unat (push_bit 8 (ucast c :: u16)) = 256 * unat c mod 65536"
      by (simp only: unat_of_nat) simp
    then have "unat (push_bit 8 (ucast c :: u16)) = 256 * unat c"
      using unat_u8_less [of c] by simp
    then show ?thesis by (metis of_nat_unat)
  qed
  have lo: "ucast (ucast c :: u16) = (ucast c :: u32)"
    by (rule bit_word_eqI) (use bit_imp_le_length [of c] in \<open>fastforce simp: bit_simps\<close>)
  show ?thesis
    by (cases ic) (simp add: checksum_add_byte_def modifyp_apply Let_def hi lo)
qed

text \<open>Adding data in closed form; the sum is modulo \<open>2 ^ 32\<close>.\<close>

lemma checksum_add_eq:
  assumes "length data < size_limit"
  shows "checksum_add data ic = (Ok (),
    \<lparr>ic_sum = ic_sum ic + word_of_nat (word_sum (ic_parity ic) data),
     ic_parity = (ic_parity ic \<noteq> odd (length data))\<rparr>)"
proof -
  let ?f = "\<lambda>k. \<lparr>ic_sum = ic_sum ic + word_of_nat (word_sum (ic_parity ic) (take k data)),
     ic_parity = (ic_parity ic \<noteq> odd k)\<rparr>"
  have "checksum_add data (?f 0) = (Ok (), ?f (unat (csize data)))"
    unfolding checksum_add_def
  proof (rule forp_closed)
    fix j :: size_t
    assume "unat j < unat (csize data)"
    then have j: "unat j < length data" using assms by (simp add: unat_csize)
    then show "bindp (liftp (array_index data j)) checksum_add_byte (?f (unat j))
        = (Ok (), ?f (Suc (unat j)))"
      by (auto simp: prog_simps checksum_add_byte_eq take_Suc_conv_app_nth word_sum_append)
  qed
  then show ?thesis using assms by (cases ic) (simp add: unat_csize)
qed

lemma checksum_add_append:
  assumes "length (a @ b) < size_limit"
  shows "thenp (checksum_add a) (checksum_add b) ic = checksum_add (a @ b) ic"
  using assms by (auto simp: prog_simps bindp_def checksum_add_eq word_sum_append)

section \<open>Folding the carries\<close>

text \<open>The representative in \<open>1 .. 65535\<close> of a positive number modulo 65535, and 0 for 0.\<close>

definition ones_fold :: "nat \<Rightarrow> nat" where
  "ones_fold n = (if n = 0 then 0 else (n - 1) mod 65535 + 1)"

lemma ones_fold_le: "ones_fold n \<le> 65535"
proof -
  have "(n - 1) mod 65535 < 65535" by (rule mod_less_divisor) simp
  then show ?thesis unfolding ones_fold_def by (cases "n = 0") simp_all
qed

lemma ones_fold_small: "n \<le> 65535 \<Longrightarrow> ones_fold n = n"
  by (auto simp: ones_fold_def)

lemma ones_fold_step: "ones_fold (n div 65536 + n mod 65536) = ones_fold n"
proof (cases "n = 0")
  case True
  then show ?thesis by simp
next
  case False
  let ?m = "n div 65536 + n mod 65536"
  have pos: "?m \<noteq> 0" using False by (metis add_is_0 div_mult_mod_eq mult_0)
  have "n = 65535 * (n div 65536) + ?m" using div_mult_mod_eq [of n 65536] by linarith
  then have "n - 1 = 65535 * (n div 65536) + (?m - 1)" using pos by linarith
  then have "(n - 1) mod 65535 = (?m - 1) mod 65535" by (metis mod_mult_self4)
  with False pos show ?thesis by (simp add: ones_fold_def)
qed

lemma ones_fold_eq_max_iff: "ones_fold n = 65535 \<longleftrightarrow> 0 < n \<and> 65535 dvd n"
  by (cases n) (simp_all add: ones_fold_def dvd_eq_mod_eq_0 mod_Suc del: One_nat_def)

lemma ones_fold_mod: "ones_fold n mod 65535 = n mod 65535"
  by (cases n) (simp_all add: ones_fold_def mod_Suc_eq)

lemma unat_fold_carry: "unat (fold_carry ret) = ones_fold (unat ret)"
proof (induction ret rule: fold_carry.induct)
  case (1 ret)
  show ?case
  proof (cases "ret > 0xffff")
    case True
    then have "unat (fold_carry ret) = unat (fold_carry (drop_bit 16 ret + (ret AND 0xffff)))"
      by (simp add: fold_carry.simps [of ret])
    also have "\<dots> = ones_fold (unat ret div 65536 + unat ret mod 65536)"
      by (simp only: "1.IH" [OF True] fold_carry_less (1) [OF True])
    finally show ?thesis by (simp only: ones_fold_step)
  next
    case False
    then have "unat ret \<le> 65535" by (simp add: word_less_nat_alt)
    with False show ?thesis by (simp add: fold_carry.simps [of ret] ones_fold_small)
  qed
qed

lemma unat_checksum_value: "unat (checksum_value ic) = 65535 - ones_fold (unat (ic_sum ic))"
proof -
  let ?r = "fold_carry (ic_sum ic)"
  have r: "unat ?r = ones_fold (unat (ic_sum ic))" by (rule unat_fold_carry)
  have "NOT ?r = - 1 - ?r" by (simp add: not_eq_complement)
  moreover have "unat (- 1 - ?r) = unat (- 1 :: u32) - unat ?r" by (rule unat_sub) simp
  ultimately have n: "unat (NOT ?r) = 4294967295 - unat ?r"
    by (simp add: unsigned_minus_1_eq_mask mask_eq_exp_minus_1)
  have le: "unat ?r \<le> 65535" using r ones_fold_le by simp
  have "unat (checksum_value ic) = (4294967295 - unat ?r) mod 65536"
    by (simp add: checksum_value_def Let_def unsigned_ucast_eq n take_bit_eq_mod)
  also have "4294967295 - unat ?r = 65535 - unat ?r + 65535 * 65536" using le by simp
  also have "\<dots> mod 65536 = 65535 - unat ?r" using le by (simp only: mod_mult_self1) simp
  finally show ?thesis by (simp add: r)
qed

section \<open>Whole packets\<close>

text \<open>The checksum of a packet, from a sum of pseudo-header words, as the class documentation uses it.\<close>

definition inet_cksum :: "u32 \<Rightarrow> bytes \<Rightarrow> u16" where
  "inet_cksum initial_sum data = checksum_value (snd (checksum_add data (InternetChecksum initial_sum)))"

text \<open>The 32-bit sum of a packet of this size cannot overflow.\<close>

definition packet_fits :: "u32 \<Rightarrow> nat \<Rightarrow> bool" where
  "packet_fits initial_sum n \<longleftrightarrow> unat initial_sum + 65535 * ((n + 1) div 2) < 2 ^ 32"

lemma packet_fits_size: "packet_fits initial_sum (length data) \<Longrightarrow> length data < size_limit"
  by (simp add: packet_fits_def)

lemma packet_sum:
  assumes "packet_fits initial_sum (length data)"
  shows "checksum_add data (InternetChecksum initial_sum)
           = (Ok (), \<lparr>ic_sum = initial_sum + word_of_nat (word_sum False data), ic_parity = odd (length data)\<rparr>)"
    and "unat (initial_sum + word_of_nat (word_sum False data)) = unat initial_sum + word_sum False data"
proof -
  show "checksum_add data (InternetChecksum initial_sum)
      = (Ok (), \<lparr>ic_sum = initial_sum + word_of_nat (word_sum False data), ic_parity = odd (length data)\<rparr>)"
    using packet_fits_size [OF assms] by (simp add: checksum_add_eq InternetChecksum_def)
  have "unat initial_sum + word_sum False data < 4294967296"
    using assms word_sum_small [of False data] by (simp add: packet_fits_def)
  then show "unat (initial_sum + word_of_nat (word_sum False data)) = unat initial_sum + word_sum False data"
    by (simp add: unat_word_ariths unat_of_nat)
qed

lemma unat_inet_cksum:
  "packet_fits initial_sum (length data) \<Longrightarrow>
   unat (inet_cksum initial_sum data) = 65535 - ones_fold (unat initial_sum + word_sum False data)"
  by (simp add: inet_cksum_def packet_sum unat_checksum_value)

lemma inet_cksum_zero_iff:
  assumes "packet_fits initial_sum (length data)"
  shows "inet_cksum initial_sum data = 0 \<longleftrightarrow>
    0 < unat initial_sum + word_sum False data \<and> 65535 dvd unat initial_sum + word_sum False data"
proof -
  let ?S = "unat initial_sum + word_sum False data"
  have "inet_cksum initial_sum data = 0 \<longleftrightarrow> unat (inet_cksum initial_sum data) = 0"
    by (simp add: unat_eq_zero)
  also have "\<dots> \<longleftrightarrow> ones_fold ?S = 65535"
    using ones_fold_le [of ?S] by (simp only: unat_inet_cksum [OF assms]) linarith
  finally show ?thesis by (simp only: ones_fold_eq_max_iff)
qed

text \<open>The two bytes of a 16-bit header field, high byte first.\<close>

definition field_bytes :: "u16 \<Rightarrow> bytes" where
  "field_bytes v = [ucast (drop_bit 8 v), ucast v]"

lemma word_sum_field: "word_sum False (field_bytes v) = unat v"
proof -
  have "unat v < 65536" by (rule unat_u16_less)
  then have "unat v div 256 < 256" by simp
  moreover have "unat (drop_bit 8 v) = unat v div 256"
    by (simp only: unat_drop_bit_eq) (simp add: drop_bit_eq_div)
  ultimately have h: "unat (ucast (drop_bit 8 v) :: u8) = unat v div 256"
    unfolding unsigned_ucast_eq by (simp only: take_bit_eq_mod) simp
  have l: "unat (ucast v :: u8) = unat v mod 256"
    by (simp add: unsigned_ucast_eq take_bit_eq_mod)
  show ?thesis by (simp add: field_bytes_def h l)
qed

lemma word_sum_update:
  "i < length xs \<Longrightarrow>
   word_sum p (xs[i := b]) + (if p = odd i then 256 else 1) * unat (xs ! i)
     = word_sum p xs + (if p = odd i then 256 else 1) * unat b"
proof (induction p xs arbitrary: i rule: word_sum.induct)
  case (2 p c cs)
  then show ?case by (cases i) (auto split: if_splits)
qed simp

fun checksum_add_all :: "bytes list \<Rightarrow> (inet_checksum, unit) prog" where
  "checksum_add_all [] = retp ()"
| "checksum_add_all (d # ds) = thenp (checksum_add d) (checksum_add_all ds)"

lemma checksum_add_all_eq:
  "length (concat ds) < size_limit \<Longrightarrow> checksum_add_all ds ic = checksum_add (concat ds) ic"
proof (induction ds arbitrary: ic)
  case Nil
  then show ?case by (cases ic) (simp add: prog_simps checksum_add_eq)
next
  case (Cons d ds)
  then have "length (d @ concat ds) < size_limit" by simp
  from checksum_add_append [OF this, of ic] Cons show ?case
    by (simp add: bindp_def split: prod.splits outcome.splits)
qed

section \<open>Properties\<close>

text \<open>
  C13. \<open>InternetChecksum\<close> computes the Internet checksum: for a packet whose 32-bit sum cannot
  overflow, adding the data neither throws nor reads out of range, and \<open>value()\<close> is the 16-bit
  complement of the ones' complement sum of the initial sum and the big-endian 16-bit words of
  the data, an odd last byte being padded with zero.
\<close>

theorem checksum_value_spec:
  assumes "packet_fits initial_sum (length data)"
  shows "fst (checksum_add data (InternetChecksum initial_sum)) = Ok ()
       \<and> unat (inet_cksum initial_sum data)
           = 65535 - ones_fold (unat initial_sum + word_sum False data)"
  using assms by (simp add: packet_sum unat_inet_cksum)

theorem checksum_value_spec_witness:
  "packet_fits 0xffff 3 \<and> unat (inet_cksum 0xffff [0x12, 0x34, 0x56]) = 65535 - 0x6834"
  using checksum_value_spec [of "0xffff" "[0x12, 0x34, 0x56]"]
  by (simp add: packet_fits_def ones_fold_def)

text \<open>
  C14. Data may be added in pieces: for any division of the data, at odd positions too, adding
  the pieces one after the other leaves the same object as adding the whole at once.
\<close>

theorem checksum_add_pieces:
  assumes "length (concat ds) < size_limit"
  shows "checksum_add_all ds ic = checksum_add (concat ds) ic"
  using assms by (rule checksum_add_all_eq)

theorem checksum_add_pieces_witness:
  "checksum_add_all [[1], [2, 3], [], [4]] (InternetChecksum 7) = checksum_add [1, 2, 3, 4] (InternetChecksum 7)"
  using checksum_add_pieces [of "[[1], [2, 3], [], [4]]" "InternetChecksum 7"] by simp

text \<open>
  C15. What the class documentation promises: compute the checksum of a packet whose checksum
  field is zero, store it there, and evaluating the checksum of the resulting packet gives
  zero. The field is at any even offset.
\<close>

theorem checksum_of_checksummed_packet:
  assumes "even (length pre)" and "packet_fits initial_sum (length (pre @ [0, 0] @ post))"
    and "c = inet_cksum initial_sum (pre @ [0, 0] @ post)"
  shows "inet_cksum initial_sum (pre @ field_bytes c @ post) = 0"
proof -
  define S where "S = unat initial_sum + word_sum False (pre @ [0, 0] @ post)"
  define S' where "S' = unat initial_sum + word_sum False (pre @ field_bytes c @ post)"
  have len: "length (field_bytes c) = 2" by (simp add: field_bytes_def)
  have sum: "S' = S + unat c"
    using assms(1) len by (simp add: S_def S'_def word_sum_append word_sum_field)
  have c: "unat c = 65535 - ones_fold S"
    using assms(2,3) by (simp only: unat_inet_cksum S_def)
  have "(S + unat c) mod 65535 = (ones_fold S + unat c) mod 65535"
    by (metis mod_add_left_eq ones_fold_mod)
  also have "ones_fold S + unat c = 65535" using c ones_fold_le [of S] by simp
  finally have "65535 dvd S'" by (simp add: sum dvd_eq_mod_eq_0)
  moreover have "0 < S'"
    using c by (cases "S = 0") (simp_all add: sum ones_fold_def)
  moreover have "packet_fits initial_sum (length (pre @ field_bytes c @ post))"
    using assms(2) len by simp
  ultimately show ?thesis by (simp only: inet_cksum_zero_iff S'_def)
qed

theorem checksum_of_checksummed_packet_witness:
  "inet_cksum 5 ([0x45, 0x00] @ field_bytes (inet_cksum 5 ([0x45, 0x00] @ [0, 0] @ [0x7f])) @ [0x7f]) = 0"
  using checksum_of_checksummed_packet [of "[0x45, 0x00]" 5 "[0x7f]"] by (simp add: packet_fits_def)

text \<open>
  C16. A corrupted byte is noticed: if a packet verifies (its checksum evaluates to zero) and
  one of its bytes is replaced by a different one, the packet no longer verifies.
\<close>

theorem checksum_detects_byte_change:
  assumes "packet_fits initial_sum (length data)" and "inet_cksum initial_sum data = 0"
    and "i < length data" and "b \<noteq> data ! i"
  shows "inet_cksum initial_sum (data[i := b]) \<noteq> 0"
proof
  assume zero: "inet_cksum initial_sum (data[i := b]) = 0"
  let ?S = "unat initial_sum + word_sum False data"
  let ?S' = "unat initial_sum + word_sum False (data[i := b])"
  define w :: nat where "w = (if even i then 256 else 1)"
  have up: "?S' + w * unat (data ! i) = ?S + w * unat b"
    using word_sum_update [OF assms(3), of False b] by (simp add: w_def)
  have "65535 dvd ?S" "65535 dvd ?S'"
    using assms(1,2) zero inet_cksum_zero_iff [of initial_sum data]
      inet_cksum_zero_iff [of initial_sum "data[i := b]"]
    by simp_all
  then have dvd: "65535 dvd int ?S" "65535 dvd int ?S'"
    by (metis int_dvd_int_iff of_nat_numeral)+
  define d where "d = int w * (int (unat b) - int (unat (data ! i)))"
  have "int (?S' + w * unat (data ! i)) = int (?S + w * unat b)" using up by (rule arg_cong)
  then have "int ?S' = int ?S + d" by (simp add: d_def algebra_simps)
  with dvd(2) have "65535 dvd int ?S + d" by (simp only:)
  then have "65535 dvd d" by (rule dvd_add_right_iff [OF dvd(1), THEN iffD1])
  moreover have "d \<noteq> 0" using assms(4) by (auto simp: d_def w_def word_uint_eq_iff)
  moreover have "\<bar>d\<bar> < 65535"
  proof -
    have "0 \<le> uint b" "0 \<le> uint (data ! i)" by simp_all
    moreover have "uint b < 256" "uint (data ! i) < 256"
      using unsigned_less [of b, where 'a = int] unsigned_less [of "data ! i", where 'a = int] by simp_all
    ultimately have "\<bar>256 * (uint b - uint (data ! i))\<bar> < 65535
        \<and> \<bar>uint b - uint (data ! i)\<bar> < 65535"
      unfolding abs_less_iff right_diff_distrib by (intro conjI) linarith+
    moreover have "d = 256 * (uint b - uint (data ! i)) \<or> d = uint b - uint (data ! i)"
      by (simp add: d_def w_def)
    ultimately show ?thesis by auto
  qed
  ultimately show False by (metis dvd_imp_le_int abs_numeral not_less)
qed

theorem checksum_detects_byte_change_witness:
  "inet_cksum 0 [0x12, 0x34, 0xed, 0xcb] = 0 \<and> inet_cksum 0 [0x12, 0x34, 0xee, 0xcb] \<noteq> 0"
proof -
  have "packet_fits 0 (length [0x12, 0x34, 0xed, 0xcb :: u8])" by (simp add: packet_fits_def)
  moreover from this have "inet_cksum 0 [0x12, 0x34, 0xed, 0xcb] = 0"
    by (simp add: inet_cksum_zero_iff)
  ultimately show ?thesis
    using checksum_detects_byte_change [of 0 "[0x12, 0x34, 0xed, 0xcb]" 2 "0xee"] by simp
qed

end
