(* ===== verification/Unix_World.thy ===== *)
theory Unix_World
  imports Buffers
begin

text \<open>
  What lies outside the process, the memory the file descriptors share, and the error-checking
  wrapper around system calls: \<open>SystemCall\<close>, \<open>tagged_error\<close> and \<open>unix_error\<close> of
  \<open>libsponge/util/util.hh\<close> and \<open>libsponge/util/util.cc\<close>.

  The operating system and the resolver are not part of the repository: \<open>kernel\<close> is the record
  of the calls the code makes, a parameter of every definition that makes one, over a type of
  kernel states of its own. A call returns its result, the error number it would leave in
  \<open>errno\<close>, its output arguments and the next kernel state. \<open>world\<close> is the state of the process:
  the kernel state, \<open>errno\<close>, the heap of \<open>FDWrapper\<close> objects with their reference counts, and
  what was printed (on \<open>cerr\<close>, a text and the exception whose \<open>what()\<close> follows it, if any).
\<close>

section \<open>System calls\<close>

type_synonym ('k, 'a) sys = "'k \<Rightarrow> int \<times> int \<times> 'a \<times> 'k"

record pollfd =
  pfd_fd :: int
  pfd_events :: u16
  pfd_revents :: u16

record addrinfo_hints =
  ai_flags :: int
  ai_family :: int

record 'k kernel =
  k_read :: "int \<Rightarrow> size_t \<Rightarrow> ('k, bytes) sys"
  k_writev :: "int \<Rightarrow> iovec list \<Rightarrow> ('k, unit) sys"
  k_close :: "int \<Rightarrow> ('k, unit) sys"
  k_getfl :: "int \<Rightarrow> ('k, unit) sys"
  k_setfl :: "int \<Rightarrow> int \<Rightarrow> ('k, unit) sys"
  k_open :: "string \<Rightarrow> int \<Rightarrow> ('k, unit) sys"
  k_ioctl_tunsetiff :: "int \<Rightarrow> bytes \<Rightarrow> u16 \<Rightarrow> ('k, unit) sys"
  k_poll :: "pollfd list \<Rightarrow> int \<Rightarrow> ('k, u16 list) sys"
  k_socket :: "int \<Rightarrow> int \<Rightarrow> int \<Rightarrow> ('k, unit) sys"
  k_getsockopt :: "int \<Rightarrow> int \<Rightarrow> int \<Rightarrow> ('k, int \<times> u32) sys"
  k_setsockopt :: "int \<Rightarrow> int \<Rightarrow> int \<Rightarrow> int \<Rightarrow> ('k, unit) sys"
  k_getsockname :: "int \<Rightarrow> u32 \<Rightarrow> ('k, bytes \<times> u32) sys"
  k_getpeername :: "int \<Rightarrow> u32 \<Rightarrow> ('k, bytes \<times> u32) sys"
  k_socketpair :: "int \<Rightarrow> int \<Rightarrow> int \<Rightarrow> ('k, int \<times> int) sys"
  k_bind :: "int \<Rightarrow> bytes \<Rightarrow> u32 \<Rightarrow> ('k, unit) sys"
  k_connect :: "int \<Rightarrow> bytes \<Rightarrow> u32 \<Rightarrow> ('k, unit) sys"
  k_shutdown :: "int \<Rightarrow> int \<Rightarrow> ('k, unit) sys"
  k_recvfrom :: "int \<Rightarrow> size_t \<Rightarrow> u32 \<Rightarrow> ('k, bytes \<times> bytes \<times> u32) sys"
  k_sendmsg :: "int \<Rightarrow> bytes option \<Rightarrow> u32 \<Rightarrow> iovec list \<Rightarrow> ('k, unit) sys"
  k_listen :: "int \<Rightarrow> int \<Rightarrow> ('k, unit) sys"
  k_accept :: "int \<Rightarrow> ('k, unit) sys"
  k_getaddrinfo :: "bytes \<Rightarrow> bytes \<Rightarrow> addrinfo_hints \<Rightarrow> ('k, (bytes \<times> u32) option) sys"
  k_getnameinfo :: "bytes \<Rightarrow> u32 \<Rightarrow> ('k, bytes \<times> bytes) sys"

text \<open>
  A kernel on which every call fails with one error number; the concrete kernels of the examples
  replace the calls they need.
\<close>

definition failing :: "int \<Rightarrow> 'a \<Rightarrow> ('k, 'a) sys" where
  "failing err x = (\<lambda>k. (-1, err, x, k))"

definition failing_kernel :: "int \<Rightarrow> 'k kernel" where
  "failing_kernel err =
     \<lparr>k_read = (\<lambda>_ _. failing err []), k_writev = (\<lambda>_ _. failing err ()),
      k_close = (\<lambda>_. failing err ()), k_getfl = (\<lambda>_. failing err ()),
      k_setfl = (\<lambda>_ _. failing err ()), k_open = (\<lambda>_ _. failing err ()),
      k_ioctl_tunsetiff = (\<lambda>_ _ _. failing err ()), k_poll = (\<lambda>_ _. failing err []),
      k_socket = (\<lambda>_ _ _. failing err ()), k_getsockopt = (\<lambda>_ _ _. failing err (0, 0)),
      k_setsockopt = (\<lambda>_ _ _ _. failing err ()), k_getsockname = (\<lambda>_ _. failing err ([], 0)),
      k_getpeername = (\<lambda>_ _. failing err ([], 0)), k_socketpair = (\<lambda>_ _ _. failing err (0, 0)), k_bind = (\<lambda>_ _ _. failing err ()),
      k_connect = (\<lambda>_ _ _. failing err ()), k_shutdown = (\<lambda>_ _. failing err ()),
      k_recvfrom = (\<lambda>_ _ _. failing err ([], [], 0)), k_sendmsg = (\<lambda>_ _ _ _. failing err ()),
      k_listen = (\<lambda>_ _. failing err ()), k_accept = (\<lambda>_. failing err ()),
      k_getaddrinfo = (\<lambda>_ _ _. failing err None), k_getnameinfo = (\<lambda>_ _. failing err ([], []))\<rparr>"

section \<open>The process\<close>

record fd_wrapper =
  w_fd :: int
  w_eof :: bool
  w_closed :: bool
  w_read_count :: u32
  w_write_count :: u32

type_synonym fd_ref = nat

record 'k world =
  kern :: 'k
  errno :: int
  heap :: "fd_ref \<Rightarrow> fd_wrapper option"
  refs :: "fd_ref \<Rightarrow> nat"
  next_ref :: fd_ref
  cout :: bytes
  cerr :: "(string \<times> exn option) list"

text \<open>A process that has not opened anything yet.\<close>

definition new_world :: "'k \<Rightarrow> 'k world" where
  "new_world k = \<lparr>kern = k, errno = 0, heap = (\<lambda>_. None), refs = (\<lambda>_. 0), next_ref = 0,
     cout = [], cerr = []\<rparr>"

lemma new_world_simps [simp]:
  "kern (new_world k) = k" "heap (new_world k) = (\<lambda>_. None)" "refs (new_world k) = (\<lambda>_. 0)"
  "next_ref (new_world k) = 0" "cerr (new_world k) = []" "cout (new_world k) = []"
  by (simp_all add: new_world_def)

text \<open>One system call: on failure it leaves its error number in \<open>errno\<close>.\<close>

definition invoke :: "('k, 'a) sys \<Rightarrow> ('k world, int \<times> 'a) prog" where
  "invoke f = (\<lambda>w. case f (kern w) of (r, e, x, k) \<Rightarrow>
     (Ok (r, x), w\<lparr>kern := k, errno := (if r < 0 then e else errno w)\<rparr>))"

definition unix_error :: "string \<Rightarrow> int \<Rightarrow> exn" where
  "unix_error attempt err = Tagged_error System_category attempt err"

definition SystemCall :: "string \<Rightarrow> int \<Rightarrow> int \<Rightarrow> ('k world, int) prog" where
  "SystemCall attempt return_value errno_mask = (\<lambda>w.
     if return_value \<ge> 0 \<or> errno w = errno_mask then (Ok return_value, w)
     else throwp (unix_error attempt (errno w)) w)"

text \<open>A call of the kernel wrapped in \<open>SystemCall\<close>, whose result is passed on as an \<open>int\<close>.\<close>

definition sys :: "string \<Rightarrow> ('k, 'a) sys \<Rightarrow> ('k world, int \<times> 'a) prog" where
  "sys attempt f =
     bindp (invoke f) (\<lambda>(r, x). bindp (SystemCall attempt (c_int r) 0) (\<lambda>n. retp (n, x)))"

lemma sys_eq:
  assumes "f (kern w) = (r, e, x, k)"
  shows "sys attempt f w =
    (let e' = (if r < 0 then e else errno w); w' = w\<lparr>kern := k, errno := e'\<rparr>
     in if c_int r \<ge> 0 \<or> e' = 0 then (Ok (c_int r, x), w')
        else (Throw (unix_error attempt e'), w'))"
  using assms by (simp add: sys_def invoke_def SystemCall_def bindp_def prog_simps Let_def)

lemma sys_Ok:
  assumes "f (kern w) = (r, e, x, k)" and "0 \<le> r" and "r < 2 ^ 31"
  shows "sys attempt f w = (Ok (r, x), w\<lparr>kern := k\<rparr>)"
proof -
  have "c_int r = r" using assms by (intro c_int_id) simp_all
  with assms show ?thesis by (simp add: sys_def invoke_def SystemCall_def bindp_def prog_simps)
qed

lemma sys_fail:
  assumes "f (kern w) = (r, e, x, k)" and "- (2 ^ 31) \<le> r" and "r < 0" and "e \<noteq> 0"
  shows "sys attempt f w = (Throw (unix_error attempt e), w\<lparr>kern := k, errno := e\<rparr>)"
proof -
  have "c_int r = r" using assms by (intro c_int_id) simp_all
  with assms show ?thesis by (simp add: sys_def invoke_def SystemCall_def bindp_def prog_simps)
qed

text \<open>
  Any other call, as the code sees it: the outcome is a value or a \<open>unix_error\<close>, and nothing
  but the kernel state and \<open>errno\<close> changes.
\<close>

lemma sys_cases:
  obtains (ok) n x k e where "sys attempt f w = (Ok (n, x), w\<lparr>kern := k, errno := e\<rparr>)"
      and "- (2 ^ 31) \<le> n" and "n < 2 ^ 31" and "fst (snd (snd (f (kern w)))) = x"
      and "n = c_int (fst (f (kern w)))" and "k = snd (snd (snd (f (kern w))))"
  | (fail) k e where "sys attempt f w = (Throw (unix_error attempt e), w\<lparr>kern := k, errno := e\<rparr>)"
      and "e \<noteq> 0" and "k = snd (snd (snd (f (kern w))))"
proof -
  obtain r e x k where f: "f (kern w) = (r, e, x, k)" by (metis prod_cases4)
  have "- (2 ^ 31) \<le> c_int r \<and> c_int r < 2 ^ 31"
    using sint_ge [of "word_of_int r :: 32 word"] sint_lt [of "word_of_int r :: 32 word"]
    by (simp add: c_int_def)
  then have range: "- (2 ^ 31) \<le> c_int r" "c_int r < 2 ^ 31" by simp_all
  define e' where "e' = (if r < 0 then e else errno w)"
  note eq = sys_eq [of f w r e x k attempt, OF f, folded e'_def, unfolded Let_def]
  show thesis
  proof (cases "c_int r \<ge> 0 \<or> e' = 0")
    case True
    show thesis by (rule ok [OF _ range]) (simp_all only: eq True if_True f fst_conv snd_conv)
  next
    case False
    show thesis
      by (rule fail [of e' k]) (use False in \<open>simp_all only: eq if_False f fst_conv snd_conv de_Morgan_disj simp_thms\<close>)
  qed
qed

lemma sys_range:
  assumes "sys attempt f w = (Ok (n, x), w')"
  shows "- (2 ^ 31) \<le> n" and "n < 2 ^ 31"
  using assms by (cases rule: sys_cases [of attempt f w], simp_all)+

text \<open>A system call keeps what does not depend on the kernel state and \<open>errno\<close>.\<close>

lemma safe_sys [prog_intros]:
  assumes "\<And>w k e. P w \<Longrightarrow> P (w\<lparr>kern := k, errno := e\<rparr>)"
  shows "safe P (sys attempt f)"
  unfolding safe_def
proof (intro allI impI)
  fix w
  assume "P w"
  with assms show "fst (sys attempt f w) \<noteq> UB \<and> P (snd (sys attempt f w))"
    by (cases rule: sys_cases [of attempt f w]) simp_all
qed

text \<open>What a kernel call keeps of the kernel state.\<close>

lemma keeps_kern_sys:
  fixes f :: "('k, 'a) sys"
  assumes "\<And>k. P k \<Longrightarrow> P (snd (snd (snd (f k))))"
  shows "keeps (\<lambda>w. P (kern w)) (sys attempt f)"
  unfolding keeps_def
proof (intro allI impI)
  fix w :: "'k world"
  assume "P (kern w)"
  with assms show "P (kern (snd (sys attempt f w)))"
    by (cases rule: sys_cases [of attempt f w]) simp_all
qed

lemma safe_SystemCall [prog_intros]: "safe P (SystemCall attempt r m)"
  by (simp add: safe_def SystemCall_def prog_simps)

lemma safe_invoke [prog_intros]:
  "(\<And>w k e. P w \<Longrightarrow> P (w\<lparr>kern := k, errno := e\<rparr>)) \<Longrightarrow> safe P (invoke f)"
  by (simp add: safe_def invoke_def split: prod.splits)

end
