(* ===== verification/File_Descriptor.thy ===== *)
theory File_Descriptor
  imports Unix_World
begin

text \<open>
  The reference-counted file descriptor: \<open>class FileDescriptor\<close> and its inner \<open>class FDWrapper\<close>
  of \<open>libsponge/util/file_descriptor.hh\<close> and \<open>libsponge/util/file_descriptor.cc\<close>.

  A \<open>FileDescriptor\<close> is a \<open>shared_ptr\<close>: the address of an \<open>FDWrapper\<close> in the heap of the
  process, so that \<open>duplicate\<close> makes an alias whose flags and counters are shared. Reading
  through an address that holds no object (a handle that was moved from or destroyed) is
  undefined behaviour. \<open>fd_destroy\<close> is the destructor of a handle: it gives up one reference,
  and the last one runs \<open>~FDWrapper\<close>.

  The lemmas: what each operation does to the shared object and to nothing else, termination of
  the writing loop for every kernel, delivery of the whole buffer by a kernel that keeps the
  contract of \<open>writev\<close>, and the life cycle of the object under any number of handles.
\<close>

section \<open>FDWrapper\<close>

definition BUFFER_SIZE :: size_t where
  "BUFFER_SIZE = 1024 * 1024"

definition O_NONBLOCK :: u32 where
  "O_NONBLOCK = 0x800"

definition deref :: "fd_ref \<Rightarrow> ('k world, fd_wrapper) prog" where
  "deref a = (\<lambda>w. case heap w a of None \<Rightarrow> (UB, w) | Some o' \<Rightarrow> (Ok o', w))"

definition update_fd :: "fd_ref \<Rightarrow> (fd_wrapper \<Rightarrow> fd_wrapper) \<Rightarrow> ('k world, unit) prog" where
  "update_fd a f = (\<lambda>w. case heap w a of
       None \<Rightarrow> (UB, w)
     | Some o' \<Rightarrow> (Ok (), w\<lparr>heap := (heap w)(a \<mapsto> f o')\<rparr>))"

definition FDWrapper :: "int \<Rightarrow> fd_wrapper outcome" where
  "FDWrapper fd =
     (if fd < 0 then Throw (Runtime_error (''invalid fd number:'' @ int_to_string fd))
      else Ok \<lparr>w_fd = fd, w_eof = False, w_closed = False, w_read_count = 0, w_write_count = 0\<rparr>)"

definition FDWrapper_close :: "'k kernel \<Rightarrow> fd_ref \<Rightarrow> ('k world, unit) prog" where
  "FDWrapper_close K a =
     bindp (deref a) (\<lambda>this.
     thenp (sys ''close'' (k_close K (w_fd this)))
       (update_fd a (\<lambda>this. this\<lparr>w_eof := True, w_closed := True\<rparr>)))"

definition FDWrapper_destructor :: "'k kernel \<Rightarrow> fd_ref \<Rightarrow> ('k world, unit) prog" where
  "FDWrapper_destructor K a =
     catchp (bindp (deref a) (\<lambda>this. if w_closed this then retp () else FDWrapper_close K a))
       (\<lambda>e. modifyp (\<lambda>w. w\<lparr>cerr := cerr w @ [(''Exception destructing FDWrapper: '', Some e)]\<rparr>))"

section \<open>FileDescriptor\<close>

text \<open>\<open>make_shared<FDWrapper>(fd)\<close>: a new object with one reference.\<close>

definition FileDescriptor :: "int \<Rightarrow> ('k world, fd_ref) prog" where
  "FileDescriptor fd =
     bindp (liftp (FDWrapper fd)) (\<lambda>this. (\<lambda>w.
       (Ok (next_ref w),
        w\<lparr>heap := (heap w)(next_ref w \<mapsto> this), refs := (refs w)(next_ref w := 1),
          next_ref := next_ref w + 1\<rparr>)))"

definition fd_duplicate :: "fd_ref \<Rightarrow> ('k world, fd_ref) prog" where
  "fd_duplicate a =
     thenp (deref a) (\<lambda>w. (Ok a, w\<lparr>refs := (refs w)(a := refs w a + 1)\<rparr>))"

definition fd_destroy :: "'k kernel \<Rightarrow> fd_ref \<Rightarrow> ('k world, unit) prog" where
  "fd_destroy K a =
     thenp (modifyp (\<lambda>w. w\<lparr>refs := (refs w)(a := refs w a - 1)\<rparr>))
       (bindp (getp (\<lambda>w. refs w a)) (\<lambda>n.
          if n = 0
          then thenp (FDWrapper_destructor K a) (modifyp (\<lambda>w. w\<lparr>heap := (heap w)(a := None)\<rparr>))
          else retp ()))"

definition register_read :: "fd_ref \<Rightarrow> ('k world, unit) prog" where
  "register_read a = update_fd a (\<lambda>this. this\<lparr>w_read_count := w_read_count this + 1\<rparr>)"

definition register_write :: "fd_ref \<Rightarrow> ('k world, unit) prog" where
  "register_write a = update_fd a (\<lambda>this. this\<lparr>w_write_count := w_write_count this + 1\<rparr>)"

definition fd_close :: "'k kernel \<Rightarrow> fd_ref \<Rightarrow> ('k world, unit) prog" where
  "fd_close K a = FDWrapper_close K a"

definition fd_num :: "fd_ref \<Rightarrow> ('k world, int) prog" where
  "fd_num a = bindp (deref a) (\<lambda>this. retp (w_fd this))"

definition fd_eof :: "fd_ref \<Rightarrow> ('k world, bool) prog" where
  "fd_eof a = bindp (deref a) (\<lambda>this. retp (w_eof this))"

definition fd_closed :: "fd_ref \<Rightarrow> ('k world, bool) prog" where
  "fd_closed a = bindp (deref a) (\<lambda>this. retp (w_closed this))"

definition fd_read_count :: "fd_ref \<Rightarrow> ('k world, u32) prog" where
  "fd_read_count a = bindp (deref a) (\<lambda>this. retp (w_read_count this))"

definition fd_write_count :: "fd_ref \<Rightarrow> ('k world, u32) prog" where
  "fd_write_count a = bindp (deref a) (\<lambda>this. retp (w_write_count this))"

text \<open>
  The process and the string the caller passed by reference: \<open>read\<close> leaves the string resized
  also when it throws. A kernel that stores more bytes than it was given room for corrupts
  memory.
\<close>

type_synonym 'k world_str = "'k world \<times> bytes"

definition on_world :: "('k world, 'a) prog \<Rightarrow> ('k world_str, 'a) prog" where
  "on_world = zoomp fst (\<lambda>w (_, s). (w, s))"

definition on_str :: "(bytes, 'a) prog \<Rightarrow> ('k world_str, 'a) prog" where
  "on_str = zoomp snd (\<lambda>s (w, _). (w, s))"

definition store_data :: "bytes \<Rightarrow> (bytes, unit) prog" where
  "store_data data = (\<lambda>s. if length data \<le> length s
     then (Ok (), data @ drop (length data) s) else (UB, s))"

definition fd_read_into :: "'k kernel \<Rightarrow> fd_ref \<Rightarrow> size_t \<Rightarrow> ('k world_str, unit) prog" where
  "fd_read_into K a limit =
    (let size_to_read = min BUFFER_SIZE limit in
     thenp (on_str (string_resize size_to_read))
     (bindp (on_world (fd_num a)) (\<lambda>fd.
      bindp (on_world (invoke (k_read K fd size_to_read))) (\<lambda>(r, data).
      thenp (on_str (store_data data))
      (bindp (on_world (SystemCall ''read'' (c_int r) 0)) (\<lambda>bytes_read.
      thenp (if limit > 0 \<and> bytes_read = 0
             then on_world (update_fd a (\<lambda>this. this\<lparr>w_eof := True\<rparr>)) else retp ())
      (thenp (if bytes_read > sint size_to_read
              then throwp (Runtime_error ''read() read more than requested'') else retp ())
      (thenp (on_str (string_resize (word_of_int bytes_read)))
             (on_world (register_read a)))))))))) "

definition fd_read :: "'k kernel \<Rightarrow> fd_ref \<Rightarrow> size_t \<Rightarrow> ('k world, bytes) prog" where
  "fd_read K a limit = (\<lambda>w. case fd_read_into K a limit (w, []) of
       (Ok _, (w', ret)) \<Rightarrow> (Ok ret, w')
     | (Throw e, (w', _)) \<Rightarrow> (Throw e, w')
     | (UB, (w', _)) \<Rightarrow> (UB, w'))"

text \<open>The default argument of both \<open>read\<close> functions.\<close>

definition read_limit_max :: size_t where
  "read_limit_max = - 1"

text \<open>The body of the writing loop: one \<open>writev\<close>, its checks, and the bytes it took.\<close>

definition fd_write_step ::
  "'k kernel \<Rightarrow> fd_ref \<Rightarrow> buffer_view_list \<Rightarrow> ('k world, size_t \<times> buffer_view_list) prog" where
  "fd_write_step K a buffer =
    (let iovecs = viewlist_as_iovecs buffer in
     bindp (fd_num a) (\<lambda>fd.
     bindp (sys ''writev'' (k_writev K fd iovecs)) (\<lambda>(bytes_written, _).
     thenp (if bytes_written = 0 \<and> viewlist_size buffer \<noteq> 0
            then throwp (Runtime_error ''write returned 0 given non-empty input buffer'')
            else retp ())
     (thenp (if bytes_written > sint (viewlist_size buffer)
             then throwp (Runtime_error ''write wrote more than length of input buffer'')
             else retp ())
     (thenp (register_write a)
     (bindp (localp buffer (viewlist_remove_prefix (word_of_int bytes_written))) (\<lambda>buffer'.
        retp (word_of_int bytes_written, buffer'))))))))"

lemma viewlist_remove_prefix_zero: "viewlist_remove_prefix 0 vs = (Ok (), vs)"
  by (cases vs) simp_all

lemma viewlist_remove_prefix_shrinks:
  "viewlist_remove_prefix n vs = (Ok (), ws) \<Longrightarrow> n \<noteq> 0 \<Longrightarrow> length (concat ws) < length (concat vs)"
proof (induction n vs arbitrary: ws rule: viewlist_remove_prefix.induct)
  case (1 n)
  then show ?case by (simp add: word_gt_0)
next
  case (2 n front rest)
  have pos: "n > 0" using "2.prems"(2) by (simp add: word_gt_0)
  show ?case
  proof (cases "n < csize front")
    case True
    then have "front \<noteq> []" using pos by auto
    moreover have "0 < unat n" using "2.prems"(2) by (simp add: unat_gt_0)
    ultimately show ?thesis using True pos "2.prems"(1) by (auto intro: diff_less)
  next
    case False
    with pos "2.prems" have ws: "viewlist_remove_prefix (n - csize front) rest = (Ok (), ws)" by simp
    show ?thesis
    proof (cases "n - csize front = 0")
      case True
      then have "ws = rest" using ws by (simp add: viewlist_remove_prefix_zero)
      moreover have "front \<noteq> []" using True "2.prems"(2) by auto
      ultimately show ?thesis by simp
    next
      case diff: False
      from "2.IH" [OF pos False ws diff] show ?thesis by simp
    qed
  qed
qed

lemma fd_write_step_shrinks:
  assumes "fd_write_step K a buffer w = (Ok (n, buffer'), w')" and "viewlist_size buffer' \<noteq> 0"
  shows "length (concat buffer') < length (concat buffer)"
proof -
  from assms(1) obtain i fd t t' where
    sys: "sys ''writev'' (k_writev K fd (viewlist_as_iovecs buffer)) t = (Ok (i, ()), t')"
    and i: "\<not> (i = 0 \<and> viewlist_size buffer \<noteq> 0)"
      "viewlist_remove_prefix (word_of_int i) buffer = (Ok (), buffer')"
    by (auto simp: fd_write_step_def Let_def bindp_eq_Ok localp_eq_Ok prog_simps
        split: if_splits outcome.splits prod.splits)
  note range = sys_range [OF sys]
  show ?thesis
  proof (cases "i = 0")
    case True
    with i assms(2) show ?thesis by (simp add: viewlist_remove_prefix_zero)
  next
    case False
    have "(word_of_int i :: size_t) \<noteq> 0"
    proof
      assume "(word_of_int i :: size_t) = 0"
      then have "sint (word_of_int i :: size_t) = 0" by simp
      moreover have "sint (word_of_int i :: size_t) = i"
        using range by (simp add: signed_of_int signed_take_bit_int_eq_self)
      ultimately show False using False by simp
    qed
    with i(2) show ?thesis by (rule viewlist_remove_prefix_shrinks)
  qed
qed

function fd_write_loop ::
  "'k kernel \<Rightarrow> fd_ref \<Rightarrow> bool \<Rightarrow> size_t \<Rightarrow> buffer_view_list \<Rightarrow> ('k world, size_t) prog" where
  "fd_write_loop K a write_all total_bytes_written buffer w =
     (case fd_write_step K a buffer w of
        (Ok (n, buffer'), w') \<Rightarrow>
          if write_all \<and> viewlist_size buffer' \<noteq> 0
          then fd_write_loop K a write_all (total_bytes_written + n) buffer' w'
          else (Ok (total_bytes_written + n), w')
      | (Throw e, w') \<Rightarrow> (Throw e, w')
      | (UB, w') \<Rightarrow> (UB, w'))"
  by pat_completeness auto
termination
proof (relation "measure (\<lambda>(K, a, write_all, total_bytes_written, buffer, w). length (concat buffer))")
  show "wf (measure (\<lambda>(K :: 'k kernel, a :: fd_ref, write_all :: bool, total_bytes_written :: size_t,
      buffer :: buffer_view_list, w :: 'k world). length (concat buffer)))"
    by simp
qed (auto dest!: fd_write_step_shrinks [OF sym])

declare fd_write_loop.simps [simp del]

definition fd_write :: "'k kernel \<Rightarrow> fd_ref \<Rightarrow> buffer_view_list \<Rightarrow> bool \<Rightarrow> ('k world, size_t) prog" where
  "fd_write K a buffer write_all = fd_write_loop K a write_all 0 buffer"

definition fd_write_str :: "'k kernel \<Rightarrow> fd_ref \<Rightarrow> bytes \<Rightarrow> bool \<Rightarrow> ('k world, size_t) prog" where
  "fd_write_str K a str write_all = fd_write K a (BufferViewList_str str) write_all"

definition fd_write_cstr :: "'k kernel \<Rightarrow> fd_ref \<Rightarrow> bytes \<Rightarrow> bool \<Rightarrow> ('k world, size_t) prog" where
  "fd_write_cstr K a str write_all = fd_write K a (BufferViewList_cstr str) write_all"

definition fd_set_blocking :: "'k kernel \<Rightarrow> fd_ref \<Rightarrow> bool \<Rightarrow> ('k world, unit) prog" where
  "fd_set_blocking K a blocking_state =
     bindp (fd_num a) (\<lambda>fd.
     bindp (sys ''fcntl'' (k_getfl K fd)) (\<lambda>(r, _).
       let flags = word_of_int r :: u32;
           flags = (if blocking_state then flags XOR (flags AND O_NONBLOCK)
                    else flags OR O_NONBLOCK)
       in bindp (fd_num a) (\<lambda>fd.
          bindp (sys ''fcntl'' (k_setfl K fd (sint flags))) (\<lambda>_. retp ()))))"

section \<open>Single operations\<close>

named_theorems fd_simps \<open>operations on a live descriptor\<close>

lemma deref_Some [fd_simps]: "heap w a = Some obj \<Longrightarrow> deref a w = (Ok obj, w)"
  by (simp add: deref_def)

lemma update_fd_Some [fd_simps]:
  "heap w a = Some obj \<Longrightarrow> update_fd a f w = (Ok (), w\<lparr>heap := (heap w)(a \<mapsto> f obj)\<rparr>)"
  by (simp add: update_fd_def)

lemma fd_num_Some [fd_simps]: "heap w a = Some obj \<Longrightarrow> fd_num a w = (Ok (w_fd obj), w)"
  and fd_eof_Some [fd_simps]: "heap w a = Some obj \<Longrightarrow> fd_eof a w = (Ok (w_eof obj), w)"
  and fd_closed_Some [fd_simps]: "heap w a = Some obj \<Longrightarrow> fd_closed a w = (Ok (w_closed obj), w)"
  and fd_read_count_Some [fd_simps]: "heap w a = Some obj \<Longrightarrow> fd_read_count a w = (Ok (w_read_count obj), w)"
  and fd_write_count_Some [fd_simps]: "heap w a = Some obj \<Longrightarrow> fd_write_count a w = (Ok (w_write_count obj), w)"
  by (simp_all add: fd_num_def fd_eof_def fd_closed_def fd_read_count_def fd_write_count_def
      prog_simps fd_simps)

lemma register_Some [fd_simps]:
  "heap w a = Some obj \<Longrightarrow>
     register_read a w = (Ok (), w\<lparr>heap := (heap w)(a \<mapsto> obj\<lparr>w_read_count := w_read_count obj + 1\<rparr>)\<rparr>)"
  "heap w a = Some obj \<Longrightarrow>
     register_write a w = (Ok (), w\<lparr>heap := (heap w)(a \<mapsto> obj\<lparr>w_write_count := w_write_count obj + 1\<rparr>)\<rparr>)"
  by (simp_all add: register_read_def register_write_def fd_simps)

section \<open>Writing\<close>

text \<open>
  The documented behaviour of \<open>writev\<close>: it fails with an error number and takes nothing, or it
  takes a prefix of the data of that length, at most \<open>0x7ffff000\<close> bytes (so below \<open>2 ^ 31\<close>).
  \<open>sent\<close> observes, in the kernel state, what a descriptor number has taken so far.
\<close>

definition writev_contract :: "'k kernel \<Rightarrow> ('k \<Rightarrow> int \<Rightarrow> bytes) \<Rightarrow> bool" where
  "writev_contract K sent \<longleftrightarrow> (\<forall>fd iov k.
     (case k_writev K fd iov k of (r, e, _, k') \<Rightarrow>
        (r = -1 \<and> e \<noteq> 0 \<and> sent k' = sent k)
      \<or> (0 \<le> r \<and> r \<le> int (length (concat (map iov_base iov))) \<and> r < 2 ^ 31
          \<and> sent k' = (sent k)(fd := sent k fd @ take (nat r) (concat (map iov_base iov))))))"

text \<open>A kernel on which \<open>writev\<close> never fails and always takes something of a non-empty buffer.\<close>

definition writev_progress :: "'k kernel \<Rightarrow> bool" where
  "writev_progress K \<longleftrightarrow> (\<forall>fd iov k. fst (k_writev K fd iov k) \<ge> 0
     \<and> (concat (map iov_base iov) \<noteq> [] \<longrightarrow> fst (k_writev K fd iov k) > 0))"

lemma writev_progressD:
  assumes "writev_progress K" and "k_writev K fd iov k = (r, e, x, k')"
  shows "0 \<le> r" and "concat (map iov_base iov) \<noteq> [] \<Longrightarrow> 0 < r"
  using assms unfolding writev_progress_def by (metis fst_conv)+

lemma iov_base_views [simp]: "map iov_base (viewlist_as_iovecs vs) = vs"
  by (simp add: viewlist_as_iovecs_eq comp_def)

lemma fd_write_step_contract:
  assumes con: "writev_contract K sent" and obj: "heap w a = Some obj"
    and small: "length (concat vs) < 2 ^ 63"
  shows "(\<exists>e w'. fd_write_step K a vs w = (Throw e, w') \<and> sent (kern w') = sent (kern w)
        \<and> \<not> writev_progress K)
    \<or> (\<exists>n ws w'. fd_write_step K a vs w = (Ok (n, ws), w') \<and> unat n \<le> length (concat vs)
        \<and> concat ws = drop (unat n) (concat vs)
        \<and> (unat n = 0 \<longrightarrow> concat vs = [])
        \<and> sent (kern w') = (sent (kern w))(w_fd obj := sent (kern w) (w_fd obj) @ take (unat n) (concat vs))
        \<and> heap w' = (heap w)(a \<mapsto> obj\<lparr>w_write_count := w_write_count obj + 1\<rparr>)
        \<and> refs w' = refs w \<and> cout w' = cout w)"
proof -
  let ?d = "concat vs" and ?iov = "viewlist_as_iovecs vs"
  obtain r e k where call: "k_writev K (w_fd obj) ?iov (kern w) = (r, e, (), k)"
    by (metis prod_cases4 old.unit.exhaust)
  have vs: "viewlist_ok vs" using small by (simp add: viewlist_ok_def)
  have size: "viewlist_size vs = csize ?d" "sint (csize ?d) = int (length ?d)"
      "csize ?d = 0 \<longleftrightarrow> ?d = []"
    using small by (simp_all add: viewlist_size_eq sint_csize csize_eq_0_iff)
  from con call consider
      (fail) "r = -1" "e \<noteq> 0" "sent k = sent (kern w)"
    | (ok) "0 \<le> r" "r \<le> int (length ?d)" "r < 2 ^ 31"
        "sent k = (sent (kern w))(w_fd obj := sent (kern w) (w_fd obj) @ take (nat r) ?d)"
    unfolding writev_contract_def by (auto dest!: spec [of _ "w_fd obj"] spec [of _ ?iov] spec [of _ "kern w"])
  then show ?thesis
  proof cases
    case fail
    then have "sys ''writev'' (k_writev K (w_fd obj) ?iov) w
        = (Throw (unix_error ''writev'' e), w\<lparr>kern := k, errno := e\<rparr>)"
      by (intro sys_fail [where f = "k_writev K (w_fd obj) ?iov" and w = w, OF call]) simp_all
    then have "fd_write_step K a vs w = (Throw (unix_error ''writev'' e), w\<lparr>kern := k, errno := e\<rparr>)"
      using obj by (simp add: fd_write_step_def Let_def prog_simps fd_simps)
    moreover have "\<not> writev_progress K" using writev_progressD(1) [OF _ call] fail(1) by auto
    ultimately show ?thesis using fail by auto
  next
    case ok
    let ?n = "word_of_int r :: size_t"
    have n: "unat ?n = nat r"
      using ok small by (simp add: unsigned_of_int take_bit_int_eq_self)
    have sys: "sys ''writev'' (k_writev K (w_fd obj) ?iov) w = (Ok (r, ()), w\<lparr>kern := k\<rparr>)"
      using ok by (intro sys_Ok [where f = "k_writev K (w_fd obj) ?iov" and w = w, OF call]) simp_all
    show ?thesis
    proof (cases "r = 0 \<and> ?d \<noteq> []")
      case True
      then have "fd_write_step K a vs w
          = (Throw (Runtime_error ''write returned 0 given non-empty input buffer''), w\<lparr>kern := k\<rparr>)"
        using obj sys size by (simp add: fd_write_step_def Let_def prog_simps fd_simps)
      moreover have "\<not> writev_progress K" using writev_progressD(2) [OF _ call] True by auto
      ultimately show ?thesis using ok True by auto
    next
      case False
      have le: "unat ?n \<le> length ?d" using n ok by simp
      from viewlist_remove_prefix_ok [OF vs le] obtain ws where
        ws: "viewlist_remove_prefix ?n vs = (Ok (), ws)" "concat ws = drop (unat ?n) ?d" by blast
      have "fd_write_step K a vs w = (Ok (?n, ws),
          w\<lparr>kern := k, heap := (heap w)(a \<mapsto> obj\<lparr>w_write_count := w_write_count obj + 1\<rparr>)\<rparr>)"
        using obj sys size ws False ok(2) by (auto simp: fd_write_step_def Let_def prog_simps fd_simps)
      with ws le n ok False show ?thesis by auto
    qed
  qed
qed

lemma csize_drop: "unat n \<le> length d \<Longrightarrow> csize d = n + csize (drop (unat n) d)"
  for n :: size_t
  by (simp add: csize_def of_nat_diff)

text \<open>How a writing loop may end, for a kernel on which a call that fails or takes nothing breaks progress.\<close>

definition write_ends :: "'k kernel \<Rightarrow> ('k \<Rightarrow> int \<Rightarrow> bytes) \<Rightarrow> fd_ref \<Rightarrow> fd_wrapper \<Rightarrow> bytes \<Rightarrow> size_t \<Rightarrow> 'k world
    \<Rightarrow> size_t outcome \<times> 'k world \<Rightarrow> bool" where
  "write_ends K sent a obj d n0 w z \<longleftrightarrow>
    (\<exists>w' c. z = (Ok (n0 + csize d), w')
       \<and> sent (kern w') = (sent (kern w))(w_fd obj := sent (kern w) (w_fd obj) @ d)
       \<and> heap w' = (heap w)(a \<mapsto> obj\<lparr>w_write_count := c\<rparr>) \<and> cout w' = cout w)
  \<or> (\<exists>e w' i. z = (Throw e, w') \<and> \<not> writev_progress K \<and> i \<le> length d
       \<and> sent (kern w') = (sent (kern w))(w_fd obj := sent (kern w) (w_fd obj) @ take i d))"

lemma write_ends_step:
  assumes n: "unat n \<le> length d"
    and w': "sent (kern w') = (sent (kern w))(w_fd obj := sent (kern w) (w_fd obj) @ take (unat n) d)"
      "heap w' = (heap w)(a \<mapsto> obj\<lparr>w_write_count := m\<rparr>)" "cout w' = cout w"
    and rest: "write_ends K sent a (obj\<lparr>w_write_count := m\<rparr>) (drop (unat n) d) (n0 + n) w' z"
  shows "write_ends K sent a obj d n0 w z"
  using rest unfolding write_ends_def [of K sent a "obj\<lparr>w_write_count := m\<rparr>"]
proof (elim disjE exE conjE)
  fix w2 c
  assume "z = (Ok (n0 + n + csize (drop (unat n) d)), w2)"
    "sent (kern w2) = (sent (kern w'))(w_fd (obj\<lparr>w_write_count := m\<rparr>) :=
       sent (kern w') (w_fd (obj\<lparr>w_write_count := m\<rparr>)) @ drop (unat n) d)"
    "heap w2 = (heap w')(a \<mapsto> obj\<lparr>w_write_count := m\<rparr>\<lparr>w_write_count := c\<rparr>)" "cout w2 = cout w'"
  with w' csize_drop [OF n] show ?thesis
    unfolding write_ends_def by (intro disjI1 exI [of _ w2] exI [of _ c]) (simp add: add.assoc)
next
  fix e w2 i
  assume "z = (Throw e, w2)" "\<not> writev_progress K" "i \<le> length (drop (unat n) d)"
    "sent (kern w2) = (sent (kern w'))(w_fd (obj\<lparr>w_write_count := m\<rparr>) :=
       sent (kern w') (w_fd (obj\<lparr>w_write_count := m\<rparr>)) @ take i (drop (unat n) d))"
  with w' n show ?thesis
    unfolding write_ends_def
    by (intro disjI2 exI [of _ e] exI [of _ w2] exI [of _ "unat n + i"]) (simp add: take_add)
qed

lemma fd_write_loop_ends:
  assumes con: "writev_contract K sent"
  shows "heap w a = Some obj \<Longrightarrow> length (concat vs) < 2 ^ 63 \<Longrightarrow>
    write_ends K sent a obj (concat vs) n0 w (fd_write_loop K a True n0 vs w)"
proof (induction "length (concat vs)" arbitrary: vs w obj n0 rule: less_induct)
  case less
  let ?d = "concat vs"
  note unfold = fd_write_loop.simps [of K a True n0 vs w]
  from fd_write_step_contract [OF con less.prems] show ?case
  proof (elim disjE exE conjE)
    fix e w'
    assume "fd_write_step K a vs w = (Throw e, w')" "sent (kern w') = sent (kern w)"
      "\<not> writev_progress K"
    then show ?thesis by (auto simp: unfold write_ends_def intro!: exI [of _ 0])
  next
    fix n ws w'
    let ?obj = "obj\<lparr>w_write_count := w_write_count obj + 1\<rparr>"
    assume st: "fd_write_step K a vs w = (Ok (n, ws), w')"
      and n: "unat n \<le> length ?d" "concat ws = drop (unat n) ?d" "unat n = 0 \<longrightarrow> ?d = []"
      and w': "sent (kern w') = (sent (kern w))(w_fd obj := sent (kern w) (w_fd obj) @ take (unat n) ?d)"
        "heap w' = (heap w)(a \<mapsto> ?obj)" "cout w' = cout w"
    have ws: "length (concat ws) < size_limit" using n(2) less.prems(2) by simp
    have size: "viewlist_size ws = 0 \<longleftrightarrow> drop (unat n) ?d = []"
      using csize_eq_0_iff [OF ws] by (simp only: viewlist_size_eq n(2))
    have "write_ends K sent a ?obj (drop (unat n) ?d) (n0 + n) w' (fd_write_loop K a True n0 vs w)"
    proof (cases "drop (unat n) ?d = []")
      case True
      with st size w'(2) show ?thesis by (auto simp: unfold write_ends_def)
    next
      case False
      then have "?d \<noteq> []" by (metis drop_Nil)
      then have "0 < unat n" using n(3) by auto
      then have shorter: "length (concat ws) < length ?d"
        using n(2) \<open>?d \<noteq> []\<close> by (metis diff_less length_drop length_greater_0_conv)
      have "heap w' a = Some ?obj" "length (concat ws) < 2 ^ 63" using shorter less.prems(2) by (simp_all add: w'(2))
      from less.hyps [OF shorter this, of "n0 + n"] st False size show ?thesis by (simp add: unfold n(2))
    qed
    then show ?thesis by (rule write_ends_step [OF n(1) w'])
  qed
qed

lemmas fd_write_loop_contract = fd_write_loop_ends [unfolded write_ends_def]

text \<open>Whatever \<open>writev\<close> keeps of the kernel state, \<open>write\<close> keeps.\<close>

lemma keeps_kern_fd [prog_intros]:
  "keeps (\<lambda>w. P (kern w)) (fd_num a)" "keeps (\<lambda>w. P (kern w)) (update_fd a f)"
  by (auto simp: keeps_def fd_num_def update_fd_def deref_def bindp_def prog_simps
      split: option.splits)

lemma keeps_kern_fd_write_step:
  assumes "\<And>n iov k. P k \<Longrightarrow> P (snd (snd (snd (k_writev K n iov k))))"
  shows "keeps (\<lambda>w. P (kern w)) (fd_write_step K a buffer)"
  unfolding fd_write_step_def Let_def register_write_def
  using assms by (intro prog_intros keeps_kern_sys) auto

lemma keeps_kern_fd_write_loop:
  assumes P: "\<And>n iov k. P k \<Longrightarrow> P (snd (snd (snd (k_writev K n iov k))))"
  shows "P (kern w) \<Longrightarrow> P (kern (snd (fd_write_loop K a write_all n buffer w)))"
  using P
proof (induction K a write_all n buffer w rule: fd_write_loop.induct)
  case (1 K a write_all n buffer w)
  obtain r w' where st: "fd_write_step K a buffer w = (r, w')" by fastforce
  have "P (kern w')"
    using keepsD [OF keeps_kern_fd_write_step [where P = P and K = K] _ st] "1.prems" by blast
  with 1 st show ?case
    by (auto simp: fd_write_loop.simps [of K a write_all n buffer w] split: outcome.splits)
qed

section \<open>Reading\<close>

text \<open>
  The documented behaviour of \<open>read\<close>: it fails with an error number and stores nothing, or it
  stores that many bytes, at most as many as asked for.
\<close>

definition read_contract :: "'k kernel \<Rightarrow> bool" where
  "read_contract K \<longleftrightarrow> (\<forall>fd n k.
     (case k_read K fd n k of (r, e, d, _) \<Rightarrow>
        (r = -1 \<and> e \<noteq> 0 \<and> d = []) \<or> (0 \<le> r \<and> r \<le> uint n \<and> int (length d) = r)))"

lemma on_world_apply [prog_simps]: "on_world m (w, s) = (fst (m w), (snd (m w), s))"
  and on_str_apply [prog_simps]: "on_str m' (w, s) = (fst (m' s), (w, snd (m' s)))"
  by (simp_all add: on_world_def on_str_def zoomp_def split: prod.splits)

lemma string_resize_Ok: "unat n < 2 ^ 63 \<Longrightarrow>
    string_resize n s = (Ok (), take (unat n) s @ replicate (unat n - length s) 0)"
  by (simp add: string_resize_def)

lemma unat_size_to_read: "unat (min BUFFER_SIZE limit) = min 1048576 (unat limit)"
  by (simp add: BUFFER_SIZE_def min_def word_le_nat_alt)

lemma fd_read_eq:
  assumes con: "read_contract K" and obj: "heap w a = Some obj"
    and call: "k_read K (w_fd obj) (min BUFFER_SIZE limit) (kern w) = (r, e, d, k)"
  shows "fd_read K a limit w =
    (if r < 0 then (Throw (unix_error ''read'' e), w\<lparr>kern := k, errno := e\<rparr>)
     else (Ok d, w\<lparr>kern := k,
       heap := (heap w)(a \<mapsto> obj\<lparr>w_eof := w_eof obj \<or> (limit > 0 \<and> d = []),
                              w_read_count := w_read_count obj + 1\<rparr>)\<rparr>))"
proof -
  let ?n = "min BUFFER_SIZE limit"
  have n: "unat ?n \<le> 1048576" by (simp add: unat_size_to_read)
  have un: "uint ?n = int (unat ?n)" by (simp only: uint_nat)
  have "uint ?n \<le> 1048576" unfolding un using n by linarith
  then have "uint ?n < 2 ^ 63" by simp
  moreover have "- (2 ^ 63) \<le> uint ?n" by (rule order_trans [of _ 0]) simp_all
  ultimately have sn: "sint ?n = uint ?n"
    by (subst sint_uint) (rule signed_take_bit_int_eq_self, simp_all)
  from con call consider (fail) "r = -1" "e \<noteq> 0" "d = []"
    | (ok) "0 \<le> r" "r \<le> uint ?n" "int (length d) = r"
    unfolding read_contract_def by (auto dest!: spec [of _ "w_fd obj"] spec [of _ ?n] spec [of _ "kern w"])
  then show ?thesis
  proof cases
    case fail
    have "c_int (-1) = -1" by (rule c_int_id) simp_all
    with fail n obj call show ?thesis
      by (simp add: fd_read_def fd_read_into_def Let_def prog_simps fd_simps string_resize_Ok
          invoke_def SystemCall_def store_data_def bindp_def)
  next
    case ok
    have le: "length d \<le> unat ?n" using ok(2,3) unfolding un by linarith
    with n ok(3) have "r \<le> 1048576" by linarith
    then have r: "c_int r = r" using ok(1) by (intro c_int_id) simp_all
    have "word_of_int r = csize d" using ok(3) by (simp add: csize_def flip: ok(3))
    then have wr: "unat (word_of_int r :: size_t) = length d"
      using le n by (simp add: unat_csize)
    have nil: "r = 0 \<longleftrightarrow> d = []" using ok(3) by auto
    have nr: "\<not> sint ?n < r" unfolding sn using ok(2) by simp
    moreover have "unat ?n < 2 ^ 63" "unat (word_of_int r :: size_t) < 2 ^ 63"
      using n wr le by simp_all
    moreover have "\<not> r < 0" using ok(1) by simp
    ultimately show ?thesis
      using obj call r wr le ok(1)
      by (auto simp: fd_read_def fd_read_into_def Let_def prog_simps fd_simps string_resize_Ok
          invoke_def SystemCall_def store_data_def nil)
  qed
qed

section \<open>What an operation on a handle leaves alone\<close>

text \<open>
  No operation changes the descriptor number of an object or clears its flags, and a descriptor
  marked closed is also marked as being at the end of file.
\<close>

definition obj_le :: "fd_wrapper \<Rightarrow> fd_wrapper \<Rightarrow> bool" where
  "obj_le x y \<longleftrightarrow> w_fd y = w_fd x \<and> (w_eof x \<longrightarrow> w_eof y) \<and> (w_closed x \<longrightarrow> w_closed y)
     \<and> (w_closed y \<longrightarrow> w_closed x \<or> w_eof y)"

definition fd_le :: "'k world \<Rightarrow> 'k world \<Rightarrow> bool" where
  "fd_le w0 w \<longleftrightarrow> refs w = refs w0 \<and> next_ref w = next_ref w0
     \<and> (\<forall>b. rel_option obj_le (heap w0 b) (heap w b))"

lemma obj_le_refl [simp]: "obj_le x x"
  by (simp add: obj_le_def)

lemma fd_le_refl [simp]: "fd_le w w"
  by (simp add: fd_le_def option.rel_refl)

lemma fd_le_kern [simp]: "fd_le w0 (w\<lparr>kern := k\<rparr>) = fd_le w0 w"
  and fd_le_errno [simp]: "fd_le w0 (w\<lparr>errno := e\<rparr>) = fd_le w0 w"
  and fd_le_cerr [simp]: "fd_le w0 (w\<lparr>cerr := out\<rparr>) = fd_le w0 w"
  by (simp_all add: fd_le_def)

lemma fd_le_heap: "fd_le w0 w \<Longrightarrow> heap w0 a = Some x \<Longrightarrow> \<exists>y. heap w a = Some y \<and> obj_le x y"
  unfolding fd_le_def by (metis option_rel_Some1)

lemma fd_le_upd:
  "fd_le w0 w \<Longrightarrow> heap w0 a = Some x \<Longrightarrow> obj_le x z \<Longrightarrow> fd_le w0 (w\<lparr>heap := (heap w)(a \<mapsto> z)\<rparr>)"
  by (simp add: fd_le_def)

lemma safe_update_fd [prog_intros]:
  assumes "heap w0 a = Some x" and "\<And>y. obj_le x y \<Longrightarrow> obj_le x (f y)"
  shows "safe (fd_le w0) (update_fd a f)"
  unfolding safe_def
proof (intro allI impI)
  fix w
  assume le: "fd_le w0 w"
  from fd_le_heap [OF le assms(1)] obtain y where "heap w a = Some y" "obj_le x y" by blast
  with assms le show "fst (update_fd a f w) \<noteq> UB \<and> fd_le w0 (snd (update_fd a f w))"
    by (simp add: fd_simps fd_le_upd)
qed

lemma safe_deref [prog_intros]: "heap w0 a = Some x \<Longrightarrow> safe (fd_le w0) (deref a)"
  unfolding safe_def by (metis deref_Some fd_le_heap fst_conv outcome.distinct(3) snd_conv)

lemma safe_fd_num [prog_intros]: "heap w0 a = Some x \<Longrightarrow> safe (fd_le w0) (fd_num a)"
  unfolding fd_num_def by (intro prog_intros)

lemma safe_register [prog_intros]:
  "heap w0 a = Some x \<Longrightarrow> safe (fd_le w0) (register_read a)"
  "heap w0 a = Some x \<Longrightarrow> safe (fd_le w0) (register_write a)"
  unfolding register_read_def register_write_def
  by (rule safe_update_fd, assumption, simp add: obj_le_def)+

lemma safe_FDWrapper_close [prog_intros]:
  assumes "heap w0 a = Some x"
  shows "safe (fd_le w0) (FDWrapper_close K a)"
  unfolding FDWrapper_close_def
  using assms by (intro prog_intros) (auto simp: obj_le_def)

lemma safe_FDWrapper_destructor [prog_intros]:
  "heap w0 a = Some x \<Longrightarrow> safe (fd_le w0) (FDWrapper_destructor K a)"
  unfolding FDWrapper_destructor_def by (intro prog_intros) simp_all

lemma safe_fd_write_step:
  assumes "heap w0 a = Some x"
  shows "safe (fd_le w0) (fd_write_step K a buffer)"
proof -
  have "fst (viewlist_remove_prefix n vs) \<noteq> UB" for n vs
    by (induction n vs rule: viewlist_remove_prefix.induct) auto
  then show ?thesis
    unfolding fd_write_step_def Let_def using assms by (intro prog_intros) auto
qed

lemma safe_fd_write_loop:
  assumes x: "heap w0 a = Some x"
  shows "fd_le w0 w \<Longrightarrow>
    fst (fd_write_loop K a write_all n buffer w) \<noteq> UB \<and> fd_le w0 (snd (fd_write_loop K a write_all n buffer w))"
  using x
proof (induction K a write_all n buffer w rule: fd_write_loop.induct)
  case (1 K a write_all n buffer w)
  obtain r w' where st: "fd_write_step K a buffer w = (r, w')" by fastforce
  from safeD [OF safe_fd_write_step [OF "1.prems"(2)] "1.prems"(1) st]
  have le: "r \<noteq> UB" "fd_le w0 w'" by simp_all
  note unfold = fd_write_loop.simps [of K a write_all n buffer w]
  show ?case
  proof (cases r)
    case (Ok z)
    obtain m ws where z: "z = (m, ws)" by fastforce
    show ?thesis
    proof (cases "write_all \<and> viewlist_size ws \<noteq> 0")
      case True
      then have "fd_write_loop K a write_all n buffer w = fd_write_loop K a write_all (n + m) ws w'"
        unfolding unfold using st Ok z by simp
      moreover have "fst (fd_write_loop K a write_all (n + m) ws w') \<noteq> UB
          \<and> fd_le w0 (snd (fd_write_loop K a write_all (n + m) ws w'))"
        using "1.IH" [OF _ _ _ True le(2) "1.prems"(2)] st Ok z by simp
      ultimately show ?thesis by simp
    next
      case False
      with st Ok z le show ?thesis by (auto simp: unfold)
    qed
  qed (use st le in \<open>simp_all add: unfold\<close>)
qed

lemma safe_fd_write [prog_intros]:
  "heap w0 a = Some x \<Longrightarrow> safe (fd_le w0) (fd_write K a buffer write_all)"
  by (simp add: safe_def fd_write_def safe_fd_write_loop)

lemma safe_fd_set_blocking [prog_intros]:
  "heap w0 a = Some x \<Longrightarrow> safe (fd_le w0) (fd_set_blocking K a b)"
  unfolding fd_set_blocking_def Let_def by (intro prog_intros) simp_all

lemma safe_fd_read [prog_intros]:
  assumes con: "read_contract K" and x: "heap w0 a = Some x"
  shows "safe (fd_le w0) (fd_read K a limit)"
  unfolding safe_def
proof (intro allI impI)
  fix w
  assume le: "fd_le w0 w"
  from fd_le_heap [OF le x] obtain y where y: "heap w a = Some y" "obj_le x y" by blast
  obtain r e d k where call: "k_read K (w_fd y) (min BUFFER_SIZE limit) (kern w) = (r, e, d, k)"
    by (metis prod_cases4)
  have "obj_le x (y\<lparr>w_eof := w_eof y \<or> b, w_read_count := c\<rparr>)" for b c
    using y(2) by (auto simp: obj_le_def)
  then show "fst (fd_read K a limit w) \<noteq> UB \<and> fd_le w0 (snd (fd_read K a limit w))"
    using le x fd_le_upd [OF le x] by (simp add: fd_read_eq [OF con y(1) call] fd_le_def)
qed

section \<open>The life cycle of a descriptor\<close>

text \<open>
  What a program can do with handles. \<open>legal\<close> is what C++ asks of it: every handle it uses is
  one that it holds (the object still has a reference). \<open>fd_reachable\<close> are the states of a process
  that starts with no descriptors and makes legal calls only, however each of them ends.
\<close>

datatype fd_call =
    Open_fd int
  | Duplicate fd_ref
  | Destroy fd_ref
  | Close_fd fd_ref
  | Read_fd fd_ref size_t
  | Write_fd fd_ref buffer_view_list bool
  | Set_blocking fd_ref bool

fun fd_exec :: "'k kernel \<Rightarrow> fd_call \<Rightarrow> ('k world, unit) prog" where
  "fd_exec K (Open_fd fd) = thenp (FileDescriptor fd) (retp ())"
| "fd_exec K (Duplicate a) = thenp (fd_duplicate a) (retp ())"
| "fd_exec K (Destroy a) = fd_destroy K a"
| "fd_exec K (Close_fd a) = fd_close K a"
| "fd_exec K (Read_fd a limit) = thenp (fd_read K a limit) (retp ())"
| "fd_exec K (Write_fd a vs write_all) = thenp (fd_write K a vs write_all) (retp ())"
| "fd_exec K (Set_blocking a b) = fd_set_blocking K a b"

fun legal :: "'k world \<Rightarrow> fd_call \<Rightarrow> bool" where
  "legal w (Open_fd fd) \<longleftrightarrow> True"
| "legal w (Duplicate a) \<longleftrightarrow> refs w a > 0"
| "legal w (Destroy a) \<longleftrightarrow> refs w a > 0"
| "legal w (Close_fd a) \<longleftrightarrow> refs w a > 0"
| "legal w (Read_fd a limit) \<longleftrightarrow> refs w a > 0"
| "legal w (Write_fd a vs write_all) \<longleftrightarrow> refs w a > 0"
| "legal w (Set_blocking a b) \<longleftrightarrow> refs w a > 0"

inductive fd_reachable :: "'k kernel \<Rightarrow> 'k world \<Rightarrow> bool" for K where
  start: "fd_reachable K (new_world k)"
| step: "fd_reachable K w \<Longrightarrow> legal w c \<Longrightarrow> fd_exec K c w = (r, w') \<Longrightarrow> fd_reachable K w'"

text \<open>
  The invariant: an object is in the heap exactly while it has references, addresses not given
  out yet are free, descriptor numbers are not negative, and closed objects are at end of file.
\<close>

definition fd_inv :: "'k world \<Rightarrow> bool" where
  "fd_inv w \<longleftrightarrow> (\<forall>a. (heap w a \<noteq> None) = (refs w a > 0)) \<and> (\<forall>a \<ge> next_ref w. refs w a = 0)
     \<and> (\<forall>a obj. heap w a = Some obj \<longrightarrow> 0 \<le> w_fd obj \<and> (w_closed obj \<longrightarrow> w_eof obj))"

lemma fd_invD:
  "fd_inv w \<Longrightarrow> refs w a > 0 \<Longrightarrow> \<exists>obj. heap w a = Some obj"
  by (auto simp: fd_inv_def)

lemma fd_inv_fresh: "fd_inv w \<Longrightarrow> heap w (next_ref w) = None \<and> refs w (next_ref w) = 0"
  unfolding fd_inv_def by (metis less_irrefl order_refl)

lemma fd_inv_start: "fd_inv (new_world k)"
  by (simp add: fd_inv_def)

lemma fd_inv_le:
  assumes inv: "fd_inv w" and le: "fd_le w w'"
  shows "fd_inv w'"
proof -
  have heap: "rel_option obj_le (heap w a) (heap w' a)" for a
    using le by (simp add: fd_le_def)
  then have none: "heap w' a = None \<longleftrightarrow> heap w a = None" for a
    by (metis option.rel_sel)
  have "0 \<le> w_fd y \<and> (w_closed y \<longrightarrow> w_eof y)" if "heap w' a = Some y" for a y
  proof -
    from heap [of a] that obtain x where "heap w a = Some x" "obj_le x y"
      by (metis option_rel_Some2)
    with inv show ?thesis by (auto simp: fd_inv_def obj_le_def)
  qed
  with inv le none show ?thesis by (simp add: fd_inv_def fd_le_def)
qed

lemma safe_fd_le:
  "safe (fd_le w) m \<Longrightarrow> fd_inv w \<Longrightarrow> m w = (r, w') \<Longrightarrow> r \<noteq> UB \<and> fd_inv w'"
  by (metis fd_inv_le fd_le_refl safeD)

lemma FileDescriptor_eq:
  "FileDescriptor fd w =
     (if fd < 0 then (Throw (Runtime_error (''invalid fd number:'' @ int_to_string fd)), w)
      else (Ok (next_ref w), w\<lparr>heap := (heap w)(next_ref w \<mapsto> \<lparr>w_fd = fd, w_eof = False,
        w_closed = False, w_read_count = 0, w_write_count = 0\<rparr>),
        refs := (refs w)(next_ref w := 1), next_ref := next_ref w + 1\<rparr>))"
  by (simp add: FileDescriptor_def FDWrapper_def prog_simps)

lemma fd_inv_open:
  "fd_inv w \<Longrightarrow> FileDescriptor fd w = (r, w') \<Longrightarrow> r \<noteq> UB \<and> fd_inv w'"
  by (auto simp: FileDescriptor_eq fd_inv_def split: if_splits)

text \<open>The destructor of a handle, in full.\<close>

lemma fd_destroy_shared:
  "heap w a = Some obj \<Longrightarrow> refs w a = Suc (Suc n) \<Longrightarrow>
   fd_destroy K a w = (Ok (), w\<lparr>refs := (refs w)(a := Suc n)\<rparr>)"
  by (simp add: fd_destroy_def prog_simps)

lemma fd_destroy_last_closed:
  "heap w a = Some obj \<Longrightarrow> refs w a = 1 \<Longrightarrow> w_closed obj \<Longrightarrow>
   fd_destroy K a w = (Ok (), w\<lparr>refs := (refs w)(a := 0), heap := (heap w)(a := None)\<rparr>)"
  by (simp add: fd_destroy_def FDWrapper_destructor_def prog_simps fd_simps)

lemma fd_destroy_last_open:
  assumes obj: "heap w a = Some obj" "refs w a = 1" "\<not> w_closed obj"
    and call: "k_close K (w_fd obj) (kern w) = (r, e, (), k)"
  shows "\<exists>e'. fd_destroy K a w = (Ok (), w\<lparr>refs := (refs w)(a := 0), heap := (heap w)(a := None),
      kern := k, errno := e', cerr := cerr w @
        (if c_int r \<ge> 0 \<or> e' = 0 then []
         else [(''Exception destructing FDWrapper: '', Some (unix_error ''close'' e'))])\<rparr>)"
proof -
  let ?w = "w\<lparr>refs := (refs w)(a := 0)\<rparr>"
  have "k_close K (w_fd obj) (kern ?w) = (r, e, (), k)" using call by simp
  note sys = sys_eq [of "k_close K (w_fd obj)" ?w, OF this, of "''close''", unfolded Let_def]
  show ?thesis
    using obj sys
    by (cases "c_int r \<ge> 0 \<or> (if r < 0 then e else errno w) = 0")
      (auto simp: fd_destroy_def FDWrapper_destructor_def FDWrapper_close_def prog_simps fd_simps
        intro!: exI [of _ "if r < 0 then e else errno w"])
qed

lemma fd_destroy_frees:
  assumes obj: "heap w a = Some obj" and n: "refs w a = 1"
  obtains w' where "fd_destroy K a w = (Ok (), w')" "heap w' = (heap w)(a := None)"
    "refs w' = (refs w)(a := 0)" "next_ref w' = next_ref w"
proof (cases "w_closed obj")
  case True
  show thesis by (rule that [OF fd_destroy_last_closed [OF obj n True]]) simp_all
next
  case False
  obtain r e k where call: "k_close K (w_fd obj) (kern w) = (r, e, (), k)"
    by (metis prod_cases4 old.unit.exhaust)
  from fd_destroy_last_open [OF obj n False call] show thesis
    by (elim exE) (rule that, assumption, simp_all)
qed

lemma fd_destroy_effect:
  assumes inv: "fd_inv w" and r: "refs w a > 0"
  shows "\<exists>w'. fd_destroy K a w = (Ok (), w') \<and> fd_inv w' \<and> refs w' = (refs w)(a := refs w a - 1)
    \<and> (\<forall>b. refs w' b > 0 \<longrightarrow> heap w' b = heap w b)"
proof -
  from fd_invD [OF inv r] obtain obj where obj: "heap w a = Some obj" by blast
  show ?thesis
  proof (cases "refs w a = 1")
    case True
    obtain w' where "fd_destroy K a w = (Ok (), w')" "heap w' = (heap w)(a := None)"
      "refs w' = (refs w)(a := 0)" "next_ref w' = next_ref w"
      by (rule fd_destroy_frees [OF obj True])
    with inv True show ?thesis by (auto simp: fd_inv_def)
  next
    case False
    with r obtain n where "refs w a = Suc (Suc n)" by (metis One_nat_def gr0_implies_Suc not0_implies_Suc)
    from fd_destroy_shared [OF obj this] this inv show ?thesis by (auto simp: fd_inv_def)
  qed
qed

lemma fd_inv_destroy:
  "fd_inv w \<Longrightarrow> refs w a > 0 \<Longrightarrow> \<exists>w'. fd_destroy K a w = (Ok (), w') \<and> fd_inv w'"
  using fd_destroy_effect by blast

lemma thenp_retp_cases:
  assumes "thenp m (retp ()) w = (r, w')"
  obtains q where "m w = (q, w')" "r = UB \<longleftrightarrow> q = UB"
  using assms by (cases "m w") (auto simp: bindp_def prog_simps split: outcome.splits)

text \<open>Every legal call keeps the invariant and has no undefined behaviour.\<close>

lemma fd_exec_safe:
  assumes con: "read_contract K" and inv: "fd_inv w" and legal: "legal w c"
    and run: "fd_exec K c w = (r, w')"
  shows "r \<noteq> UB \<and> fd_inv w'"
proof (cases c)
  case (Open_fd fd)
  with run fd_inv_open [OF inv] show ?thesis by (auto elim!: thenp_retp_cases)
next
  case (Duplicate a)
  with legal have pos: "refs w a > 0" by simp
  with fd_invD [OF inv] obtain obj where "heap w a = Some obj" by blast
  with Duplicate run have "r = Ok ()" "w' = w\<lparr>refs := (refs w)(a := refs w a + 1)\<rparr>"
    by (auto simp: fd_duplicate_def prog_simps fd_simps bindp_assoc)
  with inv pos show ?thesis by (fastforce simp: fd_inv_def)
next
  case (Destroy a)
  with legal run fd_inv_destroy [OF inv, of a K] show ?thesis by auto
next
  case (Close_fd a)
  with legal fd_invD [OF inv] obtain obj where "heap w a = Some obj" by auto
  from safe_fd_le [OF safe_FDWrapper_close [OF this] inv] Close_fd run show ?thesis
    by (simp add: fd_close_def)
next
  case (Read_fd a limit)
  with legal fd_invD [OF inv] obtain obj where obj: "heap w a = Some obj" by auto
  from run [unfolded Read_fd fd_exec.simps] obtain q where q: "fd_read K a limit w = (q, w')" "r = UB \<longleftrightarrow> q = UB"
    by (rule thenp_retp_cases)
  from safe_fd_le [OF safe_fd_read [OF con obj] inv q(1)] q(2) show ?thesis by simp
next
  case (Write_fd a vs write_all)
  with legal fd_invD [OF inv] obtain obj where obj: "heap w a = Some obj" by auto
  from run [unfolded Write_fd fd_exec.simps] obtain q where q: "fd_write K a vs write_all w = (q, w')" "r = UB \<longleftrightarrow> q = UB"
    by (rule thenp_retp_cases)
  from safe_fd_le [OF safe_fd_write [OF obj] inv q(1)] q(2) show ?thesis by simp
next
  case (Set_blocking a b)
  with legal fd_invD [OF inv] obtain obj where "heap w a = Some obj" by auto
  from safe_fd_le [OF safe_fd_set_blocking [OF this] inv] Set_blocking run show ?thesis
    by simp
qed

lemma fd_reachable_inv: "read_contract K \<Longrightarrow> fd_reachable K w \<Longrightarrow> fd_inv w"
  by (rotate_tac, induction rule: fd_reachable.induct) (auto simp: fd_inv_start dest: fd_exec_safe)

section \<open>Blocking mode\<close>

lemma bit_O_NONBLOCK: "bit O_NONBLOCK n \<longleftrightarrow> n = 11"
proof -
  have "O_NONBLOCK = push_bit 11 1" by (simp add: O_NONBLOCK_def)
  moreover have "bit (push_bit 11 (1 :: u32)) n \<longleftrightarrow> n = 11" by (simp only: bit_simps) auto
  ultimately show ?thesis by simp
qed

lemma bit_sint_flags: "bit (sint (x :: u32)) n = bit x (min n 31)"
  using bit_imp_le_length [of x n] by (auto simp: bit_sint_iff min_def not_less_eq_eq)

text \<open>
  \<open>set_blocking\<close> changes only \<open>O_NONBLOCK\<close>: it writes back the file status flags it read
  with bit 11 cleared (blocking) or set (non-blocking) and every other bit as it was, in exactly
  one \<open>F_SETFL\<close> call.
\<close>

lemma fd_set_blocking_only_nonblock:
  assumes obj: "heap w a = Some obj"
    and getfl: "k_getfl K (w_fd obj) (kern w) = (flags, e, (), k)" and "0 \<le> flags" and "flags < 2 ^ 31"
  shows "\<exists>flags'. (\<forall>n. bit flags' n = (if n = 11 then \<not> blocking_state else bit flags n))
    \<and> fd_set_blocking K a blocking_state w
        = thenp (sys ''fcntl'' (k_setfl K (w_fd obj) flags')) (retp ()) (w\<lparr>kern := k\<rparr>)"
proof -
  let ?x = "word_of_int flags :: u32"
  let ?y = "if blocking_state then ?x XOR (?x AND O_NONBLOCK) else ?x OR O_NONBLOCK"
  have sint: "sint ?x = flags" using assms(3,4) by (simp add: signed_of_int signed_take_bit_int_eq_self)
  have "bit ?y n = (if n = 11 then \<not> blocking_state else bit ?x n)" for n
    by (auto simp: bit_simps bit_O_NONBLOCK)
  then have "bit (sint ?y) n = (if n = 11 then \<not> blocking_state else bit flags n)" for n
    by (subst bit_sint_flags, subst sint [symmetric], subst bit_sint_flags) auto
  moreover have "sys ''fcntl'' (k_getfl K (w_fd obj)) w = (Ok (flags, ()), w\<lparr>kern := k\<rparr>)"
    using assms(3,4) by (intro sys_Ok [where f = "k_getfl K (w_fd obj)" and w = w, OF getfl]) simp_all
  then have "fd_set_blocking K a blocking_state w
      = thenp (sys ''fcntl'' (k_setfl K (w_fd obj) (sint ?y))) (retp ()) (w\<lparr>kern := k\<rparr>)"
    using obj by (simp add: fd_set_blocking_def Let_def prog_simps fd_simps cong: if_cong)
  ultimately show ?thesis by blast
qed

section \<open>Properties\<close>

text \<open>
  C17. Writing a whole buffer: on a kernel that keeps the contract of \<open>writev\<close> (short writes
  allowed), \<open>write(buffer, true)\<close> on a live descriptor either returns the size of the buffer, with
  exactly its bytes appended in order to what the descriptor took before, or it throws with a
  prefix sent; it has no undefined behaviour and does not loop for ever. It throws only if the
  kernel fails a call or takes nothing of a non-empty buffer.
\<close>

theorem fd_write_all_delivers:
  assumes "writev_contract K sent" and "heap w a = Some obj" and "length (concat buffer) < 2 ^ 63"
  shows "(\<exists>w' c. fd_write K a buffer True w = (Ok (csize (concat buffer)), w')
       \<and> sent (kern w') = (sent (kern w))(w_fd obj := sent (kern w) (w_fd obj) @ concat buffer)
       \<and> heap w' = (heap w)(a \<mapsto> obj\<lparr>w_write_count := c\<rparr>) \<and> cout w' = cout w)
  \<or> (\<exists>e w' i. fd_write K a buffer True w = (Throw e, w') \<and> \<not> writev_progress K
       \<and> i \<le> length (concat buffer)
       \<and> sent (kern w') = (sent (kern w))(w_fd obj := sent (kern w) (w_fd obj) @ take i (concat buffer)))"
  using fd_write_loop_contract [OF assms, of 0] by (simp add: fd_write_def)

text \<open>A kernel that takes at most three bytes in a call, and a process with descriptor 1 open.\<close>

definition three_byte_kernel :: "(int \<Rightarrow> bytes) kernel" where
  "three_byte_kernel = (failing_kernel 9)\<lparr>k_writev := (\<lambda>fd iov k.
     let d = concat (map iov_base iov)
     in (int (min 3 (length d)), 0, (), k(fd := k fd @ take 3 d)))\<rparr>"

definition open_world :: "'k \<Rightarrow> int \<Rightarrow> 'k world" where
  "open_world k fd = snd (FileDescriptor fd (new_world k))"

lemma open_world_simps [simp]:
  "0 \<le> fd \<Longrightarrow> heap (open_world k fd) 0 =
     Some \<lparr>w_fd = fd, w_eof = False, w_closed = False, w_read_count = 0, w_write_count = 0\<rparr>"
  "kern (open_world k fd) = k"
  "0 \<le> fd \<Longrightarrow> refs (open_world k fd) 0 = 1"
  by (simp_all add: open_world_def FileDescriptor_eq)

lemma three_byte_contract: "writev_contract three_byte_kernel id"
  and three_byte_progress: "writev_progress three_byte_kernel"
  by (auto simp: writev_contract_def writev_progress_def three_byte_kernel_def Let_def min_def)

theorem fd_write_all_delivers_witness:
  "\<exists>w'. fd_write three_byte_kernel 0 [[1, 2], [], [3, 4, 5, 6, 7]] True (open_world (\<lambda>_. [9]) 1)
          = (Ok 7, w') \<and> kern w' = (\<lambda>fd. if fd = 1 then [9, 1, 2, 3, 4, 5, 6, 7] else [9])"
  using fd_write_all_delivers [OF three_byte_contract, of "open_world (\<lambda>_. [9]) 1" 0 _
      "[[1, 2], [], [3, 4, 5, 6, 7]]", OF open_world_simps(1)] three_byte_progress
  by (fastforce simp: csize_def fun_eq_iff)

text \<open>
  C18. \<open>read\<close> on a live descriptor, for a kernel that keeps the contract of \<open>read\<close>: it asks for at
  most a mebibyte, returns exactly the bytes the kernel stored, never more than the limit, counts
  the read, and sets the end-of-file flag exactly if bytes were asked for and none came; if the
  kernel fails it throws the error and leaves the shared object alone.
\<close>

theorem fd_read_spec:
  assumes "read_contract K" and "heap w a = Some obj"
    and "k_read K (w_fd obj) (min BUFFER_SIZE limit) (kern w) = (r, e, d, k)"
  shows "fd_read K a limit w =
      (if r < 0 then (Throw (unix_error ''read'' e), w\<lparr>kern := k, errno := e\<rparr>)
       else (Ok d, w\<lparr>kern := k,
         heap := (heap w)(a \<mapsto> obj\<lparr>w_eof := w_eof obj \<or> (limit > 0 \<and> d = []),
                                w_read_count := w_read_count obj + 1\<rparr>)\<rparr>))
    \<and> length d \<le> min (1024 * 1024) (unat limit)"
proof (rule conjI [rotated])
  have "case k_read K (w_fd obj) (min BUFFER_SIZE limit) (kern w) of (r, e, d, _) \<Rightarrow>
      (r = -1 \<and> e \<noteq> 0 \<and> d = [])
    \<or> (0 \<le> r \<and> r \<le> uint (min BUFFER_SIZE limit) \<and> int (length d) = r)"
    by (rule assms(1) [unfolded read_contract_def, THEN spec, THEN spec, THEN spec])
  then have "int (length d) \<le> uint (min BUFFER_SIZE limit)" using assms(3) by auto
  then have "length d \<le> unat (min BUFFER_SIZE limit)" by (simp only: int_le_uint)
  then show "length d \<le> min (1024 * 1024) (unat limit)" by (simp add: unat_size_to_read)
qed (rule fd_read_eq [OF assms])

definition three_byte_reader :: "bytes kernel" where
  "three_byte_reader = (failing_kernel 9)\<lparr>k_read := (\<lambda>fd n k.
     let d = take (min 3 (unat n)) k in (int (length d), 0, d, drop (length d) k))\<rparr>"

lemma three_byte_reader_contract: "read_contract three_byte_reader"
  by (simp add: read_contract_def three_byte_reader_def Let_def min_def size_simps)

theorem fd_read_spec_witness:
  "\<exists>w'. fd_read three_byte_reader 0 2 (open_world [7, 8, 9] 5) = (Ok [7, 8], w') \<and> kern w' = [9]"
  using fd_read_spec [OF three_byte_reader_contract open_world_simps(1), of 5 2 "[7, 8, 9]" 2 0 "[7, 8]" "[9]"]
  by (simp add: three_byte_reader_def BUFFER_SIZE_def Let_def)

text \<open>
  C19. The descriptor is closed by its last handle, and only then: destroying a handle while
  others remain changes nothing but the reference count; destroying the last one frees the object
  and calls \<open>close\<close> on its descriptor number exactly once if it was not closed before, and not at
  all if it was. It never throws: a failing \<open>close\<close> is reported on \<open>cerr\<close>.
\<close>

theorem fd_destroy_closes_once:
  assumes obj: "heap w a = Some obj" and n: "refs w a = Suc n"
    and call: "k_close K (w_fd obj) (kern w) = (r, e, (), k)"
    and "- (2 ^ 31) \<le> r" and "r < 2 ^ 31" and "r < 0 \<longrightarrow> e \<noteq> 0"
  shows "fd_destroy K a w =
    (Ok (),
     if n > 0 then w\<lparr>refs := (refs w)(a := n)\<rparr>
     else if w_closed obj then w\<lparr>refs := (refs w)(a := 0), heap := (heap w)(a := None)\<rparr>
     else w\<lparr>refs := (refs w)(a := 0), heap := (heap w)(a := None), kern := k,
       errno := (if r < 0 then e else errno w),
       cerr := cerr w @ (if r < 0 then [(''Exception destructing FDWrapper: '', Some (unix_error ''close'' e))] else [])\<rparr>)"
proof -
  let ?w = "w\<lparr>refs := (refs w)(a := 0)\<rparr>"
  have call': "k_close K (w_fd obj) (kern ?w) = (r, e, (), k)" using call by simp
  have "c_int r = r" using assms(4,5) by (rule c_int_id)
  with sys_eq [of "k_close K (w_fd obj)" ?w, OF call', of "''close''"] assms(6)
  have sys: "sys ''close'' (k_close K (w_fd obj)) ?w =
      (if r < 0 then (Throw (unix_error ''close'' e), ?w\<lparr>kern := k, errno := e\<rparr>)
       else (Ok (r, ()), ?w\<lparr>kern := k\<rparr>))"
    by (auto simp: Let_def)
  show ?thesis
  proof (cases n)
    case 0
    with obj n sys show ?thesis
      by (auto simp: fd_destroy_def FDWrapper_destructor_def FDWrapper_close_def prog_simps fd_simps)
  next
    case (Suc m)
    with fd_destroy_shared [OF obj, of m] n show ?thesis by simp
  qed
qed

text \<open>A kernel whose state is the list of the descriptor numbers closed so far.\<close>

definition close_log_kernel :: "int list kernel" where
  "close_log_kernel = (failing_kernel 9)\<lparr>k_close := (\<lambda>fd k. (0, 0, (), k @ [fd]))\<rparr>"

theorem fd_destroy_closes_once_witness:
  "kern (snd (fd_destroy close_log_kernel 0 (open_world [] 5))) = [5]
   \<and> heap (snd (fd_destroy close_log_kernel 0 (open_world [] 5))) 0 = None"
  using fd_destroy_closes_once [OF open_world_simps(1), of 5 "[]" 0 close_log_kernel 0 0 "[5]"]
  by (simp add: close_log_kernel_def)

text \<open>
  C20. Memory safety over the whole life of a process: whatever the system calls answer (within
  the contract of \<open>read\<close>), in every state reachable by opening, duplicating, destroying, closing,
  reading, writing and switching the mode of handles it holds, with any exceptions on the way, an
  object exists exactly while it has handles, and no further call on a handle the process holds
  has undefined behaviour.
\<close>

theorem fd_lifecycle_safe:
  assumes "read_contract K" and "fd_reachable K w" and "legal w c"
  shows "fst (fd_exec K c w) \<noteq> UB \<and> (\<forall>a. (heap w a \<noteq> None) = (refs w a > 0))
    \<and> (\<forall>a obj. heap w a = Some obj \<and> w_closed obj \<longrightarrow> w_eof obj)"
proof -
  from assms(1,2) have "fd_inv w" by (rule fd_reachable_inv)
  moreover obtain r w' where "fd_exec K c w = (r, w')" by fastforce
  ultimately show ?thesis
    using fd_exec_safe [OF assms(1) _ assms(3)] by (auto simp: fd_inv_def)
qed

theorem fd_lifecycle_safe_witness:
  "fst (fd_exec (failing_kernel 9) (Close_fd 0) (open_world () 3)) \<noteq> UB"
proof -
  let ?K = "failing_kernel 9 :: unit kernel"
  have con: "read_contract ?K" by (simp add: read_contract_def failing_kernel_def failing_def)
  have "fd_reachable ?K (open_world () 3)"
    by (rule step [where w = "new_world ()" and c = "Open_fd 3" and r = "Ok ()", OF start])
      (simp_all add: FileDescriptor_eq open_world_def prog_simps)
  with fd_lifecycle_safe [OF con this, of "Close_fd 0"] show ?thesis by simp
qed

end
