(* ===== verification/Address.thy ===== *)
theory Address
  imports Parser Unix_World
begin

text \<open>
  IPv4 addresses and name resolution: \<open>class Address\<close> of \<open>libsponge/util/address.hh\<close> and
  \<open>libsponge/util/address.cc\<close>.

  An address is its \<open>_size\<close> and the 128 bytes of its \<open>sockaddr_storage\<close>. The memory of a
  \<open>sockaddr_in\<close> is written out for a little-endian host: the family in host order, port and IPv4
  address in network order, eight bytes of padding. Resolver and name formatting
  (\<open>getaddrinfo\<close>, \<open>getnameinfo\<close>) are calls of the kernel parameter; freeing the resolver's answer
  has no effect here. Copying more bytes than a block has, and reading a character array with
  no NUL in it as a C string, are undefined behaviour.

  The lemmas: the round trips between numbers, dotted quads and addresses, decimal numbers
  through \<open>to_string\<close> and \<open>stoi\<close>, the invariant every constructor establishes, and equality.
\<close>

section \<open>Representation\<close>

record address =
  addr_size :: u32
  addr_storage :: bytes

definition sizeof_storage :: size_t where
  "sizeof_storage = 128"

definition AF_INET :: u16 where
  "AF_INET = 2"

text \<open>\<open>memcpy(dst, src, n)\<close> on the memory blocks \<open>dst\<close> and \<open>src\<close> start.\<close>

definition mem_copy :: "bytes \<Rightarrow> bytes \<Rightarrow> size_t \<Rightarrow> bytes outcome" where
  "mem_copy dst src n =
     (if unat n \<le> length src \<and> unat n \<le> length dst
      then Ok (take (unat n) src @ drop (unat n) dst) else UB)"

definition Address_raw :: "bytes \<Rightarrow> size_t \<Rightarrow> address outcome" where
  "Address_raw addr size' =
     (if size' > sizeof_storage then Throw (Runtime_error ''invalid sockaddr size'')
      else case mem_copy (replicate 128 0) addr size' of
             Ok storage \<Rightarrow> Ok \<lparr>addr_size = ucast size', addr_storage = storage\<rparr>
           | Throw e \<Rightarrow> Throw e
           | UB \<Rightarrow> UB)"

definition make_hints :: "int \<Rightarrow> int \<Rightarrow> addrinfo_hints" where
  "make_hints flags family = \<lparr>ai_flags = flags, ai_family = family\<rparr>"

definition string_of_bytes :: "bytes \<Rightarrow> string" where
  "string_of_bytes s = map (\<lambda>c. char_of (unat c)) s"

definition Address_resolve ::
  "'k kernel \<Rightarrow> bytes \<Rightarrow> bytes \<Rightarrow> addrinfo_hints \<Rightarrow> ('k world, address) prog" where
  "Address_resolve K node service hints =
     bindp (invoke (k_getaddrinfo K (c_str node) (c_str service) hints)) (\<lambda>(gai_ret, resolved).
     if gai_ret \<noteq> 0
     then throwp (Tagged_error Gai_error_category
       (''getaddrinfo('' @ string_of_bytes node @ '', '' @ string_of_bytes service @ '')'') gai_ret)
     else case resolved of
       None \<Rightarrow> throwp (Runtime_error ''getaddrinfo returned successfully but with no results'')
     | Some (addr, addrlen) \<Rightarrow> liftp (Address_raw addr (ucast addrlen)))"

definition Address_host :: "'k kernel \<Rightarrow> bytes \<Rightarrow> bytes \<Rightarrow> ('k world, address) prog" where
  "Address_host K hostname service = Address_resolve K hostname service (make_hints 0x10 2)"

definition Address_ip :: "'k kernel \<Rightarrow> bytes \<Rightarrow> u16 \<Rightarrow> ('k world, address) prog" where
  "Address_ip K ip port =
     Address_resolve K ip (bytes_of (int_to_string (uint port))) (make_hints (0x4 OR 0x400) 2)"

text \<open>
  The error category of these failures. Its messages come from \<open>gai_strerror\<close>, a parameter.
\<close>

definition gai_error_category_name :: string where
  "gai_error_category_name = ''gai_error_category''"

definition gai_error_category_message :: "(int \<Rightarrow> string) \<Rightarrow> int \<Rightarrow> string" where
  "gai_error_category_message gai_strerror return_value = gai_strerror return_value"

section \<open>Accessors\<close>

text \<open>\<open>Address::size\<close>, and the conversions of an \<open>Address\<close> or its \<open>Raw\<close> to \<open>sockaddr *\<close>.\<close>

definition address_size :: "address \<Rightarrow> u32" where
  "address_size this = addr_size this"

definition sockaddr_ptr :: "address \<Rightarrow> bytes" where
  "sockaddr_ptr this = addr_storage this"

text \<open>
  A zero-initialised array of \<open>n\<close> characters into which a call stored \<open>data\<close>, read back as a C
  string.
\<close>

definition array_c_str :: "nat \<Rightarrow> bytes \<Rightarrow> bytes outcome" where
  "array_c_str n data =
     (if length data \<le> n \<and> 0 \<in> set (data @ replicate (n - length data) 0)
      then Ok (c_str (data @ replicate (n - length data) 0)) else UB)"

definition is_space :: "u8 \<Rightarrow> bool" where
  "is_space c \<longleftrightarrow> c = 32 \<or> (9 \<le> c \<and> c \<le> 13)"

definition is_digit :: "u8 \<Rightarrow> bool" where
  "is_digit c \<longleftrightarrow> 48 \<le> c \<and> c \<le> 57"

definition digits_val :: "bytes \<Rightarrow> int" where
  "digits_val ds = foldl (\<lambda>v c. 10 * v + (uint c - 48)) 0 ds"

text \<open>\<open>std::stoi\<close>.\<close>

definition stoi :: "bytes \<Rightarrow> int outcome" where
  "stoi s =
    (let s = dropWhile is_space s;
         neg = (s \<noteq> [] \<and> hd s = 45);
         s = (if s \<noteq> [] \<and> (hd s = 45 \<or> hd s = 43) then tl s else s);
         ds = takeWhile is_digit s;
         v = (if neg then - digits_val ds else digits_val ds)
     in if ds = [] then Throw Std_invalid_argument
        else if v < - (2 ^ 31) \<or> v \<ge> 2 ^ 31 then Throw Std_out_of_range
        else Ok v)"

definition NI_MAXHOST :: nat where
  "NI_MAXHOST = 1025"

definition NI_MAXSERV :: nat where
  "NI_MAXSERV = 32"

definition ip_port :: "'k kernel \<Rightarrow> address \<Rightarrow> ('k world, bytes \<times> u16) prog" where
  "ip_port K this =
     bindp (invoke (k_getnameinfo K (addr_storage this) (addr_size this))) (\<lambda>(gni_ret, ip, port).
     if gni_ret \<noteq> 0 then throwp (Tagged_error Gai_error_category ''getnameinfo'' gni_ret)
     else bindp (liftp (array_c_str NI_MAXHOST ip)) (\<lambda>ip.
          bindp (liftp (array_c_str NI_MAXSERV port)) (\<lambda>port.
          bindp (liftp (stoi port)) (\<lambda>n. retp (ip, word_of_int n)))))"

definition address_ip :: "'k kernel \<Rightarrow> address \<Rightarrow> ('k world, bytes) prog" where
  "address_ip K this = bindp (ip_port K this) (\<lambda>p. retp (fst p))"

definition address_port :: "'k kernel \<Rightarrow> address \<Rightarrow> ('k world, u16) prog" where
  "address_port K this = bindp (ip_port K this) (\<lambda>p. retp (snd p))"

definition address_to_string :: "'k kernel \<Rightarrow> address \<Rightarrow> ('k world, bytes) prog" where
  "address_to_string K this = bindp (ip_port K this) (\<lambda>ip_and_port.
     retp (fst ip_and_port @ bytes_of '':'' @ bytes_of (int_to_string (uint (snd ip_and_port)))))"

definition ss_family :: "bytes \<Rightarrow> u16" where
  "ss_family storage = ucast (storage ! 0) + push_bit 8 (ucast (storage ! 1))"

definition sizeof_sockaddr_in :: u32 where
  "sizeof_sockaddr_in = 16"

definition ipv4_numeric :: "address \<Rightarrow> u32 outcome" where
  "ipv4_numeric this =
     (if ss_family (addr_storage this) \<noteq> AF_INET \<or> addr_size this \<noteq> sizeof_sockaddr_in
      then Throw (Runtime_error ''ipv4_numeric called on non-IPV4 address'')
      else case mem_copy (replicate 16 0) (addr_storage this) (ucast (addr_size this)) of
             Ok ipv4_addr \<Rightarrow> Ok (be_val (take 4 (drop 4 ipv4_addr)))
           | Throw e \<Rightarrow> Throw e
           | UB \<Rightarrow> UB)"

text \<open>The memory of a \<open>sockaddr_in\<close> with the port and address given in host order.\<close>

definition sockaddr_in :: "u16 \<Rightarrow> u32 \<Rightarrow> bytes" where
  "sockaddr_in port ip = [ucast AF_INET, ucast (drop_bit 8 AF_INET)] @ be_bytes port @ be_bytes ip
     @ replicate 8 0"

definition from_ipv4_numeric :: "u32 \<Rightarrow> address outcome" where
  "from_ipv4_numeric ip_address = Address_raw (sockaddr_in 0 ip_address) (ucast sizeof_sockaddr_in)"

text \<open>\<open>memcmp(a, b, n) == 0\<close>, reading both blocks.\<close>

definition mem_equal :: "bytes \<Rightarrow> bytes \<Rightarrow> size_t \<Rightarrow> bool outcome" where
  "mem_equal a b n =
     (if unat n \<le> length a \<and> unat n \<le> length b then Ok (take (unat n) a = take (unat n) b) else UB)"

definition address_eq :: "address \<Rightarrow> address \<Rightarrow> bool outcome" where
  "address_eq this other =
     (if addr_size this \<noteq> addr_size other then Ok False
      else mem_equal (addr_storage this) (addr_storage other) (ucast (addr_size this)))"

definition address_neq :: "address \<Rightarrow> address \<Rightarrow> bool outcome" where
  "address_neq this other =
     (case address_eq this other of Ok b \<Rightarrow> Ok (\<not> b) | Throw e \<Rightarrow> Throw e | UB \<Rightarrow> UB)"

section \<open>Well-formed addresses\<close>

text \<open>Storage of 128 bytes, a size within it, and zeros beyond the size.\<close>

definition address_ok :: "address \<Rightarrow> bool" where
  "address_ok x \<longleftrightarrow> length (addr_storage x) = 128 \<and> unat (addr_size x) \<le> 128
     \<and> drop (unat (addr_size x)) (addr_storage x) = replicate (128 - unat (addr_size x)) 0"

text \<open>What an address says: the bytes of its socket address.\<close>

definition address_bytes :: "address \<Rightarrow> bytes" where
  "address_bytes x = take (unat (addr_size x)) (addr_storage x)"

lemma sizeof_storage_le: "\<not> sizeof_storage < n \<longleftrightarrow> unat n \<le> 128"
  by (simp add: sizeof_storage_def word_less_nat_alt not_less)

lemma unat_ucast_small:
  fixes n :: size_t
  shows "unat n \<le> 128 \<Longrightarrow> unat (ucast n :: u32) = unat n"
  by (simp add: unsigned_ucast_eq take_bit_nat_eq_self)

lemma unat_ucast_socklen [simp]: "unat (ucast (n :: u32) :: size_t) = unat n"
proof -
  have "unat n < 2 ^ 32" using unsigned_less [of n, where 'a = nat] by simp
  then have "unat n < 2 ^ LENGTH(64)" by simp
  then show ?thesis unfolding unsigned_ucast_eq by (rule take_bit_nat_eq_self)
qed

lemma ucast_ucast_socklen [simp]: "(ucast (ucast (n :: u32) :: size_t) :: u32) = n"
  by (rule bit_word_eqI) (simp add: bit_simps)

lemma Address_raw_eq:
  "Address_raw addr n =
    (if unat n > 128 then Throw (Runtime_error ''invalid sockaddr size'')
     else if unat n \<le> length addr
       then Ok \<lparr>addr_size = ucast n, addr_storage = take (unat n) addr @ replicate (128 - unat n) 0\<rparr>
     else UB)"
  using sizeof_storage_le [of n] by (auto simp: Address_raw_def mem_copy_def)

lemma Address_raw_ok:
  "Address_raw addr n = Ok x \<Longrightarrow> address_ok x \<and> address_bytes x = take (unat n) addr"
  by (auto simp: Address_raw_eq address_ok_def address_bytes_def unat_ucast_small split: if_splits)

lemma length_address_bytes: "address_ok x \<Longrightarrow> length (address_bytes x) = unat (addr_size x)"
  by (simp add: address_ok_def address_bytes_def)

lemma address_eqI:
  assumes x: "address_ok x" and y: "address_ok y"
  shows "address_eq x y = Ok (address_bytes x = address_bytes y)"
proof (cases "addr_size x = addr_size y")
  case True
  with x y show ?thesis
    by (simp add: address_eq_def mem_equal_def address_ok_def address_bytes_def)
next
  case False
  then have "unat (addr_size x) \<noteq> unat (addr_size y)" by (simp only: word_unat_eq_iff not_False_eq_True)
  then have "address_bytes x \<noteq> address_bytes y"
    using length_address_bytes [OF x] length_address_bytes [OF y] by metis
  with False show ?thesis by (simp add: address_eq_def)
qed

section \<open>Decimal numbers\<close>

text \<open>The decimal digits of a number, as the bytes \<open>std::to_string\<close> produces.\<close>

abbreviation dec :: "nat \<Rightarrow> bytes" where
  "dec n \<equiv> bytes_of (nat_to_string n)"

lemma of_char_digit: "m < 10 \<Longrightarrow> (of_char (char_of (48 + m)) :: u8) = word_of_nat (48 + m)"
proof -
  assume "m < 10"
  then have "(of_char (char_of (48 + m)) :: nat) = 48 + m" by simp
  then show ?thesis by (metis of_nat_of_char)
qed

lemma uint_digit: "m < 10 \<Longrightarrow> uint (word_of_nat (48 + m) :: u8) = 48 + int m"
  by (simp only: unsigned_of_nat) (simp add: take_bit_nat_eq_self take_bit_int_eq_self)

lemma dec_small: "n < 10 \<Longrightarrow> dec n = [word_of_nat (48 + n)]"
  by (subst nat_to_string.simps) (simp add: bytes_of_def of_char_digit del: of_nat_add)

lemma dec_step: "\<not> n < 10 \<Longrightarrow> dec n = dec (n div 10) @ [word_of_nat (48 + n mod 10)]"
  by (subst nat_to_string.simps) (simp add: bytes_of_def of_char_digit del: of_nat_add)

lemma digits_val_snoc: "digits_val (ds @ [c]) = 10 * digits_val ds + (uint c - 48)"
  by (simp add: digits_val_def)

lemma is_digit_digit: "m < 10 \<Longrightarrow> is_digit (word_of_nat (48 + m))"
  using uint_digit [of m] by (simp add: is_digit_def word_le_def del: of_nat_add)

lemma dec_facts: "dec n \<noteq> [] \<and> (\<forall>c \<in> set (dec n). is_digit c) \<and> digits_val (dec n) = int n"
proof (induction n rule: nat_to_string.induct)
  case (1 n)
  show ?case
  proof (cases "n < 10")
    case True
    then show ?thesis
      by (simp add: dec_small is_digit_digit digits_val_def uint_digit del: of_nat_add)
  next
    case False
    have "10 * (int n div 10) + int n mod 10 = int n" by simp
    with 1 [OF False] show ?thesis
      by (simp add: dec_step [OF False] is_digit_digit digits_val_snoc uint_digit zdiv_int zmod_int
          del: of_nat_add)
  qed
qed

lemma dec_length: "n < 10 ^ Suc k \<Longrightarrow> length (dec n) \<le> Suc k"
proof (induction k arbitrary: n)
  case 0
  then show ?case by (simp add: dec_small)
next
  case (Suc k)
  show ?case
  proof (cases "n < 10")
    case True
    then show ?thesis by (simp add: dec_small)
  next
    case False
    have "n div 10 < 10 ^ Suc k" using Suc.prems by (simp add: less_mult_imp_div_less)
    from Suc.IH [OF this] show ?thesis by (simp only: dec_step [OF False] length_append) simp
  qed
qed

lemma digit_not_special: "is_digit c \<Longrightarrow> \<not> is_space c \<and> c \<noteq> 45 \<and> c \<noteq> 43 \<and> c \<noteq> 0"
  by (auto simp: is_digit_def is_space_def word_le_nat_alt)

lemma dec_no_zero: "0 \<notin> set (dec n)"
  using dec_facts digit_not_special by blast

text \<open>Reading back what \<open>to_string\<close> wrote.\<close>

lemma stoi_dec:
  assumes "n < 2 ^ 31"
  shows "stoi (dec n) = Ok (int n)"
proof -
  from dec_facts obtain c t where ct: "dec n = c # t" by (metis list.exhaust)
  then have "is_digit c" using dec_facts [of n] by simp
  with digit_not_special have c: "\<not> is_space c" "c \<noteq> 45" "c \<noteq> 43" by blast+
  have "takeWhile is_digit t = t" using dec_facts [of n] ct by (simp add: takeWhile_eq_all_conv)
  with c ct dec_facts [of n] assms show ?thesis
    by (simp add: stoi_def Let_def del: takeWhile_eq_all_conv)
qed

lemma c_str_id: "0 \<notin> set s \<Longrightarrow> c_str s = s"
  by (induction s) (auto simp: c_str_def)

lemma array_c_str_fits:
  assumes "0 \<notin> set s" and "length s < n"
  shows "array_c_str n s = Ok s"
proof -
  obtain m where m: "n - length s = Suc m" using assms(2) by (metis Suc_diff_Suc)
  have "c_str (s @ 0 # replicate m 0) = s"
    using c_str_id [OF assms(1)] assms(1) by (auto simp: c_str_def takeWhile_eq_all_conv takeWhile_append)
  with assms(2) m show ?thesis by (simp add: array_c_str_def)
qed

section \<open>Resolving\<close>

text \<open>The dotted quad of an address given in host order.\<close>

definition dotted :: "u32 \<Rightarrow> bytes" where
  "dotted ip = concat (map (\<lambda>b. dec (unat b) @ [46]) (butlast (be_bytes ip))) @ dec (unat (last (be_bytes ip)))"

text \<open>
  The documented behaviour of \<open>getaddrinfo\<close> and \<open>getnameinfo\<close> with the numeric flags, for one
  address: no lookup is made, and the dotted quad and decimal port stand for the socket address
  of those numbers.
\<close>

definition numeric_resolver :: "'k kernel \<Rightarrow> u32 \<Rightarrow> u16 \<Rightarrow> bool" where
  "numeric_resolver K ip port \<longleftrightarrow>
     (\<forall>k. case k_getaddrinfo K (dotted ip) (dec (unat port)) (make_hints (0x4 OR 0x400) 2) k of
            (r, _, ans, _) \<Rightarrow> r = 0 \<and> ans = Some (sockaddr_in port ip, 16))
   \<and> (\<forall>k. case k_getnameinfo K (sockaddr_in port ip @ replicate 112 0) 16 k of
            (r, _, ans, _) \<Rightarrow> r = 0 \<and> ans = (dotted ip, dec (unat port)))"

lemma length_sockaddr_in [simp]: "length (sockaddr_in port ip) = 16"
  by (simp add: sockaddr_in_def)

lemma be_bytes_u32:
  obtains a b c d where "be_bytes (ip :: u32) = [a, b, c, d]"
proof -
  have "length (be_bytes ip) = Suc (Suc (Suc (Suc 0)))" by simp
  then show thesis unfolding length_Suc_conv using that by blast
qed

lemma dotted_facts: "0 \<notin> set (dotted ip) \<and> length (dotted ip) < 1025"
proof -
  have len: "length (dec (unat (b :: u8))) \<le> 3" for b
  proof -
    have "unat b < 2 ^ LENGTH(8)" by (rule unsigned_less)
    then have "unat b < 10 ^ Suc 2" by simp
    then show ?thesis using dec_length [of "unat b" 2] by simp
  qed
  obtain a b c d where "be_bytes ip = [a, b, c, d]" by (rule be_bytes_u32)
  then have d: "dotted ip = dec (unat a) @ 46 # dec (unat b) @ 46 # dec (unat c) @ 46 # dec (unat d)"
    by (simp add: dotted_def)
  have "length (dotted ip) = length (dec (unat a)) + length (dec (unat b)) + length (dec (unat c))
      + length (dec (unat d)) + 3"
    unfolding d by simp
  then have "length (dotted ip) < 1025"
    using len [of a] len [of b] len [of c] len [of d] by linarith
  moreover have "0 \<notin> set (dotted ip)" unfolding d by (simp add: dec_no_zero)
  ultimately show ?thesis by blast
qed

lemma dec_port_facts: "length (dec (unat (port :: u16))) < 32"
proof -
  have "unat port < 2 ^ LENGTH(16)" by (rule unsigned_less)
  then have "unat port < 10 ^ Suc 4" by simp
  then show ?thesis using dec_length [of "unat port" 4] by simp
qed

lemma sockaddr_in_family: "ss_family (sockaddr_in port ip @ t) = AF_INET"
  by (simp add: ss_family_def sockaddr_in_def AF_INET_def)

lemma ipv4_numeric_sockaddr_in:
  "ipv4_numeric \<lparr>addr_size = 16, addr_storage = sockaddr_in port ip @ replicate 112 0\<rparr> = Ok ip"
proof -
  have "take 4 (drop 4 (sockaddr_in port ip)) = be_bytes ip"
    by (simp add: sockaddr_in_def)
  moreover have "be_val (be_bytes ip) = ip" by (rule be_val_be_bytes) simp
  ultimately show ?thesis
    by (simp add: ipv4_numeric_def mem_copy_def sockaddr_in_family sizeof_sockaddr_in_def)
qed

lemma Address_raw_sockaddr_in:
  "Address_raw (sockaddr_in port ip) 16
     = Ok \<lparr>addr_size = 16, addr_storage = sockaddr_in port ip @ replicate 112 0\<rparr>"
  by (simp add: Address_raw_eq)

lemma sockaddr_in_inject: "sockaddr_in port ip = sockaddr_in port' ip' \<longleftrightarrow> port = port' \<and> ip = ip'"
proof -
  have inj: "be_bytes v = be_bytes v' \<Longrightarrow> v = v'" if "8 dvd LENGTH('a)" for v v' :: "'a::len word"
    by (metis be_val_be_bytes that)
  show ?thesis by (auto simp: sockaddr_in_def dest!: inj [rotated])
qed

lemma invoke_ok:
  "f (kern w) = (0, e, x, k) \<Longrightarrow> invoke f w = (Ok (0, x), w\<lparr>kern := k\<rparr>)"
  by (simp add: invoke_def)

lemma ip_port_sockaddr_in:
  assumes "numeric_resolver K ip port"
  shows "\<exists>k. ip_port K \<lparr>addr_size = 16, addr_storage = sockaddr_in port ip @ replicate 112 0\<rparr> w
           = (Ok (dotted ip, port), w\<lparr>kern := k\<rparr>)"
proof -
  have "case k_getnameinfo K (sockaddr_in port ip @ replicate 112 0) 16 (kern w) of
            (r, _, ans, _) \<Rightarrow> r = 0 \<and> ans = (dotted ip, dec (unat port))"
    using assms by (simp only: numeric_resolver_def)
  then obtain e k where
    "k_getnameinfo K (sockaddr_in port ip @ replicate 112 0) 16 (kern w)
       = (0, e, (dotted ip, dec (unat port)), k)"
    by (auto split: prod.splits)
  note inv = invoke_ok [of "k_getnameinfo K (sockaddr_in port ip @ replicate 112 0) 16" w, OF this]
  have "unat port < 2 ^ 31" using unsigned_less [of port, where 'a = nat] by simp
  then have "stoi (dec (unat port)) = Ok (int (unat port))" by (rule stoi_dec)
  with inv show ?thesis
    by (intro exI [of _ k]) (simp add: ip_port_def prog_simps array_c_str_fits dotted_facts
        array_c_str_fits [OF dec_no_zero dec_port_facts] NI_MAXHOST_def NI_MAXSERV_def)
qed

section \<open>The documentation test\<close>

text \<open>\<open>main\<close> of \<open>doctests/address_dt.cc\<close>, with the three examples it includes.\<close>

definition address_dt :: "'k kernel \<Rightarrow> ('k world, int) prog" where
  "address_dt K =
     catchp
       (bindp (Address_host K (bytes_of ''www.google.com'') (bytes_of ''https'')) (\<lambda>google_webserver.
        bindp (Address_ip K (bytes_of ''18.71.0.151'') 53) (\<lambda>a_dns_server.
        bindp (liftp (ipv4_numeric a_dns_server)) (\<lambda>a_dns_server_numeric.
        bindp (address_port K google_webserver) (\<lambda>port.
          if port \<noteq> 443 \<or> a_dns_server_numeric \<noteq> 0x12470097
          then throwp (Runtime_error ''unexpected value'') else retp 0)))))
       (\<lambda>e. thenp (modifyp (\<lambda>w. w\<lparr>cerr := cerr w
              @ [(''This test requires Internet access and working DNS.'' @ [CHR 0x0A] @ ''Error: '', Some e)]\<rparr>))
            (retp 1))"

text \<open>
  \<open>operator==\<close> on addresses made from raw socket addresses holds exactly if the two have the
  same bytes, of the same length, and \<open>operator!=\<close> exactly if they do not; what lies beyond the
  size does not matter.
\<close>

lemma address_equality:
  assumes "Address_raw a n = Ok x" and "Address_raw b m = Ok y"
  shows "address_eq x y = Ok (take (unat n) a = take (unat m) b)
    \<and> address_neq x y = Ok (take (unat n) a \<noteq> take (unat m) b)"
  using Address_raw_ok [OF assms(1)] Address_raw_ok [OF assms(2)] by (simp add: address_eqI address_neq_def)

section \<open>Properties\<close>

text \<open>
  C22. Numeric addresses go round: for a resolver that reads and prints numeric addresses as
  documented, the address constructed from a dotted quad and a port has that IPv4 number, its
  \<open>ip_port\<close> gives back the dotted quad and the port (through the decimal port string and \<open>stoi\<close>),
  and \<open>to_string\<close> prints them joined by a colon.
\<close>

theorem address_ip_roundtrip:
  assumes res: "numeric_resolver K ip port"
  shows "\<exists>x w'. Address_ip K (dotted ip) port w = (Ok x, w') \<and> address_ok x
    \<and> ipv4_numeric x = Ok ip
    \<and> fst (ip_port K x w') = Ok (dotted ip, port)
    \<and> fst (address_to_string K x w') = Ok (dotted ip @ bytes_of '':'' @ dec (unat port))"
proof -
  let ?x = "\<lparr>addr_size = 16, addr_storage = sockaddr_in port ip @ replicate 112 0\<rparr>"
  let ?f = "k_getaddrinfo K (dotted ip) (dec (unat port)) (make_hints (0x4 OR 0x400) 2)"
  have port: "int_to_string (uint port) = nat_to_string (unat port)"
    by (simp add: int_to_string_def)
  have "case ?f (kern w) of (r, _, ans, _) \<Rightarrow> r = 0 \<and> ans = Some (sockaddr_in port ip, 16)"
    using res by (simp only: numeric_resolver_def)
  then obtain e k where "?f (kern w) = (0, e, Some (sockaddr_in port ip, 16), k)"
    by (auto split: prod.splits)
  note inv = invoke_ok [of ?f w, OF this]
  have make: "Address_ip K (dotted ip) port w = (Ok ?x, w\<lparr>kern := k\<rparr>)"
    using inv by (simp add: Address_ip_def Address_resolve_def prog_simps port c_str_id dotted_facts
        dec_no_zero Address_raw_sockaddr_in)
  moreover have "address_ok ?x" using Address_raw_ok [OF Address_raw_sockaddr_in] by blast
  moreover obtain k' where "ip_port K ?x (w\<lparr>kern := k\<rparr>) = (Ok (dotted ip, port), w\<lparr>kern := k\<rparr>\<lparr>kern := k'\<rparr>)"
    using ip_port_sockaddr_in [OF res] by blast
  moreover from this have "fst (address_to_string K ?x (w\<lparr>kern := k\<rparr>))
      = Ok (dotted ip @ bytes_of '':'' @ dec (unat port))"
    by (simp add: address_to_string_def prog_simps port)
  ultimately show ?thesis using ipv4_numeric_sockaddr_in by fastforce
qed

text \<open>A resolver that knows a web server and a name server.\<close>

definition two_host_kernel :: "unit kernel" where
  "two_host_kernel = (failing_kernel 9)\<lparr>
     k_getaddrinfo := (\<lambda>node service hints k. (0, 0, Some
       (if hints = make_hints 0x10 2 \<or> service = dec 443 then sockaddr_in 443 0x08080808
        else sockaddr_in 53 0x12470097, 16), k)),
     k_getnameinfo := (\<lambda>storage len k. (0, 0,
       if storage = sockaddr_in 443 0x08080808 @ replicate 112 0 then (dotted 0x08080808, dec 443)
       else (dotted 0x12470097, dec 53), k))\<rparr>"

lemma of_char_of_nat: "(of_char (char_of (n :: nat)) :: u8) = word_of_nat (n mod 256)"
  by (metis of_char_of of_nat_of_char)

lemma dotted_dns: "dotted 0x12470097 = bytes_of ''18.71.0.151''"
  by (simp add: dotted_def be_bytes_def upt_conv_Cons nat_to_string.simps bytes_of_def drop_bit_eq_div
      of_char_of_nat)

lemma dec_ports: "dec 443 \<noteq> dec 53"
  using stoi_dec [of 443] stoi_dec [of 53] by auto

lemma two_host_kernel_dns: "numeric_resolver two_host_kernel 0x12470097 53"
  and two_host_kernel_web: "numeric_resolver two_host_kernel 0x08080808 443"
  by (simp_all add: numeric_resolver_def two_host_kernel_def make_hints_def sockaddr_in_inject
      dec_ports [symmetric])

theorem address_ip_roundtrip_witness: "fst (address_dt two_host_kernel (new_world ())) = Ok 0"
proof -
  let ?K = two_host_kernel and ?w = "new_world ()"
  let ?web = "\<lparr>addr_size = 16, addr_storage = sockaddr_in 443 0x08080808 @ replicate 112 0\<rparr>"
  have web: "Address_host ?K h s ?w = (Ok ?web, ?w\<lparr>kern := ()\<rparr>)" for h s
    by (simp add: Address_host_def Address_resolve_def invoke_def two_host_kernel_def prog_simps
        Address_raw_sockaddr_in)
  obtain x w' where dns: "Address_ip ?K (bytes_of ''18.71.0.151'') 53 (?w\<lparr>kern := ()\<rparr>) = (Ok x, w')"
    "ipv4_numeric x = Ok 0x12470097"
    using address_ip_roundtrip [OF two_host_kernel_dns] unfolding dotted_dns by blast
  obtain k where "ip_port ?K ?web w' = (Ok (dotted 0x08080808, 443), w'\<lparr>kern := k\<rparr>)"
    using ip_port_sockaddr_in [OF two_host_kernel_web] by blast
  with web dns show ?thesis by (simp add: address_dt_def address_port_def prog_simps)
qed

text \<open>
  C23. IPv4 numbers go round and address equality is equality of numbers: for all 32-bit numbers,
  \<open>from_ipv4_numeric\<close> succeeds, \<open>ipv4_numeric\<close> of the result is the number, and two such addresses
  compare equal exactly if the numbers are equal.
\<close>

theorem ipv4_numeric_roundtrip:
  "\<exists>x y. from_ipv4_numeric ip = Ok x \<and> from_ipv4_numeric ip' = Ok y
     \<and> ipv4_numeric x = Ok ip \<and> address_eq x y = Ok (ip = ip')"
proof -
  let ?a = "\<lambda>n. \<lparr>addr_size = 16, addr_storage = sockaddr_in 0 n @ replicate 112 0\<rparr>"
  have mk: "from_ipv4_numeric n = Ok (?a n)" for n
    using Address_raw_sockaddr_in [of 0 n] by (simp add: from_ipv4_numeric_def sizeof_sockaddr_in_def)
  have "address_ok (?a n) \<and> address_bytes (?a n) = sockaddr_in 0 n" for n
    using Address_raw_ok [OF Address_raw_sockaddr_in] by simp
  then have "address_eq (?a ip) (?a ip') = Ok (ip = ip')"
    by (simp add: address_eqI sockaddr_in_inject)
  then show ?thesis using mk ipv4_numeric_sockaddr_in by blast
qed

lemma Address_resolve_run:
  assumes call: "k_getaddrinfo K (c_str node) (c_str service) hints (kern w) = (r, e, ans, k)"
    and block: "\<forall>addr len. ans = Some (addr, len) \<longrightarrow> unat len \<le> length addr"
  shows "fst (Address_resolve K node service hints w) \<noteq> UB
    \<and> ((\<exists>x. fst (Address_resolve K node service hints w) = Ok x)
        \<longleftrightarrow> r = 0 \<and> (\<exists>addr len. ans = Some (addr, len) \<and> unat len \<le> 128))
    \<and> (\<forall>x. fst (Address_resolve K node service hints w) = Ok x \<longrightarrow>
         address_ok x \<and> (\<exists>addr len. ans = Some (addr, len) \<and> address_bytes x = take (unat len) addr))"
proof -
  have inv: "invoke (k_getaddrinfo K (c_str node) (c_str service) hints) w
      = (Ok (r, ans), snd (invoke (k_getaddrinfo K (c_str node) (c_str service) hints) w))"
    using call by (simp add: invoke_def)
  show ?thesis
  proof (cases "r = 0 \<and> ans \<noteq> None")
    case False
    then have "r \<noteq> 0 \<or> ans = None" by blast
    then show ?thesis
      using inv by (elim disjE) (simp_all add: Address_resolve_def prog_simps)
  next
    case True
    then obtain addr len where ans: "ans = Some (addr, len)" by auto
    with block have "unat len \<le> length addr" by simp
    moreover have "fst (Address_resolve K node service hints w) = Address_raw addr (ucast len)"
      using True ans inv by (simp add: Address_resolve_def prog_simps)
    ultimately show ?thesis
      using True ans Address_raw_ok [of addr "ucast len"] by (simp add: Address_raw_eq)
  qed
qed

text \<open>The resolver's answers hold the bytes they claim.\<close>

definition resolver_contract :: "'k kernel \<Rightarrow> bool" where
  "resolver_contract K \<longleftrightarrow> (\<forall>node service hints k addr len.
     fst (snd (snd (k_getaddrinfo K node service hints k))) = Some (addr, len) \<longrightarrow> unat len \<le> length addr)"

text \<open>Under that contract resolving is a system call like any other.\<close>

lemma safe_Address_resolve [prog_intros]:
  assumes con: "resolver_contract K" and P: "\<And>w k e. P w \<Longrightarrow> P (w\<lparr>kern := k, errno := e\<rparr>)"
  shows "safe P (Address_resolve K node service hints)"
  unfolding safe_def
proof (intro allI impI)
  fix w
  assume "P w"
  let ?f = "k_getaddrinfo K (c_str node) (c_str service) hints"
  obtain r e ans k where call: "?f (kern w) = (r, e, ans, k)" by (metis prod_cases4)
  have block: "\<forall>addr len. ans = Some (addr, len) \<longrightarrow> unat len \<le> length addr"
    using con call unfolding resolver_contract_def by (metis fst_conv snd_conv)
  have "snd (Address_resolve K node service hints w) = w\<lparr>kern := k, errno := (if r < 0 then e else errno w)\<rparr>"
    using call by (simp add: Address_resolve_def invoke_def bindp_def prog_simps split: option.splits)
  with Address_resolve_run [OF call block] P [OF \<open>P w\<close>]
  show "fst (Address_resolve K node service hints w) \<noteq> UB \<and> P (snd (Address_resolve K node service hints w))"
    by simp
qed

text \<open>
  Resolving a name is safe for every answer of the resolver that holds the bytes it claims:
  no undefined behaviour; an address comes out exactly if the resolver succeeds with a result of
  at most 128 bytes, and then it is well-formed and holds exactly those bytes.
\<close>

lemma address_resolution_safe:
  assumes call: "k_getaddrinfo K (c_str hostname) (c_str service) (make_hints 0x10 2) (kern w) = (r, e, ans, k)"
    and block: "\<forall>addr len. ans = Some (addr, len) \<longrightarrow> unat len \<le> length addr"
  shows "fst (Address_host K hostname service w) \<noteq> UB
    \<and> ((\<exists>x. fst (Address_host K hostname service w) = Ok x)
        \<longleftrightarrow> r = 0 \<and> (\<exists>addr len. ans = Some (addr, len) \<and> unat len \<le> 128))
    \<and> (\<forall>x. fst (Address_host K hostname service w) = Ok x \<longrightarrow>
         address_ok x \<and> (\<exists>addr len. ans = Some (addr, len) \<and> address_bytes x = take (unat len) addr))"
  unfolding Address_host_def by (rule Address_resolve_run [OF call block])

lemma address_resolution_safe_witness:
  "fst (Address_host two_host_kernel (bytes_of ''example.org'') (bytes_of ''https'') (new_world ())) \<noteq> UB"
  using address_resolution_safe [of two_host_kernel "bytes_of ''example.org''" "bytes_of ''https''"
      "new_world ()" 0 0 "Some (sockaddr_in 443 0x08080808, 16)" "()"]
  by (simp add: two_host_kernel_def)

end
