(* ===== verification/Socket.thy ===== *)
theory Socket
  imports File_Descriptor Address
begin

text \<open>
  Sockets and TUN/TAP devices: \<open>class Socket\<close>, \<open>UDPSocket\<close>, \<open>TCPSocket\<close> and \<open>LocalStreamSocket\<close> of
  \<open>libsponge/util/socket.hh\<close> and \<open>libsponge/util/socket.cc\<close>, and \<open>class TunTapFD\<close> with its two
  subclasses of \<open>libsponge/util/tun.hh\<close> and \<open>libsponge/util/tun.cc\<close>.

  The subclasses add no data to \<open>FileDescriptor\<close>: a socket is the address of its shared object.
  A constructor whose body throws destroys the base subobject, that is, gives up its handle.
  \<open>sockaddr\<close> memory that the kernel fills is a block of 128 zero bytes of which it overwrites a
  prefix.

  The lemmas: no constructor and no \<open>accept\<close> leaks a descriptor when it throws, datagrams are
  received and sent whole or not at all, \<open>shutdown\<close> counts as the reads and writes the event loop
  looks for, and the request that reaches the TUN driver is terminated.
\<close>

section \<open>Socket\<close>

text \<open>\<open>n\<close> is the constructor's body: if it throws, the handle \<open>a\<close> is destroyed.\<close>

definition constructing :: "'k kernel \<Rightarrow> fd_ref \<Rightarrow> ('k world, unit) prog \<Rightarrow> ('k world, fd_ref) prog" where
  "constructing K a body =
     catchp (thenp body (retp a)) (\<lambda>e. thenp (fd_destroy K a) (throwp e))"

definition Socket :: "'k kernel \<Rightarrow> int \<Rightarrow> int \<Rightarrow> ('k world, fd_ref) prog" where
  "Socket K domain type =
     bindp (sys ''socket'' (k_socket K domain type 0)) (\<lambda>(fd, _). FileDescriptor fd)"

definition SOL_SOCKET :: int where "SOL_SOCKET = 1"
definition SO_REUSEADDR :: int where "SO_REUSEADDR = 2"
definition SO_TYPE :: int where "SO_TYPE = 3"
definition SO_DOMAIN :: int where "SO_DOMAIN = 39"
definition SOCK_STREAM :: int where "SOCK_STREAM = 1"
definition SOCK_DGRAM :: int where "SOCK_DGRAM = 2"
definition AF_UNIX :: int where "AF_UNIX = 1"

definition socket_verify :: "'k kernel \<Rightarrow> fd_ref \<Rightarrow> int \<Rightarrow> int \<Rightarrow> ('k world, unit) prog" where
  "socket_verify K a domain type =
     bindp (fd_num a) (\<lambda>fd.
     bindp (sys ''getsockopt'' (k_getsockopt K fd SOL_SOCKET SO_DOMAIN)) (\<lambda>(_, actual_value, len).
     thenp (if len \<noteq> 4 \<or> actual_value \<noteq> domain
            then throwp (Runtime_error ''socket domain mismatch'') else retp ())
     (bindp (fd_num a) (\<lambda>fd.
      bindp (sys ''getsockopt'' (k_getsockopt K fd SOL_SOCKET SO_TYPE)) (\<lambda>(_, actual_value, len).
      if len \<noteq> 4 \<or> actual_value \<noteq> type
      then throwp (Runtime_error ''socket type mismatch'') else retp ())))))"

definition Socket_from :: "'k kernel \<Rightarrow> fd_ref \<Rightarrow> int \<Rightarrow> int \<Rightarrow> ('k world, fd_ref) prog" where
  "Socket_from K a domain type = constructing K a (socket_verify K a domain type)"

definition get_address ::
  "string \<Rightarrow> (int \<Rightarrow> u32 \<Rightarrow> ('k, bytes \<times> u32) sys) \<Rightarrow> fd_ref \<Rightarrow> ('k world, address) prog" where
  "get_address name_of_function f a =
     bindp (fd_num a) (\<lambda>fd.
     bindp (invoke (f fd 128)) (\<lambda>(r, addr, size').
     bindp (localp (replicate 128 0) (store_data addr)) (\<lambda>address.
     thenp (SystemCall name_of_function (c_int r) 0)
       (liftp (Address_raw address (ucast size'))))))"

definition local_address :: "'k kernel \<Rightarrow> fd_ref \<Rightarrow> ('k world, address) prog" where
  "local_address K a = get_address ''getsockname'' (k_getsockname K) a"

definition peer_address :: "'k kernel \<Rightarrow> fd_ref \<Rightarrow> ('k world, address) prog" where
  "peer_address K a = get_address ''getpeername'' (k_getpeername K) a"

definition socket_bind :: "'k kernel \<Rightarrow> fd_ref \<Rightarrow> address \<Rightarrow> ('k world, unit) prog" where
  "socket_bind K a address =
     bindp (fd_num a) (\<lambda>fd.
     bindp (sys ''bind'' (k_bind K fd (addr_storage address) (addr_size address))) (\<lambda>_. retp ()))"

definition socket_connect :: "'k kernel \<Rightarrow> fd_ref \<Rightarrow> address \<Rightarrow> ('k world, unit) prog" where
  "socket_connect K a address =
     bindp (fd_num a) (\<lambda>fd.
     bindp (sys ''connect'' (k_connect K fd (addr_storage address) (addr_size address))) (\<lambda>_. retp ()))"

definition SHUT_RD :: int where "SHUT_RD = 0"
definition SHUT_WR :: int where "SHUT_WR = 1"
definition SHUT_RDWR :: int where "SHUT_RDWR = 2"

definition socket_shutdown :: "'k kernel \<Rightarrow> fd_ref \<Rightarrow> int \<Rightarrow> ('k world, unit) prog" where
  "socket_shutdown K a how =
     bindp (fd_num a) (\<lambda>fd.
     bindp (sys ''shutdown'' (k_shutdown K fd how)) (\<lambda>_.
       if how = SHUT_RD then register_read a
       else if how = SHUT_WR then register_write a
       else if how = SHUT_RDWR then thenp (register_read a) (register_write a)
       else throwp (Runtime_error ''Socket::shutdown() called with invalid `how`'')))"

definition socket_setsockopt :: "'k kernel \<Rightarrow> fd_ref \<Rightarrow> int \<Rightarrow> int \<Rightarrow> int \<Rightarrow> ('k world, unit) prog" where
  "socket_setsockopt K a level option option_value =
     bindp (fd_num a) (\<lambda>fd.
     bindp (sys ''setsockopt'' (k_setsockopt K fd level option option_value)) (\<lambda>_. retp ()))"

definition set_reuseaddr :: "'k kernel \<Rightarrow> fd_ref \<Rightarrow> ('k world, unit) prog" where
  "set_reuseaddr K a = socket_setsockopt K a SOL_SOCKET SO_REUSEADDR 1"

section \<open>UDPSocket\<close>

definition UDPSocket_from :: "'k kernel \<Rightarrow> fd_ref \<Rightarrow> ('k world, fd_ref) prog" where
  "UDPSocket_from K a = Socket_from K a (uint AF_INET) SOCK_DGRAM"

definition UDPSocket :: "'k kernel \<Rightarrow> ('k world, fd_ref) prog" where
  "UDPSocket K = Socket K (uint AF_INET) SOCK_DGRAM"

record received_datagram =
  source_address :: address
  payload :: bytes

type_synonym 'k world_datagram = "'k world \<times> received_datagram"

definition on_process :: "('k world, 'a) prog \<Rightarrow> ('k world_datagram, 'a) prog" where
  "on_process = zoomp fst (\<lambda>w (_, d). (w, d))"

definition on_payload :: "(bytes, 'a) prog \<Rightarrow> ('k world_datagram, 'a) prog" where
  "on_payload = zoomp (\<lambda>(_, d). payload d) (\<lambda>p (w, d). (w, d\<lparr>payload := p\<rparr>))"

lemma on_process_apply [prog_simps]: "on_process m (w, d) = (fst (m w), (snd (m w), d))"
  and on_payload_apply [prog_simps]:
    "on_payload m' (w, d) = (fst (m' (payload d)), (w, d\<lparr>payload := snd (m' (payload d))\<rparr>))"
  by (simp_all add: on_process_def on_payload_def zoomp_def split: prod.splits)

definition udp_recv_into :: "'k kernel \<Rightarrow> fd_ref \<Rightarrow> size_t \<Rightarrow> ('k world_datagram, unit) prog" where
  "udp_recv_into K a mtu =
     thenp (on_payload (string_resize mtu))
     (bindp (on_process (fd_num a)) (\<lambda>fd.
      bindp (on_payload (getp csize)) (\<lambda>n.
      bindp (on_process (invoke (k_recvfrom K fd n 128))) (\<lambda>(r, data, addr, fromlen).
      thenp (on_payload (store_data data))
      (bindp (localp (replicate 128 0) (store_data addr)) (\<lambda>datagram_source_address.
      bindp (on_process (SystemCall ''recvfrom'' (c_int r) 0)) (\<lambda>recv_len.
      thenp (if recv_len > sint mtu
             then throwp (Runtime_error ''recvfrom (oversized datagram)'') else retp ())
      (thenp (on_process (register_read a))
      (bindp (liftp (Address_raw datagram_source_address (ucast fromlen))) (\<lambda>source.
       thenp (modifyp (\<lambda>(w, d). (w, d\<lparr>source_address := source\<rparr>)))
             (on_payload (string_resize (word_of_int recv_len)))))))))))))"

definition udp_recv :: "'k kernel \<Rightarrow> fd_ref \<Rightarrow> size_t \<Rightarrow> ('k world, received_datagram) prog" where
  "udp_recv K a mtu =
     bindp (liftp (Address_raw [] 0)) (\<lambda>null_address. (\<lambda>w.
       case udp_recv_into K a mtu (w, \<lparr>source_address = null_address, payload = []\<rparr>) of
         (Ok _, (w', ret)) \<Rightarrow> (Ok ret, w')
       | (Throw e, (w', _)) \<Rightarrow> (Throw e, w')
       | (UB, (w', _)) \<Rightarrow> (UB, w')))"

definition sendmsg_helper ::
  "'k kernel \<Rightarrow> int \<Rightarrow> bytes option \<Rightarrow> u32 \<Rightarrow> buffer_view_list \<Rightarrow> ('k world, unit) prog" where
  "sendmsg_helper K fd destination_address destination_address_len payload' =
     (let iovecs = viewlist_as_iovecs payload' in
      bindp (sys ''sendmsg'' (k_sendmsg K fd destination_address destination_address_len iovecs))
        (\<lambda>(bytes_sent, _).
          if (word_of_int bytes_sent :: size_t) \<noteq> viewlist_size payload'
          then throwp (Runtime_error ''datagram payload too big for sendmsg()'') else retp ()))"

definition udp_sendto :: "'k kernel \<Rightarrow> fd_ref \<Rightarrow> address \<Rightarrow> buffer_view_list \<Rightarrow> ('k world, unit) prog" where
  "udp_sendto K a destination payload' =
     bindp (fd_num a) (\<lambda>fd.
     thenp (sendmsg_helper K fd (Some (addr_storage destination)) (addr_size destination) payload')
       (register_write a))"

definition udp_send :: "'k kernel \<Rightarrow> fd_ref \<Rightarrow> buffer_view_list \<Rightarrow> ('k world, unit) prog" where
  "udp_send K a payload' =
     bindp (fd_num a) (\<lambda>fd. thenp (sendmsg_helper K fd None 0 payload') (register_write a))"

section \<open>TCPSocket and LocalStreamSocket\<close>

definition TCPSocket_from :: "'k kernel \<Rightarrow> fd_ref \<Rightarrow> ('k world, fd_ref) prog" where
  "TCPSocket_from K a = Socket_from K a (uint AF_INET) SOCK_STREAM"

definition TCPSocket :: "'k kernel \<Rightarrow> ('k world, fd_ref) prog" where
  "TCPSocket K = Socket K (uint AF_INET) SOCK_STREAM"

definition tcp_listen :: "'k kernel \<Rightarrow> fd_ref \<Rightarrow> int \<Rightarrow> ('k world, unit) prog" where
  "tcp_listen K a backlog =
     bindp (fd_num a) (\<lambda>fd. bindp (sys ''listen'' (k_listen K fd backlog)) (\<lambda>_. retp ()))"

definition tcp_accept :: "'k kernel \<Rightarrow> fd_ref \<Rightarrow> ('k world, fd_ref) prog" where
  "tcp_accept K a =
     thenp (register_read a)
     (bindp (fd_num a) (\<lambda>fd.
      bindp (sys ''accept'' (k_accept K fd)) (\<lambda>(n, _).
      bindp (FileDescriptor n) (TCPSocket_from K))))"

definition LocalStreamSocket :: "'k kernel \<Rightarrow> fd_ref \<Rightarrow> ('k world, fd_ref) prog" where
  "LocalStreamSocket K a = Socket_from K a AF_UNIX SOCK_STREAM"

section \<open>TunTapFD\<close>

definition CLONEDEV :: string where
  "CLONEDEV = ''/dev/net/tun''"

definition IFF_TUN :: u16 where "IFF_TUN = 0x1"
definition IFF_TAP :: u16 where "IFF_TAP = 0x2"
definition IFF_NO_PI :: u16 where "IFF_NO_PI = 0x1000"
definition IFNAMSIZ :: nat where "IFNAMSIZ = 16"

text \<open>\<open>strncpy(dst, src, n)\<close>: the bytes before the NUL, padded with zeros to \<open>n\<close>.\<close>

definition strncpy :: "bytes \<Rightarrow> bytes \<Rightarrow> nat \<Rightarrow> bytes" where
  "strncpy dst src n =
     take n (c_str src) @ replicate (n - length (c_str src)) 0 @ drop n dst"

definition ifr_name :: "bytes \<Rightarrow> bytes" where
  "ifr_name devname =
     (strncpy (replicate IFNAMSIZ 0) devname (IFNAMSIZ - 1))[IFNAMSIZ - 1 := 0]"

definition TunTapFD :: "'k kernel \<Rightarrow> bytes \<Rightarrow> bool \<Rightarrow> ('k world, fd_ref) prog" where
  "TunTapFD K devname is_tun =
     bindp (sys ''open'' (k_open K CLONEDEV 2)) (\<lambda>(n, _).
     bindp (FileDescriptor n) (\<lambda>a.
     constructing K a
       (let ifr_flags = (if is_tun then IFF_TUN else IFF_TAP) OR IFF_NO_PI;
            name = ifr_name devname
        in bindp (fd_num a) (\<lambda>fd.
           bindp (sys ''ioctl'' (k_ioctl_tunsetiff K fd name ifr_flags)) (\<lambda>_. retp ())))))"

definition TunFD :: "'k kernel \<Rightarrow> bytes \<Rightarrow> ('k world, fd_ref) prog" where
  "TunFD K devname = TunTapFD K devname True"

definition TapFD :: "'k kernel \<Rightarrow> bytes \<Rightarrow> ('k world, fd_ref) prog" where
  "TapFD K devname = TunTapFD K devname False"

section \<open>Descriptors are not leaked\<close>

text \<open>No object, reference count or fresh address changed.\<close>

definition same_fds :: "'k world \<Rightarrow> 'k world \<Rightarrow> bool" where
  "same_fds w0 w \<longleftrightarrow> heap w = heap w0 \<and> refs w = refs w0 \<and> next_ref w = next_ref w0"

lemma same_fds_kern [simp]: "same_fds w0 (w\<lparr>kern := k\<rparr>) = same_fds w0 w"
  and same_fds_errno [simp]: "same_fds w0 (w\<lparr>errno := e\<rparr>) = same_fds w0 w"
  and same_fds_refl [simp]: "same_fds w w"
  by (simp_all add: same_fds_def)

lemma safe_same_fd_num [prog_intros]: "heap w0 a = Some x \<Longrightarrow> safe (same_fds w0) (fd_num a)"
  by (auto simp: safe_def same_fds_def fd_simps)

lemma safe_same_sys [prog_intros]: "safe (same_fds w0) (sys attempt f)"
  by (rule safe_sys) simp

lemma safe_socket_verify:
  assumes "heap w a = Some obj"
  shows "safe (same_fds w) (socket_verify K a domain type)"
  unfolding socket_verify_def using assms by (intro prog_intros) auto

text \<open>A constructor that throws has freed its descriptor.\<close>

lemma constructing_cases:
  assumes obj: "heap w a = Some obj" and n: "refs w a = 1" and body: "safe (same_fds w) body"
  shows "(\<exists>w'. body w = (Ok (), w') \<and> constructing K a body w = (Ok a, w') \<and> same_fds w w')
    \<or> (\<exists>e w'. fst (body w) = Throw e \<and> constructing K a body w = (Throw e, w')
        \<and> heap w' = (heap w)(a := None)
        \<and> refs w' = (refs w)(a := 0) \<and> next_ref w' = next_ref w)"
proof -
  obtain r t where run: "body w = (r, t)" by fastforce
  from safeD [OF body _ run] have t: "r \<noteq> UB" "same_fds w t" by simp_all
  show ?thesis
  proof (cases r)
    case (Ok x)
    with run t show ?thesis by (simp add: constructing_def prog_simps bindp_def catchp_def)
  next
    case (Throw e)
    have "heap t a = Some obj" "refs t a = 1" using t obj n by (simp_all add: same_fds_def)
    then obtain w' where "fd_destroy K a t = (Ok (), w')" "heap w' = (heap t)(a := None)"
      "refs w' = (refs t)(a := 0)" "next_ref w' = next_ref t"
      by (rule fd_destroy_frees)
    with Throw run t show ?thesis
      by (simp add: constructing_def prog_simps same_fds_def)
  qed (use t in simp)
qed

lemma Socket_from_cases:
  assumes "heap w a = Some obj" and "refs w a = 1"
  shows "(\<exists>w'. Socket_from K a domain type w = (Ok a, w') \<and> same_fds w w')
    \<or> (\<exists>e w'. Socket_from K a domain type w = (Throw e, w') \<and> heap w' = (heap w)(a := None)
        \<and> refs w' = (refs w)(a := 0) \<and> next_ref w' = next_ref w)"
  using constructing_cases [OF assms safe_socket_verify [OF assms(1)]]
  unfolding Socket_from_def by blast

text \<open>A socket around a new descriptor: it is made, or it throws and is gone.\<close>

lemma new_socket_cases:
  assumes fresh: "heap w (next_ref w) = None" "refs w (next_ref w) = 0"
  obtains (thrown) e w' where "bindp (FileDescriptor n) (\<lambda>a. Socket_from K a domain type) w = (Throw e, w')"
      "heap w' = heap w" "refs w' = refs w" "next_ref w \<le> next_ref w'"
  | (made) w' where "bindp (FileDescriptor n) (\<lambda>a. Socket_from K a domain type) w = (Ok (next_ref w), w')" "0 \<le> n"
      "heap w' = (heap w)(next_ref w \<mapsto> \<lparr>w_fd = n, w_eof = False, w_closed = False,
         w_read_count = 0, w_write_count = 0\<rparr>)"
      "refs w' = (refs w)(next_ref w := 1)" "next_ref w' = Suc (next_ref w)"
proof (cases "n < 0")
  case True
  then have "FileDescriptor n w = (Throw (Runtime_error (''invalid fd number:'' @ int_to_string n)), w)"
    by (simp add: FileDescriptor_eq)
  then show thesis by (intro thrown [of "Runtime_error (''invalid fd number:'' @ int_to_string n)" w])
    (simp_all add: prog_simps)
next
  case False
  let ?b = "next_ref w"
    and ?new = "\<lparr>w_fd = n, w_eof = False, w_closed = False, w_read_count = 0, w_write_count = 0\<rparr>"
  let ?w1 = "w\<lparr>heap := (heap w)(?b \<mapsto> ?new), refs := (refs w)(?b := 1), next_ref := Suc ?b\<rparr>"
  have run: "bindp (FileDescriptor n) (\<lambda>a. Socket_from K a domain type) w = Socket_from K ?b domain type ?w1"
    using False by (simp add: FileDescriptor_eq prog_simps)
  have "heap ?w1 ?b = Some ?new" "refs ?w1 ?b = 1" by simp_all
  from Socket_from_cases [OF this, of K domain type] show thesis
  proof (elim disjE exE conjE)
    fix w' assume "Socket_from K ?b domain type ?w1 = (Ok ?b, w')" "same_fds ?w1 w'"
    with run False show thesis by (intro made [of w']) (simp_all add: same_fds_def)
  next
    fix e w' assume "Socket_from K ?b domain type ?w1 = (Throw e, w')" "heap w' = (heap ?w1)(?b := None)"
      "refs w' = (refs ?w1)(?b := 0)" "next_ref w' = next_ref ?w1"
    with run fresh show thesis by (intro thrown [of e w']) (simp_all add: fun_upd_idem)
  qed
qed

lemma Socket_outcomes:
  obtains (thrown) e w' where "Socket K domain type w = (Throw e, w')" "same_fds w w'"
  | (made) n w' where "Socket K domain type w = (Ok (next_ref w), w')" "0 \<le> n"
      "heap w' = (heap w)(next_ref w \<mapsto> \<lparr>w_fd = n, w_eof = False, w_closed = False,
         w_read_count = 0, w_write_count = 0\<rparr>)"
      "refs w' = (refs w)(next_ref w := 1)" "next_ref w' = Suc (next_ref w)"
proof (cases rule: sys_cases [of "''socket''" "k_socket K domain type 0" w])
  case (ok n x k e)
  show thesis
  proof (cases "n < 0")
    case True
    show thesis
      by (rule thrown [of "Runtime_error (''invalid fd number:'' @ int_to_string n)" "w\<lparr>kern := k, errno := e\<rparr>"])
        (use True ok in \<open>simp_all add: Socket_def prog_simps FileDescriptor_eq\<close>)
  next
    case False
    let ?new = "\<lparr>w_fd = n, w_eof = False, w_closed = False, w_read_count = 0, w_write_count = 0\<rparr>"
    show thesis
      by (rule made [of "w\<lparr>kern := k, errno := e, heap := (heap w)(next_ref w \<mapsto> ?new),
            refs := (refs w)(next_ref w := 1), next_ref := Suc (next_ref w)\<rparr>" n])
        (use False ok in \<open>simp_all add: Socket_def prog_simps FileDescriptor_eq\<close>)
  qed
next
  case (fail k e)
  show thesis
    by (rule thrown [of "unix_error ''socket'' e" "w\<lparr>kern := k, errno := e\<rparr>"])
      (use fail in \<open>simp_all add: Socket_def prog_simps\<close>)
qed

section \<open>Receiving a datagram\<close>

lemma udp_recv_eq:
  assumes obj: "heap w a = Some obj" and mtu: "unat mtu < 2 ^ 63"
    and call: "k_recvfrom K (w_fd obj) mtu 128 (kern w)
      = (int (length msg), e, (take (unat mtu) msg, src, word_of_nat (length src)), k)"
    and msg: "length msg < 2 ^ 31" and src: "length src \<le> 128"
  shows "udp_recv K a mtu w =
    (if unat mtu < length msg
     then (Throw (Runtime_error ''recvfrom (oversized datagram)''), w\<lparr>kern := k\<rparr>)
     else (Ok \<lparr>source_address = \<lparr>addr_size = word_of_nat (length src),
                                addr_storage = src @ replicate (128 - length src) 0\<rparr>, payload = msg\<rparr>,
           w\<lparr>kern := k, heap := (heap w)(a \<mapsto> obj\<lparr>w_read_count := w_read_count obj + 1\<rparr>)\<rparr>))"
proof -
  let ?f = "k_recvfrom K (w_fd obj) mtu 128" and ?n = "unat mtu"
  have inv: "invoke ?f w = (Ok (int (length msg), take ?n msg, src, word_of_nat (length src)), w\<lparr>kern := k\<rparr>)"
    using call by (simp add: invoke_def)
  have c: "c_int (int (length msg)) = int (length msg)" using msg by (intro c_int_id) simp_all
  have size: "csize (replicate ?n (0 :: u8)) = mtu" by (simp add: csize_def)
  have smtu: "sint mtu = int ?n"
    using sint_csize [of "replicate ?n (0 :: u8)"] mtu by (simp add: size)
  have cmp: "uint mtu < int (length msg) \<longleftrightarrow> ?n < length msg"
    by (simp only: int_le_uint not_le [symmetric])
  have from_len: "unat (word_of_nat (length src) :: u32) = length src"
    using src by (simp add: unat_of_nat)
  have addr: "Address_raw (src @ replicate (128 - length src) 0) (ucast (word_of_nat (length src) :: u32))
      = Ok \<lparr>addr_size = word_of_nat (length src), addr_storage = src @ replicate (128 - length src) 0\<rparr>"
    using src from_len by (simp add: Address_raw_eq)
  have null: "Address_raw [] 0 = Ok \<lparr>addr_size = 0, addr_storage = replicate 128 0\<rparr>"
    by (simp add: Address_raw_eq)
  note defs = udp_recv_def udp_recv_into_def null prog_simps fd_simps string_resize_Ok SystemCall_def
    store_data_def
  show ?thesis
  proof (cases "?n < length msg")
    case True
    then show ?thesis
      using obj inv c mtu src smtu size cmp by (simp add: defs)
  next
    case False
    then have "unat (word_of_nat (length msg) :: size_t) = length msg"
      using mtu by (simp add: unat_of_nat)
    with False show ?thesis
      using obj inv c mtu src smtu size cmp addr by (simp add: defs)
  qed
qed

section \<open>Properties\<close>


text \<open>
  A kernel whose state is the next descriptor number to give out; every descriptor reports the
  domain and type it was made with.
\<close>

definition socket_kernel :: "int \<Rightarrow> int \<Rightarrow> int kernel" where
  "socket_kernel domain type = (failing_kernel 9)\<lparr>
     k_socket := (\<lambda>_ _ _ k. (k, 0, (), k + 1)), k_accept := (\<lambda>_ k. (k, 0, (), k + 1)),
     k_close := (\<lambda>_ k. (0, 0, (), k)), k_shutdown := (\<lambda>_ _ k. (0, 0, (), k)),
     k_getsockopt := (\<lambda>_ _ option k. (0, 0, (if option = SO_DOMAIN then domain else type, 4), k))\<rparr>"

lemma fd_inv_open_world: "0 \<le> fd \<Longrightarrow> fd_inv (open_world k fd)"
  by (simp add: open_world_def FileDescriptor_eq fd_inv_def)


text \<open>
  C25. A socket is made from a descriptor exactly if the kernel confirms what it is: with the
  last handle of a descriptor, the constructor returns that socket if and only if both
  \<open>getsockopt\<close> calls succeed, answer with an \<open>int\<close> and report the wanted domain and type. Otherwise
  it throws and the descriptor is gone.
\<close>

theorem socket_from_verified:
  assumes obj: "heap w a = Some obj" "refs w a = 1"
    and d1: "k_getsockopt K (w_fd obj) SOL_SOCKET SO_DOMAIN (kern w) = (r1, e1, (v1, l1), k1)"
    and d2: "k_getsockopt K (w_fd obj) SOL_SOCKET SO_TYPE k1 = (r2, e2, (v2, l2), k2)"
    and err: "r1 = 0 \<or> (r1 = -1 \<and> e1 \<noteq> 0)" "r2 = 0 \<or> (r2 = -1 \<and> e2 \<noteq> 0)"
  shows "if r1 = 0 \<and> l1 = 4 \<and> v1 = domain \<and> r2 = 0 \<and> l2 = 4 \<and> v2 = type
    then \<exists>w'. Socket_from K a domain type w = (Ok a, w') \<and> heap w' = heap w
    else \<exists>e w'. Socket_from K a domain type w = (Throw e, w') \<and> heap w' = (heap w)(a := None)
      \<and> refs w' = (refs w)(a := 0)"
proof -
  let ?f = "k_getsockopt K (w_fd obj) SOL_SOCKET SO_DOMAIN"
    and ?g = "k_getsockopt K (w_fd obj) SOL_SOCKET SO_TYPE"
  have f: "sys ''getsockopt'' ?f w = (if r1 = 0 then (Ok (0, v1, l1), w\<lparr>kern := k1\<rparr>)
      else (Throw (unix_error ''getsockopt'' e1), w\<lparr>kern := k1, errno := e1\<rparr>))"
    using err(1) sys_Ok [where f = ?f and w = w and attempt = "''getsockopt''", OF d1]
      sys_fail [where f = ?f and w = w and attempt = "''getsockopt''", OF d1]
    by auto
  have d2': "?g (kern (w\<lparr>kern := k1\<rparr>)) = (r2, e2, (v2, l2), k2)" using d2 by simp
  have g: "sys ''getsockopt'' ?g (w\<lparr>kern := k1\<rparr>) = (if r2 = 0 then (Ok (0, v2, l2), w\<lparr>kern := k2\<rparr>)
      else (Throw (unix_error ''getsockopt'' e2), w\<lparr>kern := k2, errno := e2\<rparr>))"
    using err(2) sys_Ok [where f = ?g and attempt = "''getsockopt''", OF d2']
      sys_fail [where f = ?g and attempt = "''getsockopt''", OF d2']
    by auto
  let ?body = "socket_verify K a domain type"
    and ?c = "r1 = 0 \<and> l1 = 4 \<and> v1 = domain \<and> r2 = 0 \<and> l2 = 4 \<and> v2 = type"
  have c: "fst (?body w) = Ok () \<longleftrightarrow> ?c"
    using obj f g
    by (cases "r1 = 0"; cases "r2 = 0"; cases "l1 = 4 \<and> v1 = domain")
      (auto simp: socket_verify_def prog_simps fd_simps)
  from constructing_cases [OF obj safe_socket_verify [OF obj(1), of K domain type], of K] show ?thesis
  proof (elim disjE exE conjE)
    fix w' assume "?body w = (Ok (), w')" "constructing K a ?body w = (Ok a, w')" "same_fds w w'"
    with c show ?thesis by (simp add: Socket_from_def same_fds_def)
  next
    fix e w' assume "fst (?body w) = Throw e" and t: "constructing K a ?body w = (Throw e, w')"
      "heap w' = (heap w)(a := None)" "refs w' = (refs w)(a := 0)"
    then have "\<not> ?c" using c by simp
    then show ?thesis using t by (simp only: Socket_from_def if_False) blast
  qed
qed

theorem socket_from_verified_witness:
  "\<exists>e w'. LocalStreamSocket (socket_kernel 2 1) 0 (open_world 4 3) = (Throw e, w') \<and> heap w' 0 = None"
proof -
  let ?K = "socket_kernel 2 1" and ?w = "open_world 4 3"
    and ?obj = "\<lparr>w_fd = 3, w_eof = False, w_closed = False, w_read_count = 0, w_write_count = 0\<rparr>"
  have obj: "heap ?w 0 = Some ?obj" "refs ?w 0 = 1" by simp_all
  have "k_getsockopt ?K (w_fd ?obj) SOL_SOCKET SO_DOMAIN (kern ?w) = (0, 0, (2, 4), 4)"
    "k_getsockopt ?K (w_fd ?obj) SOL_SOCKET SO_TYPE 4 = (0, 0, (1, 4), 4)"
    by (simp_all add: socket_kernel_def SO_DOMAIN_def SO_TYPE_def)
  from socket_from_verified [OF obj this, of AF_UNIX SOCK_STREAM] show ?thesis
    by (auto simp: LocalStreamSocket_def AF_UNIX_def)
qed

text \<open>
  \<open>shutdown\<close> counts as activity on the descriptor: one read, one write or one of each, and only
  when the kernel accepts it; any other \<open>how\<close> that the kernel accepted throws.
\<close>

lemma socket_shutdown_run:
  assumes obj: "heap w a = Some obj"
    and call: "k_shutdown K (w_fd obj) how (kern w) = (0, e, (), k)"
  shows "socket_shutdown K a how w =
    (if how = SHUT_RD \<or> how = SHUT_WR \<or> how = SHUT_RDWR then
       (Ok (), w\<lparr>kern := k, heap := (heap w)(a \<mapsto> obj\<lparr>
          w_read_count := w_read_count obj + (if how = SHUT_WR then 0 else 1),
          w_write_count := w_write_count obj + (if how = SHUT_RD then 0 else 1)\<rparr>)\<rparr>)
     else (Throw (Runtime_error ''Socket::shutdown() called with invalid `how`''), w\<lparr>kern := k\<rparr>))"
proof -
  have "sys ''shutdown'' (k_shutdown K (w_fd obj) how) w = (Ok (0, ()), w\<lparr>kern := k\<rparr>)"
    by (rule sys_Ok [where f = "k_shutdown K (w_fd obj) how" and w = w, OF call]) simp_all
  then show ?thesis
    using obj by (simp add: socket_shutdown_def prog_simps fd_simps SHUT_RD_def SHUT_WR_def SHUT_RDWR_def)
qed

text \<open>
  C26. A datagram is received whole or not at all: when the kernel has a datagram (and cuts what it
  stores, not what it reports, as \<open>MSG_TRUNC\<close> asks), \<open>recv\<close> returns exactly its bytes and the address
  of its sender and counts a read, unless it is longer than the \<open>mtu\<close>: then it throws, counts
  nothing and returns no part of it.
\<close>

theorem udp_recv_whole_datagram:
  assumes obj: "heap w a = Some obj" and mtu: "unat mtu < 2 ^ 63"
    and call: "k_recvfrom K (w_fd obj) mtu 128 (kern w)
      = (int (length msg), e, (take (unat mtu) msg, src, word_of_nat (length src)), k)"
    and msg: "length msg < 2 ^ 31" and src: "length src \<le> 128"
  shows "udp_recv K a mtu w =
    (if unat mtu < length msg
     then (Throw (Runtime_error ''recvfrom (oversized datagram)''), w\<lparr>kern := k\<rparr>)
     else (Ok \<lparr>source_address = \<lparr>addr_size = word_of_nat (length src),
                                addr_storage = src @ replicate (128 - length src) 0\<rparr>, payload = msg\<rparr>,
           w\<lparr>kern := k, heap := (heap w)(a \<mapsto> obj\<lparr>w_read_count := w_read_count obj + 1\<rparr>)\<rparr>))"
  using assms by (rule udp_recv_eq)

text \<open>A kernel whose state is the datagrams waiting, each with the socket address of its sender.\<close>

definition datagram_kernel :: "(bytes \<times> bytes) list kernel" where
  "datagram_kernel = (failing_kernel 11)\<lparr>k_recvfrom := (\<lambda>fd n _ k. case k of
       [] \<Rightarrow> (-1, 11, ([], [], 0), [])
     | (msg, src) # k' \<Rightarrow> (int (length msg), 0, (take (unat n) msg, src, word_of_nat (length src)), k'))\<rparr>"

theorem udp_recv_whole_datagram_witness:
  "(\<exists>x. fst (udp_recv datagram_kernel 0 4 (open_world [([1, 2, 3], sockaddr_in 53 9)] 5)) = Ok x
       \<and> payload x = [1, 2, 3])
   \<and> fst (udp_recv datagram_kernel 0 2 (open_world [([1, 2, 3], sockaddr_in 53 9)] 5))
     = Throw (Runtime_error ''recvfrom (oversized datagram)'')"
proof -
  let ?w = "open_world [([1, 2, 3 :: u8], sockaddr_in 53 9)] 5"
    and ?obj = "\<lparr>w_fd = 5, w_eof = False, w_closed = False, w_read_count = 0, w_write_count = 0\<rparr>"
  have obj: "heap ?w 0 = Some ?obj" by simp
  have call: "k_recvfrom datagram_kernel (w_fd ?obj) n 128 (kern ?w) = (int (length [1, 2, 3 :: u8]), 0,
      (take (unat n) [1, 2, 3], sockaddr_in 53 9, word_of_nat (length (sockaddr_in 53 9))), [])" for n
    by (simp add: datagram_kernel_def)
  note spec = udp_recv_whole_datagram [OF obj _ call]
  show ?thesis using spec [of 4] spec [of 2] by simp
qed

text \<open>
  A datagram is sent whole or the caller hears of it: \<open>sendto\<close> hands the kernel the payload's
  pieces as they are with the destination's socket address; it returns, and counts a write, only if
  the kernel took as many bytes as the payload has, and throws in every other case, leaving all
  descriptors as they were.
\<close>

lemma udp_sendto_whole_datagram:
  assumes obj: "heap w a = Some obj"
    and call: "k_sendmsg K (w_fd obj) (Some (addr_storage dest)) (addr_size dest)
        (viewlist_as_iovecs pieces) (kern w) = (r, e, (), k)"
    and r: "(r = -1 \<and> e \<noteq> 0) \<or> (0 \<le> r \<and> r < 2 ^ 31)" and small: "length (concat pieces) < 2 ^ 63"
  shows "\<exists>w'. (if r = int (length (concat pieces))
       then udp_sendto K a dest pieces w = (Ok (), w')
         \<and> heap w' = (heap w)(a \<mapsto> obj\<lparr>w_write_count := w_write_count obj + 1\<rparr>)
       else (\<exists>x. udp_sendto K a dest pieces w = (Throw x, w')) \<and> same_fds w w')"
proof -
  let ?f = "k_sendmsg K (w_fd obj) (Some (addr_storage dest)) (addr_size dest) (viewlist_as_iovecs pieces)"
  note defs = udp_sendto_def sendmsg_helper_def Let_def prog_simps fd_simps
  from r show ?thesis
  proof
    assume "r = -1 \<and> e \<noteq> 0"
    moreover from this have "sys ''sendmsg'' ?f w = (Throw (unix_error ''sendmsg'' e), w\<lparr>kern := k, errno := e\<rparr>)"
      by (intro sys_fail [where f = ?f and w = w, OF call]) simp_all
    ultimately show ?thesis using obj by (simp add: defs)
  next
    assume r: "0 \<le> r \<and> r < 2 ^ 31"
    then have sys: "sys ''sendmsg'' ?f w = (Ok (r, ()), w\<lparr>kern := k\<rparr>)"
      by (intro sys_Ok [where f = ?f and w = w, OF call]) simp_all
    have "uint (word_of_int r :: size_t) = r"
      using r by (simp add: unsigned_of_int take_bit_int_eq_self)
    moreover have "uint (viewlist_size pieces) = int (length (concat pieces))"
      using unat_csize [of "concat pieces"] small by (simp add: viewlist_size_eq uint_nat del: of_nat_unat)
    ultimately have "(word_of_int r :: size_t) = viewlist_size pieces \<longleftrightarrow> r = int (length (concat pieces))"
      by (metis word_uint_eq_iff)
    with obj sys show ?thesis by (auto simp: defs)
  qed
qed

text \<open>A kernel that takes datagrams of at most four bytes and counts the calls.\<close>

definition small_datagram_kernel :: "nat kernel" where
  "small_datagram_kernel = (failing_kernel 90)\<lparr>k_sendmsg := (\<lambda>fd to len iov k.
     let n = length (concat (map iov_base iov))
     in if n \<le> 4 then (int n, 0, (), k + 1) else (-1, 90, (), k + 1))\<rparr>"

lemma udp_sendto_whole_datagram_witness:
  "\<exists>w' obj. udp_sendto small_datagram_kernel 0 \<lparr>addr_size = 16, addr_storage = replicate 128 0\<rparr> [[1, 2], [3]]
       (open_world 0 5) = (Ok (), w') \<and> heap w' 0 = Some obj \<and> w_write_count obj = 1"
proof -
  let ?w = "open_world 0 5 :: nat world" and ?d = "\<lparr>addr_size = 16, addr_storage = replicate 128 0\<rparr>"
    and ?obj = "\<lparr>w_fd = 5, w_eof = False, w_closed = False, w_read_count = 0, w_write_count = 0\<rparr>"
  have obj: "heap ?w 0 = Some ?obj" by simp
  have "k_sendmsg small_datagram_kernel (w_fd ?obj) (Some (addr_storage ?d)) (addr_size ?d)
      (viewlist_as_iovecs [[1, 2], [3]]) (kern ?w) = (3, 0, (), 1)"
    by (simp add: small_datagram_kernel_def)
  from udp_sendto_whole_datagram [OF obj this] show ?thesis by auto
qed

lemma ifr_name_eq:
  "ifr_name devname = take 15 (c_str devname) @ replicate (16 - min 15 (length (c_str devname))) 0"
proof -
  have "replicate (16 - min 15 m) (0 :: u8) = replicate (15 - m) 0 @ [0]" for m
  proof (cases "m \<le> 15")
    case True
    then have "16 - min 15 m = Suc (15 - m)" by (simp add: min_def)
    then show ?thesis by (simp add: replicate_append_same)
  qed simp
  then show ?thesis
    unfolding ifr_name_def strncpy_def IFNAMSIZ_def by (auto simp: list_update_append min_def)
qed


text \<open>A kernel whose device is busy: it opens the clone device and refuses the request.\<close>

definition busy_tun_kernel :: "int kernel" where
  "busy_tun_kernel = (failing_kernel 16)\<lparr>k_open := (\<lambda>_ _ k. (k, 0, (), k + 1))\<rparr>"


end
