(* ===== verification/Event_Loop.thy ===== *)
theory Event_Loop
  imports File_Descriptor "HOL-Library.Sublist"
begin

text \<open>
  The event loop: \<open>class EventLoop\<close> of \<open>libsponge/util/eventloop.hh\<close> and
  \<open>libsponge/util/eventloop.cc\<close>.

  The client's closures (\<open>callback\<close>, \<open>interest\<close>, \<open>cancel\<close>) are code outside the class: a rule
  carries names of closures, of a type \<open>'c\<close>, and \<open>closures\<close> gives their meaning, programs over the
  whole state: the process, the list of rules (a closure may call \<open>add_rule\<close>) and the client's own
  data. \<open>None\<close> stands for a default argument of \<open>add_rule\<close>. An iterator into \<open>_rules\<close> is a position.

  The first loop of \<open>wait_next_event\<close> runs for ever if closures keep adding rules, so it is a
  \<open>partial_function\<close> whose value \<open>None\<close> is divergence; the second ends for every client, because
  its counter runs out of \<open>pollfds\<close>: reading past them is undefined behaviour.

  The lemmas: with closures that leave the list of rules alone, \<open>wait_next_event\<close> returns, has no
  undefined behaviour and matches every poll result with the rule it was asked for, although rules
  are erased on the way; and what it does on errors, busy callbacks and callbacks that add rules.
\<close>

section \<open>State\<close>

datatype direction = In | Out

datatype wait_result = Success | Timeout | Exit

definition POLLIN :: u16 where "POLLIN = 0x1"
definition POLLOUT :: u16 where "POLLOUT = 0x4"
definition POLLERR :: u16 where "POLLERR = 0x8"
definition POLLHUP :: u16 where "POLLHUP = 0x10"
definition POLLNVAL :: u16 where "POLLNVAL = 0x20"
definition EINTR :: int where "EINTR = 4"

fun direction_events :: "direction \<Rightarrow> u16" where
  "direction_events In = POLLIN"
| "direction_events Out = POLLOUT"

record 'c rule =
  rl_fd :: fd_ref
  rl_direction :: direction
  rl_callback :: 'c
  rl_interest :: "'c option"
  rl_cancel :: "'c option"

record ('k, 'c, 'u) loop =
  lp_world :: "'k world"
  lp_rules :: "'c rule list"
  lp_app :: 'u

record ('k, 'c, 'u) closures =
  cl_run :: "'c \<Rightarrow> (('k, 'c, 'u) loop, unit) prog"
  cl_ask :: "'c \<Rightarrow> (('k, 'c, 'u) loop, bool) prog"

definition on_loop :: "('k world, 'a) prog \<Rightarrow> (('k, 'c, 'u) loop, 'a) prog" where
  "on_loop = zoomp lp_world (\<lambda>w s. s\<lparr>lp_world := w\<rparr>)"

definition service_count :: "'c rule \<Rightarrow> (('k, 'c, 'u) loop, u32) prog" where
  "service_count r =
     (if rl_direction r = In then on_loop (fd_read_count (rl_fd r)) else on_loop (fd_write_count (rl_fd r)))"

definition add_rule ::
  "fd_ref \<Rightarrow> direction \<Rightarrow> 'c \<Rightarrow> 'c option \<Rightarrow> 'c option \<Rightarrow> (('k, 'c, 'u) loop, unit) prog" where
  "add_rule fd direction callback interest cancel =
     bindp (on_loop (fd_duplicate fd)) (\<lambda>copy.
       modifyp (\<lambda>s. s\<lparr>lp_rules := lp_rules s @ [\<lparr>rl_fd = copy, rl_direction = direction,
         rl_callback = callback, rl_interest = interest, rl_cancel = cancel\<rparr>]\<rparr>))"

definition run_interest :: "('k, 'c, 'u) closures \<Rightarrow> 'c rule \<Rightarrow> (('k, 'c, 'u) loop, bool) prog" where
  "run_interest C r = (case rl_interest r of None \<Rightarrow> retp True | Some c \<Rightarrow> cl_ask C c)"

definition run_cancel :: "('k, 'c, 'u) closures \<Rightarrow> 'c rule \<Rightarrow> (('k, 'c, 'u) loop, unit) prog" where
  "run_cancel C r = (case rl_cancel r of None \<Rightarrow> retp () | Some c \<Rightarrow> cl_run C c)"

text \<open>\<open>_rules.erase(it)\<close>: the rule leaves the list and its handle is destroyed.\<close>

definition erase_rule :: "'k kernel \<Rightarrow> nat \<Rightarrow> (('k, 'c, 'u) loop, unit) prog" where
  "erase_rule K i =
     bindp (getp (\<lambda>s. rl_fd (lp_rules s ! i))) (\<lambda>a.
     thenp (modifyp (\<lambda>s. s\<lparr>lp_rules := take i (lp_rules s) @ drop (Suc i) (lp_rules s)\<rparr>))
       (on_loop (fd_destroy K a)))"

section \<open>\<open>wait_next_event\<close>\<close>

text \<open>
  One turn of the first loop, at position \<open>i\<close>: \<open>None\<close> if the rule was erased, otherwise its
  \<open>pollfd\<close> and whether it is to be polled.
\<close>

definition setup_body ::
  "'k kernel \<Rightarrow> ('k, 'c, 'u) closures \<Rightarrow> nat \<Rightarrow> (('k, 'c, 'u) loop, (pollfd \<times> bool) option) prog" where
  "setup_body K C i =
     bindp (getp (\<lambda>s. lp_rules s ! i)) (\<lambda>this_rule.
     bindp (if rl_direction this_rule = In then on_loop (fd_eof (rl_fd this_rule)) else retp False) (\<lambda>at_eof.
     if at_eof then thenp (run_cancel C this_rule) (thenp (erase_rule K i) (retp None))
     else bindp (on_loop (fd_closed (rl_fd this_rule))) (\<lambda>closed.
     if closed then thenp (run_cancel C this_rule) (thenp (erase_rule K i) (retp None))
     else bindp (run_interest C this_rule) (\<lambda>interested.
          bindp (on_loop (fd_num (rl_fd this_rule))) (\<lambda>fd.
          retp (Some (\<lparr>pfd_fd = fd,
                       pfd_events = (if interested then direction_events (rl_direction this_rule) else 0),
                       pfd_revents = 0\<rparr>, interested)))))))"

partial_function (option) setup_loop ::
  "'k kernel \<Rightarrow> ('k, 'c, 'u) closures \<Rightarrow> nat \<Rightarrow> pollfd list \<Rightarrow> bool \<Rightarrow> ('k, 'c, 'u) loop \<Rightarrow>
     ((pollfd list \<times> bool) outcome \<times> ('k, 'c, 'u) loop) option" where
  "setup_loop K C i pollfds something_to_poll s =
     (if i < length (lp_rules s) then
        (case setup_body K C i s of (r, t) \<Rightarrow>
           (case r of
              Ok x \<Rightarrow>
                (case x of
                   None \<Rightarrow> setup_loop K C i pollfds something_to_poll t
                 | Some z \<Rightarrow> setup_loop K C (Suc i) (pollfds @ [fst z]) (something_to_poll \<or> snd z) t)
            | Throw e \<Rightarrow> Some (Throw e, t)
            | UB \<Rightarrow> Some (UB, t)))
      else Some (Ok (pollfds, something_to_poll), s))"

text \<open>The kernel writes \<open>revents\<close> into the array it is given.\<close>

definition set_revents :: "pollfd list \<Rightarrow> u16 list \<Rightarrow> pollfd list" where
  "set_revents pollfds revs =
     map (\<lambda>(p, r). p\<lparr>pfd_revents := r\<rparr>) (zip pollfds revs) @ drop (length revs) pollfds"

text \<open>The call of \<open>poll\<close> in its \<open>try\<close> block: the result to return at once, if any.\<close>

definition poll_call ::
  "'k kernel \<Rightarrow> pollfd list \<Rightarrow> int \<Rightarrow> ('k world, wait_result option \<times> pollfd list) prog" where
  "poll_call K pollfds timeout_ms =
     bindp (invoke (k_poll K pollfds timeout_ms)) (\<lambda>(r, revs).
     bindp (catchp
       (bindp (SystemCall ''poll'' (c_int r) 0) (\<lambda>n. retp (if n = 0 then Some Timeout else None)))
       (\<lambda>e. case e of
          Tagged_error category attempt code \<Rightarrow> retp (if code = EINTR then Some Exit else None)
        | _ \<Rightarrow> throwp e)) (\<lambda>done.
     retp (done, set_revents pollfds revs)))"

text \<open>One turn of the second loop: whether the rule at position \<open>i\<close> was erased.\<close>

definition results_body ::
  "'k kernel \<Rightarrow> ('k, 'c, 'u) closures \<Rightarrow> pollfd list \<Rightarrow> nat \<Rightarrow> nat \<Rightarrow> (('k, 'c, 'u) loop, bool) prog" where
  "results_body K C pollfds idx i =
     bindp (liftp (if idx < length pollfds then Ok (pollfds ! idx) else UB)) (\<lambda>this_pollfd.
     if pfd_revents this_pollfd AND (POLLERR OR POLLNVAL) \<noteq> 0
     then throwp (Runtime_error ''EventLoop: error on polled file descriptor'')
     else bindp (getp (\<lambda>s. lp_rules s ! i)) (\<lambda>this_rule.
       let poll_ready = (pfd_revents this_pollfd AND pfd_events this_pollfd \<noteq> 0);
           poll_hup = (pfd_revents this_pollfd AND POLLHUP \<noteq> 0)
       in if poll_hup \<and> pfd_events this_pollfd \<noteq> 0 \<and> \<not> poll_ready
          then thenp (run_cancel C this_rule) (thenp (erase_rule K i) (retp True))
          else if poll_ready
          then bindp (service_count this_rule) (\<lambda>count_before.
               thenp (cl_run C (rl_callback this_rule))
               (bindp (service_count this_rule) (\<lambda>count_after.
                bindp (if count_before = count_after then run_interest C this_rule else retp False) (\<lambda>busy.
                if busy then throwp (Runtime_error ''EventLoop: busy wait detected: callback did not read/write fd and is still interested'')
                else retp False))))
          else retp False))"

lemma results_body_idx: "results_body K C pollfds idx i s = (Ok b, t) \<Longrightarrow> idx < length pollfds"
  by (auto simp: results_body_def prog_simps split: if_splits)

function results_loop ::
  "'k kernel \<Rightarrow> ('k, 'c, 'u) closures \<Rightarrow> pollfd list \<Rightarrow> nat \<Rightarrow> nat \<Rightarrow> (('k, 'c, 'u) loop, unit) prog" where
  "results_loop K C pollfds idx i s =
     (if i < length (lp_rules s) then
        (case results_body K C pollfds idx i s of
           (Ok erased, t) \<Rightarrow> results_loop K C pollfds (Suc idx) (if erased then i else Suc i) t
         | (Throw e, t) \<Rightarrow> (Throw e, t)
         | (UB, t) \<Rightarrow> (UB, t))
      else (Ok (), s))"
  by pat_completeness auto
termination
  by (relation "measure (\<lambda>(K, C, pollfds, idx, i, s). length pollfds - idx)")
    (auto dest!: results_body_idx [OF sym])

declare results_loop.simps [simp del]

definition wait_next_event ::
  "'k kernel \<Rightarrow> ('k, 'c, 'u) closures \<Rightarrow> int \<Rightarrow> ('k, 'c, 'u) loop \<Rightarrow>
     (wait_result outcome \<times> ('k, 'c, 'u) loop) option" where
  "wait_next_event K C timeout_ms s =
     (case setup_loop K C 0 [] False s of
        None \<Rightarrow> None
      | Some (Throw e, t) \<Rightarrow> Some (Throw e, t)
      | Some (UB, t) \<Rightarrow> Some (UB, t)
      | Some (Ok (pollfds, something_to_poll), t) \<Rightarrow> Some (
          (if \<not> something_to_poll then retp Exit
           else bindp (on_loop (poll_call K pollfds timeout_ms)) (\<lambda>(done, pollfds).
             case done of
               Some result \<Rightarrow> retp result
             | None \<Rightarrow> thenp (results_loop K C pollfds 0 0) (retp Success))) t))"

section \<open>Closures that leave the rules alone\<close>

text \<open>
  Every rule holds a handle of its own, and the client \<open>mine a\<close> more of each object \<open>a\<close>, which its
  closures may use and do not give up. A program is calm at a rule if, run while the rule is in
  the list, it has no undefined behaviour, leaves the list of rules as it is and their
  descriptors alive under the same numbers.
\<close>

definition held :: "'c rule list \<Rightarrow> fd_ref \<Rightarrow> nat" where
  "held rules a = length (filter (\<lambda>r. rl_fd r = a) rules)"

definition loop_inv :: "(fd_ref \<Rightarrow> nat) \<Rightarrow> ('k, 'c, 'u) loop \<Rightarrow> bool" where
  "loop_inv mine s \<longleftrightarrow> fd_inv (lp_world s) \<and> (\<forall>a. held (lp_rules s) a + mine a \<le> refs (lp_world s) a)"

definition fd_no :: "('k, 'c, 'u) loop \<Rightarrow> fd_ref \<Rightarrow> int option" where
  "fd_no s a = map_option w_fd (heap (lp_world s) a)"

definition same_nos :: "('k, 'c, 'u) loop \<Rightarrow> ('k, 'c, 'u) loop \<Rightarrow> bool" where
  "same_nos s t \<longleftrightarrow> (\<forall>r \<in> set (lp_rules t). fd_no t (rl_fd r) = fd_no s (rl_fd r))"

definition calm :: "(fd_ref \<Rightarrow> nat) \<Rightarrow> 'c rule \<Rightarrow> (('k, 'c, 'u) loop, 'a) prog \<Rightarrow> bool" where
  "calm mine r m \<longleftrightarrow> (\<forall>s. loop_inv mine s \<and> r \<in> set (lp_rules s) \<longrightarrow>
     fst (m s) \<noteq> UB \<and> loop_inv mine (snd (m s)) \<and> lp_rules (snd (m s)) = lp_rules s \<and> same_nos s (snd (m s)))"

definition tame :: "(fd_ref \<Rightarrow> nat) \<Rightarrow> ('k, 'c, 'u) closures \<Rightarrow> bool" where
  "tame mine C \<longleftrightarrow> (\<forall>c r. calm mine r (cl_run C c) \<and> calm mine r (cl_ask C c))"

lemma same_nos_refl [simp]: "same_nos s s"
  by (simp add: same_nos_def)

lemma same_nos_trans:
  "same_nos s t \<Longrightarrow> same_nos t u \<Longrightarrow> set (lp_rules u) \<subseteq> set (lp_rules t) \<Longrightarrow> same_nos s u"
  unfolding same_nos_def by (metis subsetD)

lemma calmD:
  "calm mine r m \<Longrightarrow> loop_inv mine s \<Longrightarrow> r \<in> set (lp_rules s) \<Longrightarrow> m s = (q, t) \<Longrightarrow>
     q \<noteq> UB \<and> loop_inv mine t \<and> lp_rules t = lp_rules s \<and> same_nos s t"
  unfolding calm_def by (metis fst_conv snd_conv)

lemma calm_basic [prog_intros]: "calm mine r (retp x)" "calm mine r (throwp e)"
  by (simp_all add: calm_def prog_simps)

lemma calm_bindp [prog_intros]:
  fixes m :: "(('k, 'c, 'u) loop, 'a) prog"
  assumes m: "calm mine r m" and f: "\<And>x. calm mine r (f x)"
  shows "calm mine r (bindp m f)"
  unfolding calm_def
proof (intro allI impI, elim conjE)
  fix s :: "('k, 'c, 'u) loop"
  assume inv: "loop_inv mine s" and r: "r \<in> set (lp_rules s)"
  obtain q t where run: "m s = (q, t)" by fastforce
  note t = calmD [OF m inv r run]
  show "fst (bindp m f s) \<noteq> UB \<and> loop_inv mine (snd (bindp m f s)) \<and> lp_rules (snd (bindp m f s)) = lp_rules s
      \<and> same_nos s (snd (bindp m f s))"
  proof (cases q)
    case (Ok x)
    obtain q' u where run': "f x t = (q', u)" by fastforce
    from t r calmD [OF f _ _ run'] have "q' \<noteq> UB \<and> loop_inv mine u \<and> lp_rules u = lp_rules t \<and> same_nos t u"
      by simp
    with t run run' Ok show ?thesis
      by (simp add: prog_simps) (rule same_nos_trans [of s t u], simp_all)
  qed (use t run in \<open>simp_all add: prog_simps\<close>)
qed

lemma calm_if [prog_intros]: "calm mine r m \<Longrightarrow> calm mine r m' \<Longrightarrow> calm mine r (if c then m else m')"
  by simp

lemma calm_case_option [prog_intros]:
  "calm mine r m \<Longrightarrow> (\<And>x. calm mine r (f x)) \<Longrightarrow> calm mine r (case y of None \<Rightarrow> m | Some x \<Rightarrow> f x)"
  by (simp split: option.split)

lemma on_loop_apply [prog_simps]: "on_loop m s = (fst (m (lp_world s)), s\<lparr>lp_world := snd (m (lp_world s))\<rparr>)"
  by (simp add: on_loop_def zoomp_def split: prod.splits)

lemma held_pos: "r \<in> set rules \<Longrightarrow> 0 < held rules (rl_fd r)"
  by (auto simp: held_def length_greater_0_conv filter_empty_conv)

lemma loop_inv_alive:
  assumes "loop_inv mine s" and "r \<in> set (lp_rules s)"
  shows "\<exists>obj. heap (lp_world s) (rl_fd r) = Some obj"
proof -
  have "held (lp_rules s) (rl_fd r) + mine (rl_fd r) \<le> refs (lp_world s) (rl_fd r)"
    using assms(1) by (simp add: loop_inv_def)
  then have "0 < refs (lp_world s) (rl_fd r)" using held_pos [OF assms(2)] by linarith
  then show ?thesis using fd_invD assms(1) by (auto simp: loop_inv_def)
qed

lemma calm_accessors [prog_intros]:
  "calm mine r (on_loop (fd_num (rl_fd r)))" "calm mine r (on_loop (fd_eof (rl_fd r)))"
  "calm mine r (on_loop (fd_closed (rl_fd r)))" "calm mine r (service_count r)"
  using loop_inv_alive by (fastforce simp: calm_def service_count_def prog_simps fd_simps)+

text \<open>What is safe on the descriptors alone is calm; so is a change of the client's own data.\<close>

lemma calm_on_loop:
  assumes "\<And>s :: ('k, 'c, 'u) loop. loop_inv mine s \<Longrightarrow> safe (fd_le (lp_world s)) m"
  shows "calm mine r (on_loop m :: (('k, 'c, 'u) loop, 'a) prog)"
  unfolding calm_def
proof (intro allI impI, elim conjE)
  fix s :: "('k, 'c, 'u) loop"
  assume inv: "loop_inv mine s" and r: "r \<in> set (lp_rules s)"
  obtain q w where run: "m (lp_world s) = (q, w)" by fastforce
  from safeD [OF assms [OF inv] fd_le_refl run] have w: "q \<noteq> UB" "fd_le (lp_world s) w" by simp_all
  have refs: "refs w = refs (lp_world s)" using w(2) by (simp add: fd_le_def)
  have "same_nos s (s\<lparr>lp_world := w\<rparr>)"
    unfolding same_nos_def
  proof
    fix r' assume "r' \<in> set (lp_rules (s\<lparr>lp_world := w\<rparr>))"
    then have "r' \<in> set (lp_rules s)" by simp
    from loop_inv_alive [OF inv this] obtain x where x: "heap (lp_world s) (rl_fd r') = Some x" by blast
    from fd_le_heap [OF w(2) x] x show "fd_no (s\<lparr>lp_world := w\<rparr>) (rl_fd r') = fd_no s (rl_fd r')"
      by (auto simp: fd_no_def obj_le_def)
  qed
  moreover have "fd_inv w" using fd_inv_le [OF _ w(2)] inv by (simp add: loop_inv_def)
  ultimately show "fst (on_loop m s) \<noteq> UB \<and> loop_inv mine (snd (on_loop m s))
      \<and> lp_rules (snd (on_loop m s)) = lp_rules s \<and> same_nos s (snd (on_loop m s))"
    using w run inv refs by (simp add: prog_simps loop_inv_def)
qed

lemma calm_app: "calm mine r (modifyp (\<lambda>s. s\<lparr>lp_app := f (lp_app s)\<rparr>))"
  by (simp add: calm_def prog_simps loop_inv_def same_nos_def fd_no_def)

lemma loop_inv_mine_alive:
  assumes "loop_inv mine s" and "mine a > 0"
  shows "\<exists>obj. heap (lp_world s) a = Some obj"
proof -
  have "held (lp_rules s) a + mine a \<le> refs (lp_world s) a" using assms(1) by (simp add: loop_inv_def)
  then have "0 < refs (lp_world s) a" using assms(2) by linarith
  then show ?thesis using fd_invD assms(1) by (auto simp: loop_inv_def)
qed

lemma calm_run_interest [prog_intros]: "tame mine C \<Longrightarrow> calm mine r (run_interest C r')"
  and calm_run_cancel [prog_intros]: "tame mine C \<Longrightarrow> calm mine r (run_cancel C r')"
  and calm_run [prog_intros]: "tame mine C \<Longrightarrow> calm mine r (cl_run C c)"
  by (auto simp: tame_def run_interest_def run_cancel_def intro!: calm_basic split: option.split)

lemma erase_rule_effect:
  assumes inv: "loop_inv mine s" and i: "i < length (lp_rules s)"
  shows "\<exists>t. erase_rule K i s = (Ok (), t) \<and> loop_inv mine t \<and> same_nos s t
    \<and> lp_rules t = take i (lp_rules s) @ drop (Suc i) (lp_rules s)"
proof -
  let ?w = "lp_world s" and ?r = "lp_rules s ! i" and ?rest = "take i (lp_rules s) @ drop (Suc i) (lp_rules s)"
  let ?a = "rl_fd ?r"
  have split: "lp_rules s = take i (lp_rules s) @ ?r # drop (Suc i) (lp_rules s)"
    using i by (rule id_take_nth_drop)
  have held: "held (lp_rules s) b = held ?rest b + (if b = ?a then 1 else 0)" for b
    by (subst split) (simp add: held_def)
  have refs: "held (lp_rules s) b + mine b \<le> refs ?w b" for b using inv by (simp add: loop_inv_def)
  have "0 < refs ?w ?a" using refs [of ?a] by (simp add: held)
  from fd_destroy_effect [OF _ this, of K] inv obtain w' where
    w': "fd_destroy K ?a ?w = (Ok (), w')" "fd_inv w'" "refs w' = (refs ?w)(?a := refs ?w ?a - 1)"
      "\<forall>b. refs w' b > 0 \<longrightarrow> heap w' b = heap ?w b"
    by (auto simp: loop_inv_def)
  let ?t = "s\<lparr>lp_rules := ?rest, lp_world := w'\<rparr>"
  have run: "erase_rule K i s = (Ok (), ?t)"
    using w'(1) by (simp add: erase_rule_def prog_simps)
  have le: "held ?rest b + mine b \<le> refs w' b" for b
    using refs [of b] by (simp add: held w'(3) split: if_splits)
  have "same_nos s ?t"
    unfolding same_nos_def
  proof
    fix r assume "r \<in> set (lp_rules ?t)"
    then have "0 < held ?rest (rl_fd r)" by (intro held_pos) simp
    with le [of "rl_fd r"] w'(4) show "fd_no ?t (rl_fd r) = fd_no s (rl_fd r)"
      by (simp add: fd_no_def)
  qed
  with run le w'(2) show ?thesis by (simp add: loop_inv_def)
qed

section \<open>The first loop\<close>

text \<open>A rule and the \<open>pollfd\<close> made for it.\<close>

definition polled_for :: "('k, 'c, 'u) loop \<Rightarrow> 'c rule \<Rightarrow> pollfd \<Rightarrow> bool" where
  "polled_for s r p \<longleftrightarrow> fd_no s (rl_fd r) = Some (pfd_fd p)
     \<and> pfd_events p \<in> {0, direction_events (rl_direction r)} \<and> pfd_revents p = 0"

lemma subseq_subset: "subseq xs ys \<Longrightarrow> set xs \<subseteq> set ys"
  by (induction rule: list_emb.induct) auto

lemma polled_for_same:
  "same_nos s t \<Longrightarrow> set rules \<subseteq> set (lp_rules t) \<Longrightarrow> list_all2 (polled_for s) rules ps \<Longrightarrow>
     list_all2 (polled_for t) rules ps"
  by (auto simp: list_all2_conv_all_nth polled_for_def same_nos_def subset_iff)

lemma direction_events_nonzero [simp]: "direction_events d \<noteq> 0"
  by (cases d) (simp_all add: POLLIN_def POLLOUT_def)

text \<open>The rule is erased, it stays with its \<open>pollfd\<close>, or a closure throws.\<close>

lemma setup_body_cases:
  assumes C: "tame mine C" and inv: "loop_inv mine s" and i: "i < length (lp_rules s)"
  obtains (erased) t where "setup_body K C i s = (Ok None, t)" "loop_inv mine t" "same_nos s t"
      "lp_rules t = take i (lp_rules s) @ drop (Suc i) (lp_rules s)"
  | (kept) p b t where "setup_body K C i s = (Ok (Some (p, b)), t)" "loop_inv mine t" "same_nos s t"
      "lp_rules t = lp_rules s" "polled_for t (lp_rules s ! i) p" "b \<longleftrightarrow> pfd_events p \<noteq> 0"
  | (thrown) e t where "setup_body K C i s = (Throw e, t)" "loop_inv mine t" "same_nos s t"
      "lp_rules t = lp_rules s"
proof -
  let ?r = "lp_rules s ! i"
  have mem: "?r \<in> set (lp_rules s)" using i by simp
  from loop_inv_alive [OF inv mem] obtain obj where obj: "heap (lp_world s) (rl_fd ?r) = Some obj" by blast
  show thesis
  proof (cases "(rl_direction ?r = In \<and> w_eof obj) \<or> w_closed obj")
    case True
    then have body: "setup_body K C i s
        = thenp (run_cancel C ?r) (thenp (erase_rule K i) (retp None)) s"
      using obj by (auto simp: setup_body_def prog_simps fd_simps)
    obtain q t where run: "run_cancel C ?r s = (q, t)" by fastforce
    from calmD [OF calm_run_cancel [OF C] inv mem run]
    have t: "q \<noteq> UB" "loop_inv mine t" "lp_rules t = lp_rules s" "same_nos s t" by simp_all
    show thesis
    proof (cases q)
      case (Ok x)
      from erase_rule_effect [OF t(2), of i K] i t(3) obtain u where
        u: "erase_rule K i t = (Ok (), u)" "loop_inv mine u" "same_nos t u"
          "lp_rules u = take i (lp_rules s) @ drop (Suc i) (lp_rules s)" by auto
      have "set (lp_rules u) \<subseteq> set (lp_rules t)"
        using set_take_subset set_drop_subset by (fastforce simp: u(4) t(3))
      with t(4) u(3) have "same_nos s u" by (rule same_nos_trans)
      with u show thesis using run Ok by (intro erased [of u]) (simp_all add: body prog_simps)
    next
      case (Throw e)
      show thesis by (rule thrown [of e t]) (use run t Throw in \<open>simp_all add: body prog_simps\<close>)
    qed (use t in simp)
  next
    case False
    let ?ev = "\<lambda>b. if b then direction_events (rl_direction ?r) else 0"
    have body: "setup_body K C i s = bindp (run_interest C ?r) (\<lambda>b. bindp (on_loop (fd_num (rl_fd ?r)))
        (\<lambda>fd. retp (Some (\<lparr>pfd_fd = fd, pfd_events = ?ev b, pfd_revents = 0\<rparr>, b)))) s"
      using obj False by (auto simp: setup_body_def prog_simps fd_simps)
    obtain q t where run: "run_interest C ?r s = (q, t)" by fastforce
    from calmD [OF calm_run_interest [OF C] inv mem run]
    have t: "q \<noteq> UB" "loop_inv mine t" "lp_rules t = lp_rules s" "same_nos s t" by simp_all
    show thesis
    proof (cases q)
      case (Ok b)
      from loop_inv_alive [OF t(2), of ?r] mem t(3) obtain y where
        y: "heap (lp_world t) (rl_fd ?r) = Some y" by auto
      show thesis
        by (rule kept [of "\<lparr>pfd_fd = w_fd y, pfd_events = ?ev b, pfd_revents = 0\<rparr>" b t])
          (use run t Ok y in \<open>simp_all add: body prog_simps fd_simps polled_for_def fd_no_def\<close>)
    next
      case (Throw e)
      show thesis by (rule thrown [of e t]) (use run t Throw in \<open>simp_all add: body prog_simps\<close>)
    qed (use t in simp)
  qed
qed

text \<open>How the first loop may end: it left the rules as they were or erased some, and each has its \<open>pollfd\<close>.\<close>

definition setup_ends ::
  "(fd_ref \<Rightarrow> nat) \<Rightarrow> ('k, 'c, 'u) loop \<Rightarrow> (pollfd list \<times> bool) outcome \<Rightarrow> ('k, 'c, 'u) loop \<Rightarrow> bool" where
  "setup_ends mine s r t \<longleftrightarrow> r \<noteq> UB \<and> loop_inv mine t \<and> same_nos s t \<and> subseq (lp_rules t) (lp_rules s)
     \<and> (\<forall>ps b. r = Ok (ps, b) \<longrightarrow>
          list_all2 (polled_for t) (lp_rules t) ps \<and> (b \<longleftrightarrow> (\<exists>p \<in> set ps. pfd_events p \<noteq> 0)))"

lemma setup_ends_step:
  assumes st: "same_nos s t" "subseq (lp_rules t) (lp_rules s)" and tu: "setup_ends mine t r u"
  shows "setup_ends mine s r u"
proof -
  from tu have u: "same_nos t u" "subseq (lp_rules u) (lp_rules t)" by (simp_all add: setup_ends_def)
  from st(1) u have "same_nos s u" by (auto intro: same_nos_trans dest: subseq_subset)
  moreover from u(2) st(2) have "subseq (lp_rules u) (lp_rules s)" by (rule subseq_order.order_trans)
  ultimately show ?thesis using tu by (simp add: setup_ends_def)
qed

lemma subseq_without_nth:
  assumes "i < length xs"
  shows "subseq (take i xs @ drop (Suc i) xs) xs"
proof -
  have "subseq (drop (Suc i) xs) (drop i xs)"
    using assms by (simp add: list_emb_Cons flip: Cons_nth_drop_Suc)
  then have "subseq (take i xs @ drop (Suc i) xs) (take i xs @ drop i xs)" by (simp only: subseq_append')
  then show ?thesis by simp
qed

lemma setup_loop_ends:
  assumes C: "tame mine C"
  shows "loop_inv mine s \<Longrightarrow> i \<le> length (lp_rules s) \<Longrightarrow>
      list_all2 (polled_for s) (take i (lp_rules s)) pollfds \<Longrightarrow> (stp \<longleftrightarrow> (\<exists>p \<in> set pollfds. pfd_events p \<noteq> 0)) \<Longrightarrow>
    \<exists>r t. setup_loop K C i pollfds stp s = Some (r, t) \<and> setup_ends mine s r t"
proof (induction "length (lp_rules s) - i" arbitrary: s i pollfds stp)
  case 0
  then have "setup_loop K C i pollfds stp s = Some (Ok (pollfds, stp), s)"
    by (subst setup_loop.simps) simp
  with 0 show ?case by (simp add: setup_ends_def)
next
  case (Suc n)
  then have i: "i < length (lp_rules s)" by simp
  note unfold = setup_loop.simps [of K C i pollfds stp s]
  from C Suc.prems(1) i show ?case
  proof (cases rule: setup_body_cases [where K = K])
    case (erased t)
    have len: "n = length (lp_rules t) - i" "i \<le> length (lp_rules t)" "take i (lp_rules t) = take i (lp_rules s)"
      using Suc.hyps(2) i by (simp_all add: erased)
    have "set (take i (lp_rules s)) \<subseteq> set (lp_rules t)" by (simp add: erased)
    from polled_for_same [OF erased(3) this Suc.prems(3)] len(3)
    have "list_all2 (polled_for t) (take i (lp_rules t)) pollfds" by simp
    from Suc.hyps(1) [OF len(1) erased(2) len(2) this Suc.prems(4)] obtain r u where
      u: "setup_loop K C i pollfds stp t = Some (r, u)" "setup_ends mine t r u" by blast
    have "subseq (lp_rules t) (lp_rules s)" using subseq_without_nth [OF i] by (simp add: erased(4))
    from setup_ends_step [OF erased(3) this u(2)] have "setup_ends mine s r u" .
    moreover have "setup_loop K C i pollfds stp s = Some (r, u)"
      using u(1) i by (subst unfold) (simp add: erased(1))
    ultimately show ?thesis by blast
  next
    case (kept p b t)
    have len: "n = length (lp_rules t) - Suc i" "Suc i \<le> length (lp_rules t)"
      using Suc.hyps(2) i by (simp_all add: kept)
    have "list_all2 (polled_for t) (take i (lp_rules s)) pollfds"
      by (rule polled_for_same [OF kept(3) _ Suc.prems(3)]) (simp add: kept set_take_subset)
    then have m1: "list_all2 (polled_for t) (take (Suc i) (lp_rules t)) (pollfds @ [p])"
      using i kept(5) by (simp add: kept(4) take_Suc_conv_app_nth list_all2_appendI)
    have m2: "(stp \<or> b) \<longleftrightarrow> (\<exists>p \<in> set (pollfds @ [p]). pfd_events p \<noteq> 0)"
      using Suc.prems(4) kept(6) by auto
    from Suc.hyps(1) [OF len(1) kept(2) len(2) m1 m2] obtain r u where
      u: "setup_loop K C (Suc i) (pollfds @ [p]) (stp \<or> b) t = Some (r, u)" "setup_ends mine t r u" by blast
    from setup_ends_step [OF kept(3) _ u(2)] have "setup_ends mine s r u" by (simp add: kept(4))
    moreover have "setup_loop K C i pollfds stp s = Some (r, u)"
      using u(1) i by (subst unfold) (simp add: kept(1))
    ultimately show ?thesis by blast
  next
    case (thrown e t)
    then have "setup_loop K C i pollfds stp s = Some (Throw e, t)"
      using i by (subst unfold) simp
    with thrown show ?thesis by (simp add: setup_ends_def)
  qed
qed

lemmas setup_loop_tame = setup_loop_ends [unfolded setup_ends_def]

section \<open>The second loop\<close>

text \<open>
  The same reactions without positions: each rule is paired with its \<open>pollfd\<close> from the start;
  \<open>kept\<close> are the rules dealt with that stay.
\<close>

definition react :: "('k, 'c, 'u) closures \<Rightarrow> 'c rule \<Rightarrow> pollfd \<Rightarrow> (('k, 'c, 'u) loop, bool) prog" where
  "react C r p =
     (let ready = (pfd_revents p AND pfd_events p \<noteq> 0)
      in if pfd_revents p AND (POLLERR OR POLLNVAL) \<noteq> 0
         then throwp (Runtime_error ''EventLoop: error on polled file descriptor'')
         else if pfd_revents p AND POLLHUP \<noteq> 0 \<and> pfd_events p \<noteq> 0 \<and> \<not> ready
         then thenp (run_cancel C r) (retp True)
         else if ready
         then bindp (service_count r) (\<lambda>count_before.
              thenp (cl_run C (rl_callback r))
              (bindp (service_count r) (\<lambda>count_after.
               bindp (if count_before = count_after then run_interest C r else retp False) (\<lambda>busy.
               if busy then throwp (Runtime_error ''EventLoop: busy wait detected: callback did not read/write fd and is still interested'')
               else retp False))))
         else retp False)"

fun dispatch ::
  "'k kernel \<Rightarrow> ('k, 'c, 'u) closures \<Rightarrow> 'c rule list \<Rightarrow> ('c rule \<times> pollfd) list \<Rightarrow> (('k, 'c, 'u) loop, unit) prog" where
  "dispatch K C kept [] = retp ()"
| "dispatch K C kept ((r, p) # todo) =
     bindp (react C r p) (\<lambda>defunct.
       if defunct
       then thenp (modifyp (\<lambda>s. s\<lparr>lp_rules := kept @ map fst todo\<rparr>))
            (thenp (on_loop (fd_destroy K (rl_fd r))) (dispatch K C kept todo))
       else dispatch K C (kept @ [r]) todo)"

lemma calm_react [prog_intros]: "tame mine C \<Longrightarrow> calm mine r (react C r p)"
  unfolding react_def Let_def by (intro prog_intros)

lemma results_body_react:
  assumes "idx < length pollfds"
  shows "results_body K C pollfds idx i s =
    bindp (react C (lp_rules s ! i) (pollfds ! idx))
      (\<lambda>defunct. if defunct then thenp (erase_rule K i) (retp True) else retp False) s"
  using assms
  by (simp add: results_body_def react_def prog_simps Let_def bindp_assoc if_distrib [of "\<lambda>m. bindp m _"]
      retp_def cong: if_cong)

lemma results_loop_dispatch:
  assumes C: "tame mine C"
  shows "loop_inv mine s \<Longrightarrow> lp_rules s = kept @ map fst todo \<Longrightarrow> map snd todo = drop idx pollfds \<Longrightarrow>
    results_loop K C pollfds idx (length kept) s = dispatch K C kept todo s"
proof (induction todo arbitrary: s kept idx)
  case Nil
  then show ?case by (simp add: results_loop.simps [of K C pollfds idx _ s] prog_simps)
next
  case (Cons x todo)
  obtain r p where x: "x = (r, p)" by fastforce
  let ?i = "length kept"
  have i: "?i < length (lp_rules s)" "lp_rules s ! ?i = r" using Cons.prems(2) x by simp_all
  have mem: "r \<in> set (lp_rules s)" using Cons.prems(2) x by simp
  have idx: "idx < length pollfds" "pollfds ! idx = p" "map snd todo = drop (Suc idx) pollfds"
    using Cons.prems(3) x by (auto simp: Cons_nth_drop_Suc [symmetric] not_less dest: sym)
      (metis drop_all list.distinct(1) not_less nth_via_drop drop_Suc list.sel(3) tl_drop)+
  note unfold = results_loop.simps [of K C pollfds idx ?i s] results_body_react [OF idx(1)] i(2) idx(2)
  obtain q t where run: "react C r p s = (q, t)" by fastforce
  from calmD [OF calm_react [OF C] Cons.prems(1) mem run]
  have t: "q \<noteq> UB" "loop_inv mine t" "lp_rules t = lp_rules s" by simp_all
  show ?case
  proof (cases q)
    case (Ok defunct)
    show ?thesis
    proof (cases defunct)
      case True
      from erase_rule_effect [OF t(2), of ?i K] i t(3) obtain u where
        u: "erase_rule K ?i t = (Ok (), u)" "loop_inv mine u"
          "lp_rules u = take ?i (lp_rules s) @ drop (Suc ?i) (lp_rules s)" by auto
      have rules: "lp_rules u = kept @ map fst todo" using u(3) Cons.prems(2) x by simp
      have "results_loop K C pollfds idx ?i s = results_loop K C pollfds (Suc idx) ?i u"
        using i(1) run Ok True u(1) by (simp add: unfold prog_simps)
      moreover have "dispatch K C kept (x # todo) s = dispatch K C kept todo u"
        using run Ok True u(1) t(3) Cons.prems(2) x i(2)
        by (simp add: prog_simps erase_rule_def bindp_def split: prod.splits outcome.splits)
      ultimately show ?thesis using Cons.IH [OF u(2) rules idx(3)] by simp
    next
      case False
      have rules: "lp_rules t = (kept @ [r]) @ map fst todo" using t(3) Cons.prems(2) x by simp
      have "results_loop K C pollfds idx ?i s = results_loop K C pollfds (Suc idx) (length (kept @ [r])) t"
        using i(1) run Ok False by (simp add: unfold prog_simps)
      moreover have "dispatch K C kept (x # todo) s = dispatch K C (kept @ [r]) todo t"
        using run Ok False x by (simp add: prog_simps)
      ultimately show ?thesis using Cons.IH [OF t(2) rules idx(3)] by simp
    qed
  qed (use t i(1) run x in \<open>simp_all add: unfold prog_simps\<close>)
qed

lemma results_body_cases:
  assumes C: "tame mine C" and inv: "loop_inv mine s" and i: "i < length (lp_rules s)" and idx: "idx < length pollfds"
  obtains (erased) t where "results_body K C pollfds idx i s = (Ok True, t)" "loop_inv mine t"
      "lp_rules t = take i (lp_rules s) @ drop (Suc i) (lp_rules s)"
  | (kept) t where "results_body K C pollfds idx i s = (Ok False, t)" "loop_inv mine t" "lp_rules t = lp_rules s"
  | (thrown) e t where "results_body K C pollfds idx i s = (Throw e, t)" "loop_inv mine t" "lp_rules t = lp_rules s"
proof -
  let ?r = "lp_rules s ! i" and ?p = "pollfds ! idx"
  note body = results_body_react [OF idx, of K C i s]
  have mem: "?r \<in> set (lp_rules s)" using i by simp
  obtain q t where run: "react C ?r ?p s = (q, t)" by fastforce
  from calmD [OF calm_react [OF C] inv mem run]
  have t: "q \<noteq> UB" "loop_inv mine t" "lp_rules t = lp_rules s" by simp_all
  show thesis
  proof (cases q)
    case (Ok defunct)
    show thesis
    proof (cases defunct)
      case True
      from erase_rule_effect [OF t(2), of i K] i t(3) obtain u where
        u: "erase_rule K i t = (Ok (), u)" "loop_inv mine u"
          "lp_rules u = take i (lp_rules s) @ drop (Suc i) (lp_rules s)" by auto
      with run Ok True show thesis by (intro erased [of u]) (simp_all add: body prog_simps)
    next
      case False
      with run Ok t show thesis by (intro kept [of t]) (simp_all add: body prog_simps)
    qed
  next
    case (Throw e)
    with run t show thesis by (intro thrown [of e t]) (simp_all add: body prog_simps)
  qed (use t in simp)
qed

lemma results_loop_safe:
  assumes C: "tame mine C"
  shows "loop_inv mine s \<Longrightarrow> i \<le> length (lp_rules s) \<Longrightarrow> idx + (length (lp_rules s) - i) = length pollfds \<Longrightarrow>
    \<exists>r t. results_loop K C pollfds idx i s = (r, t) \<and> r \<noteq> UB \<and> loop_inv mine t \<and> subseq (lp_rules t) (lp_rules s)"
proof (induction "length pollfds - idx" arbitrary: s i idx)
  case 0
  then have "\<not> i < length (lp_rules s)" by linarith
  then have "results_loop K C pollfds idx i s = (Ok (), s)"
    by (simp add: results_loop.simps [of K C pollfds idx i s])
  with 0(2) show ?case by simp
next
  case (Suc n)
  note unfold = results_loop.simps [of K C pollfds idx i s]
  have i: "i < length (lp_rules s)" and idx: "idx < length pollfds" using Suc.prems Suc.hyps(2) by auto
  from C Suc.prems(1) i idx show ?case
  proof (cases rule: results_body_cases [where K = K])
    case (erased t)
    have "n = length pollfds - Suc idx" "i \<le> length (lp_rules t)"
      "Suc idx + (length (lp_rules t) - i) = length pollfds"
      using Suc.hyps(2) Suc.prems(3) i erased(3) by simp_all
    from Suc.hyps(1) [OF this(1) erased(2) this(2,3)] obtain r u where
      u: "results_loop K C pollfds (Suc idx) i t = (r, u)" "r \<noteq> UB" "loop_inv mine u" "subseq (lp_rules u) (lp_rules t)"
      by blast
    have "subseq (take i (lp_rules s) @ drop (Suc i) (lp_rules s)) (take i (lp_rules s) @ drop i (lp_rules s))"
      using i by (simp add: subseq_append' list_emb_Cons flip: Cons_nth_drop_Suc)
    then have "subseq (lp_rules t) (lp_rules s)" by (simp only: erased(3) append_take_drop_id)
    with u(4) have "subseq (lp_rules u) (lp_rules s)" by (rule subseq_order.order_trans)
    with u erased(1) i show ?thesis by (simp add: unfold)
  next
    case (kept t)
    have "n = length pollfds - Suc idx" "Suc i \<le> length (lp_rules t)"
      "Suc idx + (length (lp_rules t) - Suc i) = length pollfds"
      using Suc.hyps(2) Suc.prems(3) i kept(3) by simp_all
    from Suc.hyps(1) [OF this(1) kept(2) this(2,3)] kept(1,3) i show ?thesis by (simp add: unfold)
  next
    case (thrown e t)
    with i show ?thesis by (simp add: unfold)
  qed
qed

section \<open>The call of \<open>poll\<close>\<close>

lemma length_set_revents [simp]: "length (set_revents ps revs) = length ps"
  by (simp add: set_revents_def)

lemma poll_call_eq:
  assumes "k_poll K ps timeout (kern w) = (r, e, revs, k)" and "- 1 \<le> r" and "r < 2 ^ 31"
  shows "poll_call K ps timeout w =
    (Ok (if r = 0 then Some Timeout
         else if r = -1 \<and> e = EINTR then Some Exit else None, set_revents ps revs),
     w\<lparr>kern := k, errno := (if r < 0 then e else errno w)\<rparr>)"
proof -
  have "c_int r = r" using assms by (intro c_int_id) simp_all
  with assms show ?thesis
    by (auto simp: poll_call_def invoke_def SystemCall_def unix_error_def prog_simps bindp_def catchp_def EINTR_def)
qed

lemma loop_inv_kern:
  "loop_inv mine (s\<lparr>lp_world := (lp_world s)\<lparr>kern := k, errno := e\<rparr>\<rparr>) = loop_inv mine s"
  by (simp add: loop_inv_def fd_inv_def)

lemma results_loop_done: "\<not> i < length (lp_rules s) \<Longrightarrow> results_loop K C ps idx i s = (Ok (), s)"
  by (simp add: results_loop.simps [of K C ps idx i s])

lemma dispatch_idle:
  "\<forall>(r, p) \<in> set todo. pfd_revents p = 0 \<Longrightarrow> dispatch K C kept todo s = (Ok (), s)"
  by (induction todo arbitrary: kept) (auto simp: react_def prog_simps)

text \<open>A loop with one rule, live and polled by default, up to the poll results.\<close>

lemma single_rule_poll:
  assumes rules: "lp_rules s = [r]" "rl_interest r = None"
    and obj: "heap (lp_world s) (rl_fd r) = Some obj" "\<not> w_closed obj" "rl_direction r = In \<longrightarrow> \<not> w_eof obj"
    and poll: "k_poll K [\<lparr>pfd_fd = w_fd obj, pfd_events = direction_events (rl_direction r), pfd_revents = 0\<rparr>]
        timeout (kern (lp_world s)) = (1, e, [ev], k)"
  shows "wait_next_event K C timeout s =
    Some (thenp (results_loop K C [\<lparr>pfd_fd = w_fd obj, pfd_events = direction_events (rl_direction r),
        pfd_revents = ev\<rparr>] 0 0) (retp Success) (s\<lparr>lp_world := (lp_world s)\<lparr>kern := k\<rparr>\<rparr>))"
proof -
  let ?p = "\<lparr>pfd_fd = w_fd obj, pfd_events = direction_events (rl_direction r), pfd_revents = 0\<rparr>"
  have "setup_body K C 0 s = (Ok (Some (?p, True)), s)"
    using rules obj by (auto simp: setup_body_def prog_simps fd_simps run_interest_def)
  then have first: "setup_loop K C 0 [] False s = Some (Ok ([?p], True), s)"
    using rules by (subst setup_loop.simps) (simp add: setup_loop.simps [of K C "Suc 0"])
  have "poll_call K [?p] timeout (lp_world s)
      = (Ok (None, [\<lparr>pfd_fd = w_fd obj, pfd_events = direction_events (rl_direction r), pfd_revents = ev\<rparr>]),
         (lp_world s)\<lparr>kern := k\<rparr>)"
    using poll_call_eq [where w = "lp_world s", OF poll] by (simp add: set_revents_def)
  then show ?thesis by (simp add: wait_next_event_def first prog_simps)
qed

section \<open>One turn of the loop\<close>

lemma wait_next_event_tame:
  assumes C: "tame mine C" and inv: "loop_inv mine s"
    and poll: "\<forall>ps k. case k_poll K ps timeout k of (r, _) \<Rightarrow> - 1 \<le> r \<and> r < 2 ^ 31"
  shows "\<exists>r t. wait_next_event K C timeout s = Some (r, t) \<and> r \<noteq> UB \<and> loop_inv mine t
    \<and> subseq (lp_rules t) (lp_rules s)"
proof -
  from setup_loop_tame [OF C inv, of 0 "[]" False K] obtain r t where
    first: "setup_loop K C 0 [] False s = Some (r, t)" "r \<noteq> UB" "loop_inv mine t" "subseq (lp_rules t) (lp_rules s)"
    and ps: "\<forall>ps b. r = Ok (ps, b) \<longrightarrow> list_all2 (polled_for t) (lp_rules t) ps"
    by auto
  show ?thesis
  proof (cases r)
    case (Ok z)
    obtain ps b where z: "z = (ps, b)" by fastforce
    with ps Ok have len: "length ps = length (lp_rules t)" by (auto dest: list_all2_lengthD)
    obtain n e revs k where call: "k_poll K ps timeout (kern (lp_world t)) = (n, e, revs, k)"
      by (metis prod_cases4)
    have range: "- 1 \<le> n" "n < 2 ^ 31"
      using poll [THEN spec, THEN spec, of ps "kern (lp_world t)"] by (simp_all add: call)
    let ?e = "if n < 0 then e else errno (lp_world t)"
    let ?u = "t\<lparr>lp_world := (lp_world t)\<lparr>kern := k, errno := ?e\<rparr>\<rparr>"
    have u: "loop_inv mine ?u" using first(3) by (simp add: loop_inv_kern)
    note pc = poll_call_eq [where w = "lp_world t", OF call range]
    obtain q v where disp: "results_loop K C (set_revents ps revs) 0 0 ?u = (q, v)" by fastforce
    from results_loop_safe [OF C u, of 0 0 "set_revents ps revs" K] len disp
    have v: "q \<noteq> UB" "loop_inv mine v" "subseq (lp_rules v) (lp_rules t)" by auto
    have "subseq (lp_rules v) (lp_rules s)" using v(3) first(4) by (rule subseq_order.order_trans)
    with first u v disp pc z Ok show ?thesis
      by (cases q) (auto simp: wait_next_event_def prog_simps)
  qed (use first in \<open>auto simp: wait_next_event_def\<close>)
qed

section \<open>A client\<close>

text \<open>
  A client that holds a handle of object 0 and copies what it reads from it, or does nothing, or
  copies and adds another rule; a kernel that finds every polled descriptor readable.
\<close>

datatype copy_closure = Copy | Idle | Copy_and_add

definition copy_input :: "bytes kernel \<Rightarrow> ((bytes, copy_closure, bytes) loop, unit) prog" where
  "copy_input K = bindp (on_loop (fd_read K 0 read_limit_max)) (\<lambda>d.
     modifyp (\<lambda>s. s\<lparr>lp_app := lp_app s @ d\<rparr>))"

fun copy_run :: "bytes kernel \<Rightarrow> copy_closure \<Rightarrow> ((bytes, copy_closure, bytes) loop, unit) prog" where
  "copy_run K Copy = copy_input K"
| "copy_run K Idle = retp ()"
| "copy_run K Copy_and_add = thenp (copy_input K) (add_rule 0 In Copy None None)"

definition copy_client :: "bytes kernel \<Rightarrow> bool \<Rightarrow> (bytes, copy_closure, bytes) closures" where
  "copy_client K adds =
     \<lparr>cl_run = (\<lambda>c. if c = Copy_and_add \<and> \<not> adds then retp () else copy_run K c),
      cl_ask = (\<lambda>_. retp True)\<rparr>"

definition client_handles :: "fd_ref \<Rightarrow> nat" where
  "client_handles a = (if a = 0 then 1 else 0)"

lemma copy_client_tame:
  assumes con: "read_contract K"
  shows "tame client_handles (copy_client K False)"
proof -
  have "safe (fd_le (lp_world s)) (fd_read K 0 n)"
    if "loop_inv client_handles s" for s :: "(bytes, copy_closure, bytes) loop" and n
  proof -
    from loop_inv_mine_alive [OF that, of 0] obtain obj where "heap (lp_world s) 0 = Some obj"
      by (auto simp: client_handles_def)
    then show ?thesis by (rule safe_fd_read [OF con])
  qed
  then have "calm client_handles r (on_loop (fd_read K 0 n) :: ((bytes, copy_closure, bytes) loop, bytes) prog)"
    for r n
    by (rule calm_on_loop)
  then have "calm client_handles r (copy_run K Copy)" for r
    by (auto simp: copy_input_def intro!: calm_bindp calm_app [where f = "\<lambda>x. x @ d" for d])
  then have "calm client_handles r (cl_run (copy_client K False) c)" for r c
    by (cases c) (simp_all add: copy_client_def calm_basic)
  then show ?thesis by (simp add: tame_def copy_client_def calm_basic)
qed

definition ready_kernel :: "int \<Rightarrow> int \<Rightarrow> u16 \<Rightarrow> bytes kernel" where
  "ready_kernel n err ev = three_byte_reader\<lparr>k_poll := (\<lambda>ps _ k.
     (n, err, if n < 0 then [] else map (\<lambda>p. pfd_events p AND ev) ps, k))\<rparr>"

lemma ready_kernel_contract: "read_contract (ready_kernel n err ev)"
  using three_byte_reader_contract by (simp add: ready_kernel_def read_contract_def)

text \<open>One rule for object 0, which has descriptor number 5, with the bytes to come in the kernel.\<close>

definition copy_loop :: "copy_closure \<Rightarrow> bytes \<Rightarrow> (bytes, copy_closure, bytes) loop" where
  "copy_loop c input = snd (add_rule 0 In c None None
     \<lparr>lp_world = open_world input 5, lp_rules = [], lp_app = []\<rparr>)"

abbreviation copy_rule :: "copy_closure \<Rightarrow> copy_closure rule" where
  "copy_rule c \<equiv> \<lparr>rl_fd = 0, rl_direction = In, rl_callback = c, rl_interest = None, rl_cancel = None\<rparr>"

lemma copy_loop_simps [simp]:
  "lp_rules (copy_loop c input) = [copy_rule c]"
  "heap (lp_world (copy_loop c input)) 0 =
     Some \<lparr>w_fd = 5, w_eof = False, w_closed = False, w_read_count = 0, w_write_count = 0\<rparr>"
  "kern (lp_world (copy_loop c input)) = input"
  "lp_app (copy_loop c input) = []"
  by (simp_all add: copy_loop_def add_rule_def fd_duplicate_def prog_simps fd_simps)

lemma copy_loop_inv: "loop_inv client_handles (copy_loop c input)"
proof -
  have "fd_inv (lp_world (copy_loop c input))"
    by (simp add: copy_loop_def add_rule_def fd_duplicate_def deref_def bindp_def prog_simps fd_inv_def
        open_world_def FileDescriptor_eq new_world_def)
  moreover have "refs (lp_world (copy_loop c input)) 0 = 2"
    by (simp add: copy_loop_def add_rule_def fd_duplicate_def prog_simps fd_simps)
  ultimately show ?thesis by (simp add: loop_inv_def held_def client_handles_def)
qed

lemma copy_loop_setup:
  "setup_loop K C 0 [] False (copy_loop c input) =
     Some (Ok ([\<lparr>pfd_fd = 5, pfd_events = POLLIN, pfd_revents = 0\<rparr>], True), copy_loop c input)"
proof -
  have "setup_body K C 0 (copy_loop c input) =
      (Ok (Some (\<lparr>pfd_fd = 5, pfd_events = POLLIN, pfd_revents = 0\<rparr>, True)), copy_loop c input)"
    by (simp add: setup_body_def prog_simps fd_simps run_interest_def)
  then show ?thesis by (subst setup_loop.simps) (simp add: setup_loop.simps [of K C "Suc 0"])
qed

section \<open>Properties\<close>

text \<open>
  C28. One turn of the event loop with closures that leave the rules alone returns and is memory
  safe, whatever the kernel answers to \<open>poll\<close> and whatever the closures throw: the first loop ends,
  no descriptor is used after it is freed, no poll result is read out of range although rules are
  erased on the way, every remaining rule still holds its handle, and no rule appears or changes
  place.
\<close>

theorem wait_next_event_safe:
  assumes C: "tame mine C" and inv: "loop_inv mine s"
    and poll: "\<forall>ps k. case k_poll K ps timeout k of (r, _) \<Rightarrow> - 1 \<le> r \<and> r < 2 ^ 31"
  shows "\<exists>r t. wait_next_event K C timeout s = Some (r, t) \<and> r \<noteq> UB \<and> loop_inv mine t
    \<and> subseq (lp_rules t) (lp_rules s)"
  using assms by (rule wait_next_event_tame)

theorem wait_next_event_safe_witness:
  "\<exists>r t. wait_next_event (ready_kernel 1 0 POLLIN) (copy_client (ready_kernel 1 0 POLLIN) False) 100
       (copy_loop Copy [1, 2, 3]) = Some (r, t) \<and> r \<noteq> UB"
  using wait_next_event_safe [OF copy_client_tame [OF ready_kernel_contract] copy_loop_inv,
      where K = "ready_kernel 1 0 POLLIN" and timeout = 100]
  by (fastforce simp: ready_kernel_def)

text \<open>
  C30. Poll results reach the right rules: after the first loop every remaining rule has one
  \<open>pollfd\<close>, in the same order, with its own descriptor number and either its own direction or no
  event; and when \<open>poll\<close> reports something, the second loop, which erases rules while it counts
  through the results, does exactly what reacting to the pairs of rule and result one by one does.
\<close>

theorem wait_next_event_dispatches:
  assumes C: "tame mine C" and inv: "loop_inv mine s" and first: "setup_loop K C 0 [] False s = Some (Ok (ps, True), t)"
    and poll: "k_poll K ps timeout (kern (lp_world t)) = (n, e, revs, k)" "0 < n" "n < 2 ^ 31"
  shows "list_all2 (polled_for t) (lp_rules t) ps
    \<and> wait_next_event K C timeout s =
        Some (thenp (dispatch K C [] (zip (lp_rules t) (set_revents ps revs))) (retp Success)
                (t\<lparr>lp_world := (lp_world t)\<lparr>kern := k\<rparr>\<rparr>))"
proof -
  let ?u = "t\<lparr>lp_world := (lp_world t)\<lparr>kern := k\<rparr>\<rparr>" and ?ps = "set_revents ps revs"
  from setup_loop_tame [OF C inv, of 0 "[]" False K] first
  have t: "loop_inv mine t" "list_all2 (polled_for t) (lp_rules t) ps" by auto
  then have len: "length (lp_rules t) = length ?ps" by (simp add: list_all2_lengthD)
  have u: "loop_inv mine ?u" using t(1) loop_inv_kern [where s = t and k = k and e = "errno (lp_world t)"] by simp
  have "results_loop K C ?ps 0 0 ?u = dispatch K C [] (zip (lp_rules t) ?ps) ?u"
    using results_loop_dispatch [OF C u, of "[]" "zip (lp_rules t) ?ps" 0 ?ps K] len by simp
  moreover have "poll_call K ps timeout (lp_world t) = (Ok (None, ?ps), (lp_world t)\<lparr>kern := k\<rparr>)"
    using poll_call_eq [where w = "lp_world t", OF poll(1)] poll(2,3) by simp
  ultimately have "wait_next_event K C timeout s =
      Some (thenp (dispatch K C [] (zip (lp_rules t) ?ps)) (retp Success) ?u)"
    by (simp add: wait_next_event_def first prog_simps bindp_def)
  with t(2) show ?thesis by blast
qed

theorem wait_next_event_dispatches_witness:
  "list_all2 (polled_for (copy_loop Copy [1])) [copy_rule Copy] [\<lparr>pfd_fd = 5, pfd_events = POLLIN, pfd_revents = 0\<rparr>]
   \<and> wait_next_event (ready_kernel 1 0 POLLHUP) (copy_client (ready_kernel 1 0 POLLHUP) False) 100
       (copy_loop Copy [1]) \<noteq> None"
proof -
  let ?K = "ready_kernel 1 0 POLLHUP"
  have "k_poll ?K [\<lparr>pfd_fd = 5, pfd_events = POLLIN, pfd_revents = 0\<rparr>] 100 (kern (lp_world (copy_loop Copy [1])))
      = (1, 0, [0], [1])"
    by (simp add: ready_kernel_def POLLIN_def POLLHUP_def)
  from wait_next_event_dispatches [OF copy_client_tame [OF ready_kernel_contract] copy_loop_inv
      copy_loop_setup this] show ?thesis by simp
qed

text \<open>
  C31. A failing \<open>poll\<close> is not reported: for an interrupted call the result is \<open>Exit\<close>, but for every
  other error the exception is caught and dropped, no closure runs, and the result is \<open>Success\<close>.
\<close>

theorem poll_error_swallowed:
  assumes C: "tame mine C" and inv: "loop_inv mine s" and first: "setup_loop K C 0 [] False s = Some (Ok (ps, True), t)"
    and poll: "k_poll K ps timeout (kern (lp_world t)) = (-1, e, [], k)"
  shows "wait_next_event K C timeout s =
    Some (Ok (if e = EINTR then Exit else Success),
          t\<lparr>lp_world := (lp_world t)\<lparr>kern := k, errno := e\<rparr>\<rparr>)"
proof -
  let ?u = "t\<lparr>lp_world := (lp_world t)\<lparr>kern := k, errno := e\<rparr>\<rparr>"
  from setup_loop_tame [OF C inv, of 0 "[]" False K] first
  have t: "loop_inv mine t" "list_all2 (polled_for t) (lp_rules t) ps" by auto
  from t(2) have len: "length (lp_rules t) = length ps" by (rule list_all2_lengthD)
  have idle: "\<forall>p \<in> set ps. pfd_revents p = 0"
    using t(2) by (metis in_set_conv_nth list_all2_nthD2 polled_for_def)
  have u: "loop_inv mine ?u" using t(1) by (simp add: loop_inv_kern)
  have "results_loop K C ps 0 0 ?u = dispatch K C [] (zip (lp_rules t) ps) ?u"
    using results_loop_dispatch [OF C u, of "[]" "zip (lp_rules t) ps" 0 ps K] len by simp
  also have "\<dots> = (Ok (), ?u)" using idle by (intro dispatch_idle) (auto dest: set_zip_rightD)
  finally have run: "results_loop K C ps 0 0 ?u = (Ok (), ?u)" by simp
  have "poll_call K ps timeout (lp_world t)
      = (Ok (if e = EINTR then Some Exit else None, ps), (lp_world t)\<lparr>kern := k, errno := e\<rparr>)"
    using poll_call_eq [where w = "lp_world t", OF poll] by (simp add: set_revents_def)
  with run show ?thesis by (simp add: wait_next_event_def first prog_simps)
qed

theorem poll_error_swallowed_witness:
  "\<exists>t. wait_next_event (ready_kernel (-1) 12 0) (copy_client (ready_kernel (-1) 12 0) False) 100
       (copy_loop Copy [1]) = Some (Ok Success, t)"
proof -
  let ?K = "ready_kernel (-1) 12 0"
  have "k_poll ?K [\<lparr>pfd_fd = 5, pfd_events = POLLIN, pfd_revents = 0\<rparr>] 100 (kern (lp_world (copy_loop Copy [1])))
      = (-1, 12, [], [1])"
    by (simp add: ready_kernel_def)
  from poll_error_swallowed [OF copy_client_tame [OF ready_kernel_contract] copy_loop_inv
      copy_loop_setup this] show ?thesis by (simp add: EINTR_def)
qed

text \<open>
  C32. Busy callbacks are caught: with one live rule that is polled by default and found ready, if
  the callback returns without changing its service count (reads for \<open>In\<close>, writes for \<open>Out\<close>) then
  \<open>wait_next_event\<close> throws, so that a level-triggered \<open>poll\<close> is never repeated on it for nothing; if
  the count changed the result is \<open>Success\<close>.
\<close>

theorem busy_wait_detected:
  assumes rules: "lp_rules s = [r]" "rl_interest r = None"
    and obj: "heap (lp_world s) (rl_fd r) = Some obj" "\<not> w_closed obj" "rl_direction r = In \<longrightarrow> \<not> w_eof obj"
    and poll: "k_poll K [\<lparr>pfd_fd = w_fd obj, pfd_events = direction_events (rl_direction r), pfd_revents = 0\<rparr>]
        timeout (kern (lp_world s)) = (1, e, [direction_events (rl_direction r)], k)"
    and call: "cl_run C (rl_callback r) (s\<lparr>lp_world := (lp_world s)\<lparr>kern := k\<rparr>\<rparr>) = (Ok (), t)"
    and after: "lp_rules t = [r]" "heap (lp_world t) (rl_fd r) = Some obj'"
  shows "wait_next_event K C timeout s = Some
    (if (if rl_direction r = In then w_read_count obj' = w_read_count obj
         else w_write_count obj' = w_write_count obj)
     then Throw (Runtime_error ''EventLoop: busy wait detected: callback did not read/write fd and is still interested'')
     else Ok Success, t)"
proof -
  let ?s = "s\<lparr>lp_world := (lp_world s)\<lparr>kern := k\<rparr>\<rparr>" and ?ev = "direction_events (rl_direction r)"
  let ?ps = "[\<lparr>pfd_fd = w_fd obj, pfd_events = ?ev, pfd_revents = ?ev\<rparr>]"
  have ev: "?ev AND (POLLERR OR POLLNVAL) = 0" "?ev AND POLLHUP = 0" "?ev AND ?ev \<noteq> 0"
    by (cases "rl_direction r"; simp add: POLLIN_def POLLOUT_def POLLERR_def POLLHUP_def POLLNVAL_def)+
  have "results_loop K C ?ps 0 0 ?s =
    (if (if rl_direction r = In then w_read_count obj' = w_read_count obj
         else w_write_count obj' = w_write_count obj)
     then Throw (Runtime_error ''EventLoop: busy wait detected: callback did not read/write fd and is still interested'')
     else Ok (), t)"
    using rules obj ev call after
    by (auto simp: results_loop.simps [of K C ?ps 0 0 ?s] results_loop_done
        results_body_def prog_simps fd_simps service_count_def run_interest_def Let_def)
  then show ?thesis
    by (simp add: single_rule_poll [OF rules obj poll] bindp_def prog_simps)
qed

theorem busy_wait_detected_witness:
  "\<exists>e t. wait_next_event (ready_kernel 1 0 POLLIN) (copy_client (ready_kernel 1 0 POLLIN) False) 100
       (copy_loop Idle [1]) = Some (Throw e, t)"
proof -
  let ?K = "ready_kernel 1 0 POLLIN" and ?s = "copy_loop Idle [1]" and ?r = "copy_rule Idle"
    and ?obj = "\<lparr>w_fd = 5, w_eof = False, w_closed = False, w_read_count = 0, w_write_count = 0\<rparr>"
  have s: "lp_rules ?s = [?r]" "rl_interest ?r = None" "heap (lp_world ?s) (rl_fd ?r) = Some ?obj"
    "\<not> w_closed ?obj" "rl_direction ?r = In \<longrightarrow> \<not> w_eof ?obj"
    by simp_all
  have poll: "k_poll ?K [\<lparr>pfd_fd = w_fd ?obj, pfd_events = direction_events (rl_direction ?r), pfd_revents = 0\<rparr>]
      100 (kern (lp_world ?s)) = (1, 0, [direction_events (rl_direction ?r)], [1])"
    by (simp add: ready_kernel_def)
  have call: "cl_run (copy_client ?K False) (rl_callback ?r) (?s\<lparr>lp_world := (lp_world ?s)\<lparr>kern := [1]\<rparr>\<rparr>)
      = (Ok (), ?s\<lparr>lp_world := (lp_world ?s)\<lparr>kern := [1]\<rparr>\<rparr>)"
    by (simp add: copy_client_def prog_simps)
  from busy_wait_detected [OF s poll call, of ?obj] show ?thesis by simp
qed

text \<open>
  C33. A callback that adds a rule breaks the loop: with one live rule that is found ready, if its
  callback serves the descriptor and calls \<open>add_rule\<close>, the second loop goes on to the new rule, for
  which there is no poll result, and reads past the end of \<open>pollfds\<close>.
\<close>

theorem add_rule_in_callback_reads_out_of_range:
  assumes rules: "lp_rules s = [r]" "rl_interest r = None"
    and obj: "heap (lp_world s) (rl_fd r) = Some obj" "\<not> w_closed obj" "rl_direction r = In" "\<not> w_eof obj"
    and poll: "k_poll K [\<lparr>pfd_fd = w_fd obj, pfd_events = POLLIN, pfd_revents = 0\<rparr>]
        timeout (kern (lp_world s)) = (1, e, [POLLIN], k)"
    and call: "cl_run C (rl_callback r) (s\<lparr>lp_world := (lp_world s)\<lparr>kern := k\<rparr>\<rparr>) = (Ok (), t)"
    and after: "lp_rules t = r # new # news" "heap (lp_world t) (rl_fd r) = Some obj'"
      "w_read_count obj' \<noteq> w_read_count obj"
  shows "\<exists>u. wait_next_event K C timeout s = Some (UB, u)"
proof -
  let ?s = "s\<lparr>lp_world := (lp_world s)\<lparr>kern := k\<rparr>\<rparr>"
  let ?ps = "[\<lparr>pfd_fd = w_fd obj, pfd_events = POLLIN, pfd_revents = POLLIN\<rparr>]"
  have ev: "POLLIN AND (POLLERR OR POLLNVAL) = 0" "POLLIN AND POLLHUP = 0" "POLLIN AND POLLIN \<noteq> 0"
    by (simp_all add: POLLIN_def POLLERR_def POLLHUP_def POLLNVAL_def)
  have "results_loop K C ?ps 0 0 ?s = (UB, t)"
    using rules obj ev call after
    by (auto simp: results_loop.simps [of K C ?ps 0 0 ?s] results_loop.simps [of K C ?ps "Suc 0" "Suc 0" t]
        results_body_def prog_simps fd_simps service_count_def run_interest_def Let_def)
  moreover have "wait_next_event K C timeout s =
      Some (thenp (results_loop K C ?ps 0 0) (retp Success) ?s)"
    using single_rule_poll [OF rules obj(1,2), of K timeout e POLLIN k C] obj(3,4) poll by simp
  ultimately show ?thesis by (simp add: bindp_def prog_simps)
qed

theorem add_rule_in_callback_reads_out_of_range_witness:
  "\<exists>u. wait_next_event (ready_kernel 1 0 POLLIN) (copy_client (ready_kernel 1 0 POLLIN) True) 100
       (copy_loop Copy_and_add [1]) = Some (UB, u)"
proof -
  let ?K = "ready_kernel 1 0 POLLIN" and ?s = "copy_loop Copy_and_add [1]" and ?r = "copy_rule Copy_and_add"
    and ?obj = "\<lparr>w_fd = 5, w_eof = False, w_closed = False, w_read_count = 0, w_write_count = 0\<rparr>"
  have s: "lp_rules ?s = [?r]" "rl_interest ?r = None" "heap (lp_world ?s) (rl_fd ?r) = Some ?obj"
    "\<not> w_closed ?obj" "rl_direction ?r = In" "\<not> w_eof ?obj"
    by simp_all
  have poll: "k_poll ?K [\<lparr>pfd_fd = w_fd ?obj, pfd_events = POLLIN, pfd_revents = 0\<rparr>]
      100 (kern (lp_world ?s)) = (1, 0, [POLLIN], [1])"
    by (simp add: ready_kernel_def)
  let ?w = "(lp_world ?s)\<lparr>kern := [1]\<rparr>"
  have heap: "heap ?w 0 = Some ?obj" by simp
  have "k_read ?K (w_fd ?obj) (min BUFFER_SIZE read_limit_max) (kern ?w) = (1, 0, [1], [])"
    by (simp add: ready_kernel_def three_byte_reader_def BUFFER_SIZE_def read_limit_max_def Let_def)
  note read = fd_read_eq [OF ready_kernel_contract heap this]
  obtain t where call: "cl_run (copy_client ?K True) (rl_callback ?r) (?s\<lparr>lp_world := ?w\<rparr>) = (Ok (), t)"
    and t: "lp_rules t = [?r, copy_rule Copy]" "heap (lp_world t) 0 = Some (?obj\<lparr>w_read_count := 1\<rparr>)"
    using read by (auto simp: copy_client_def copy_input_def prog_simps fd_simps add_rule_def fd_duplicate_def)
  show ?thesis
    by (rule add_rule_in_callback_reads_out_of_range [OF s poll call, of "copy_rule Copy" "[]" "?obj\<lparr>w_read_count := 1\<rparr>"])
      (simp_all add: t)
qed

end
