(* ===== verification/Handles.thy ===== *)
theory Handles
  imports File_Descriptor
begin

text \<open>
  Handles as C++ variables: construction, \<open>duplicate\<close>, the defaulted move operations and the
  destructor of \<open>class FileDescriptor\<close> (\<open>libsponge/util/file_descriptor.hh\<close>), in a block whose local
  variables are destroyed in the reverse order of their declaration, however it is left.

  A variable holds a \<open>shared_ptr\<close>, which is null (\<open>None\<close>) after it was moved from; reading through a
  null pointer is undefined behaviour. \<open>check_cmds\<close> is a static discipline in the manner of a type
  system: it tracks which variables surely hold a descriptor and rejects a use of any other.

  The lemmas: the accounting of references by the variables that hold them, and soundness: a block
  that passes the check has no undefined behaviour and gives back every reference it took.
\<close>

section \<open>Accounting for references\<close>

text \<open>\<open>owning rs\<close>: the descriptors are consistent and every object has the handles that \<open>rs\<close> says.\<close>

definition owning :: "(fd_ref \<Rightarrow> nat) \<Rightarrow> 'k world \<Rightarrow> bool" where
  "owning rs w \<longleftrightarrow> fd_inv w \<and> refs w = rs"

lemma owning_kern [simp]: "owning rs (w\<lparr>kern := k\<rparr>) = owning rs w"
  and owning_errno [simp]: "owning rs (w\<lparr>errno := e\<rparr>) = owning rs w"
  by (simp_all add: owning_def fd_inv_def)

lemma owning_live: "owning rs w \<Longrightarrow> rs a > 0 \<Longrightarrow> \<exists>x. heap w a = Some x"
  using fd_invD [of w a] by (auto simp: owning_def)

text \<open>An operation on a handle that is held.\<close>

lemma owning_handle:
  fixes m :: "('k world, 'a) prog"
  assumes "rs a > 0" and m: "\<And>(w0 :: 'k world) x. heap w0 a = Some x \<Longrightarrow> safe (fd_le w0) m"
  shows "safe (owning rs) m"
  unfolding safe_def
proof (intro allI impI)
  fix w :: "'k world"
  assume own: "owning rs w"
  with assms(1) obtain x where "heap w a = Some x" using owning_live by blast
  from m [OF this] have "fst (m w) \<noteq> UB \<and> fd_le w (snd (m w))" by (simp add: safe_def)
  with own show "fst (m w) \<noteq> UB \<and> owning rs (snd (m w))"
    using fd_inv_le by (auto simp: owning_def fd_le_def)
qed

lemma owning_destroy:
  assumes "owning rs w" and "rs a > 0"
  shows "\<exists>w'. fd_destroy K a w = (Ok (), w') \<and> owning (rs(a := rs a - 1)) w'"
  using fd_destroy_effect [of w a K] assms by (auto simp: owning_def)

lemma owning_open:
  assumes "owning rs w" and "0 \<le> n"
  shows "\<exists>w'. FileDescriptor n w = (Ok (next_ref w), w') \<and> rs (next_ref w) = 0
    \<and> owning (rs(next_ref w := 1)) w'"
  using assms fd_inv_open [of w n] by (auto simp: owning_def FileDescriptor_eq fd_inv_def)

lemma owning_duplicate:
  assumes own: "owning rs w" and "rs a > 0"
  shows "\<exists>w'. fd_duplicate a w = (Ok a, w') \<and> owning (rs(a := rs a + 1)) w'"
proof -
  from owning_live [OF assms] obtain x where x: "heap w a = Some x" by blast
  then have "fd_duplicate a w = (Ok a, w\<lparr>refs := (refs w)(a := refs w a + 1)\<rparr>)"
    by (simp add: fd_duplicate_def prog_simps fd_simps)
  moreover have "fd_inv (w\<lparr>refs := (refs w)(a := refs w a + 1)\<rparr>)"
    using own x assms(2) by (fastforce simp: owning_def fd_inv_def)
  ultimately show ?thesis using own by (simp add: owning_def)
qed

section \<open>Variables\<close>

type_synonym var = nat
type_synonym handle = "fd_ref option"
type_synonym vars = "(var \<times> handle) list"
type_synonym 'k block = "'k world \<times> vars"

datatype fd_use =
    Do_read size_t
  | Do_write buffer_view_list bool
  | Do_close
  | Do_set_blocking bool

datatype handle_cmd =
    Construct var int
  | Duplicate_of var var
  | Move_construct var var
  | Move_assign var var
  | Use var fd_use

definition handle_read :: "var \<Rightarrow> ('k block, handle) prog" where
  "handle_read x = (\<lambda>(w, vs). (case map_of vs x of None \<Rightarrow> UB | Some h \<Rightarrow> Ok h, (w, vs)))"

definition handle_get :: "var \<Rightarrow> ('k block, fd_ref) prog" where
  "handle_get x = bindp (handle_read x) (\<lambda>h. case h of None \<Rightarrow> ubp | Some a \<Rightarrow> retp a)"

definition handle_declare :: "var \<Rightarrow> handle \<Rightarrow> ('k block, unit) prog" where
  "handle_declare x h = modifyp (\<lambda>(w, vs). (w, (x, h) # vs))"

definition set_var :: "var \<Rightarrow> handle \<Rightarrow> vars \<Rightarrow> vars" where
  "set_var x h vs = map (\<lambda>(y, g). if y = x then (y, h) else (y, g)) vs"

definition handle_set :: "var \<Rightarrow> handle \<Rightarrow> ('k block, unit) prog" where
  "handle_set x h = modifyp (\<lambda>(w, vs). (w, set_var x h vs))"

definition in_block :: "('k world, 'a) prog \<Rightarrow> ('k block, 'a) prog" where
  "in_block = zoomp fst (\<lambda>w (_, vs). (w, vs))"

definition handle_destroy :: "'k kernel \<Rightarrow> handle \<Rightarrow> ('k world, unit) prog" where
  "handle_destroy K h = (case h of None \<Rightarrow> retp () | Some a \<Rightarrow> fd_destroy K a)"

text \<open>\<open>x(std::move(y))\<close> takes the pointer and leaves null behind.\<close>

definition fd_move :: "var \<Rightarrow> ('k block, handle) prog" where
  "fd_move y = bindp (handle_read y) (\<lambda>h. thenp (handle_set y None) (retp h))"

text \<open>
  \<open>x = std::move(y)\<close>: a temporary takes the pointer of \<open>y\<close>, is exchanged with \<open>x\<close>, and releases what
  \<open>x\<close> held before. With \<open>x\<close> and \<open>y\<close> the same variable, its pointer comes back.
\<close>

definition fd_move_assign :: "'k kernel \<Rightarrow> var \<Rightarrow> var \<Rightarrow> ('k block, unit) prog" where
  "fd_move_assign K x y =
     bindp (fd_move y) (\<lambda>temporary.
     bindp (handle_read x) (\<lambda>old.
     thenp (handle_set x temporary) (in_block (handle_destroy K old))))"

definition fd_duplicate_handle :: "handle \<Rightarrow> ('k world, handle) prog" where
  "fd_duplicate_handle h = (case h of None \<Rightarrow> retp None | Some a \<Rightarrow> bindp (fd_duplicate a) (\<lambda>b. retp (Some b)))"

fun fd_do :: "'k kernel \<Rightarrow> fd_ref \<Rightarrow> fd_use \<Rightarrow> ('k world, unit) prog" where
  "fd_do K a (Do_read limit) = thenp (fd_read K a limit) (retp ())"
| "fd_do K a (Do_write buffer write_all) = thenp (fd_write K a buffer write_all) (retp ())"
| "fd_do K a Do_close = fd_close K a"
| "fd_do K a (Do_set_blocking b) = fd_set_blocking K a b"

fun handle_exec :: "'k kernel \<Rightarrow> handle_cmd \<Rightarrow> ('k block, unit) prog" where
  "handle_exec K (Construct x fd) = bindp (in_block (FileDescriptor fd)) (\<lambda>a. handle_declare x (Some a))"
| "handle_exec K (Duplicate_of x y) =
     bindp (handle_read y) (\<lambda>h. bindp (in_block (fd_duplicate_handle h)) (handle_declare x))"
| "handle_exec K (Move_construct x y) = bindp (fd_move y) (handle_declare x)"
| "handle_exec K (Move_assign x y) = fd_move_assign K x y"
| "handle_exec K (Use x u) = bindp (handle_get x) (\<lambda>a. in_block (fd_do K a u))"

fun block_exec :: "'k kernel \<Rightarrow> handle_cmd list \<Rightarrow> ('k block, unit) prog" where
  "block_exec K [] = retp ()"
| "block_exec K (c # cs) = thenp (handle_exec K c) (block_exec K cs)"

text \<open>The end of the block: the last variable declared comes first in the list and is destroyed first.\<close>

fun destroy_vars :: "'k kernel \<Rightarrow> vars \<Rightarrow> ('k world, unit) prog" where
  "destroy_vars K [] = retp ()"
| "destroy_vars K ((x, h) # vs) = thenp (handle_destroy K h) (destroy_vars K vs)"

definition run_block :: "'k kernel \<Rightarrow> handle_cmd list \<Rightarrow> ('k world, unit) prog" where
  "run_block K cs = (\<lambda>w. case block_exec K cs (w, []) of
     (r, (w1, vs)) \<Rightarrow> finallyp (liftp r) (destroy_vars K vs) w1)"

section \<open>The static discipline\<close>

text \<open>A declared variable surely holds a descriptor (\<open>True\<close>), or it may be null.\<close>

type_synonym var_env = "var \<Rightarrow> bool option"

fun check_cmd :: "handle_cmd \<Rightarrow> var_env \<Rightarrow> var_env option" where
  "check_cmd (Construct x fd) \<Gamma> = (if \<Gamma> x = None then Some (\<Gamma>(x \<mapsto> True)) else None)"
| "check_cmd (Duplicate_of x y) \<Gamma> =
     (case \<Gamma> y of None \<Rightarrow> None | Some b \<Rightarrow> if \<Gamma> x = None then Some (\<Gamma>(x \<mapsto> b)) else None)"
| "check_cmd (Move_construct x y) \<Gamma> =
     (case \<Gamma> y of None \<Rightarrow> None | Some b \<Rightarrow> if \<Gamma> x = None then Some (\<Gamma>(y \<mapsto> False, x \<mapsto> b)) else None)"
| "check_cmd (Move_assign x y) \<Gamma> =
     (case \<Gamma> y of None \<Rightarrow> None | Some b \<Rightarrow> if \<Gamma> x = None then None else Some (\<Gamma>(y \<mapsto> False, x \<mapsto> b)))"
| "check_cmd (Use x u) \<Gamma> = (if \<Gamma> x = Some True then Some \<Gamma> else None)"

fun check_cmds :: "handle_cmd list \<Rightarrow> var_env \<Rightarrow> var_env option" where
  "check_cmds [] \<Gamma> = Some \<Gamma>"
| "check_cmds (c # cs) \<Gamma> = (case check_cmd c \<Gamma> of None \<Rightarrow> None | Some \<Gamma>' \<Rightarrow> check_cmds cs \<Gamma>')"

section \<open>What the variables hold\<close>

definition holds :: "handle \<Rightarrow> fd_ref \<Rightarrow> nat" where
  "holds h a = (if h = Some a then 1 else 0)"

fun held_by :: "vars \<Rightarrow> fd_ref \<Rightarrow> nat" where
  "held_by [] a = 0"
| "held_by ((x, h) # vs) a = holds h a + held_by vs a"

lemma holds_None [simp]: "holds None = (\<lambda>_. 0)"
  by (simp add: holds_def fun_eq_iff)

lemma holds_Some [simp]: "holds (Some a) a = 1"
  by (simp add: holds_def)

lemma map_fst_set_var [simp]: "map fst (set_var x h vs) = map fst vs"
  by (induction vs) (auto simp: set_var_def)

lemma set_var_absent: "x \<notin> fst ` set vs \<Longrightarrow> set_var x h vs = vs"
  by (induction vs) (auto simp: set_var_def)

lemma map_of_set_var:
  "map_of (set_var x h vs) y = (if y = x \<and> map_of vs x \<noteq> None then Some h else map_of vs y)"
  by (induction vs) (auto simp: set_var_def)

lemma held_by_set_var:
  "distinct (map fst vs) \<Longrightarrow> map_of vs x = Some g \<Longrightarrow>
     held_by (set_var x h vs) a + holds g a = held_by vs a + holds h a"
proof (induction vs)
  case (Cons v vs)
  then show ?case
    by (cases v) (auto simp: set_var_absent [of x vs h, unfolded set_var_def] set_var_def split: if_splits)
qed simp

lemma held_by_pos: "map_of vs x = Some (Some a) \<Longrightarrow> held_by vs a > 0"
  by (induction vs a rule: held_by.induct) (auto split: if_splits)

text \<open>Giving back what a handle, and then what all variables of a block, hold.\<close>

lemma owning_handle_destroy:
  assumes "owning (\<lambda>a. rs a + holds h a) w"
  shows "\<exists>w'. handle_destroy K h w = (Ok (), w') \<and> owning rs w'"
proof (cases h)
  case (Some b)
  have "(\<lambda>a. rs a + holds h a)(b := rs b + holds h b - 1) = rs"
    using Some by (simp add: holds_def fun_eq_iff)
  with owning_destroy [OF assms, of b K] Some show ?thesis
    by (simp add: handle_destroy_def)
qed (use assms in \<open>simp add: handle_destroy_def prog_simps\<close>)

lemma owning_destroy_vars:
  "owning (\<lambda>a. rs a + held_by vs a) w \<Longrightarrow> \<exists>w'. destroy_vars K vs w = (Ok (), w') \<and> owning rs w'"
proof (induction K vs arbitrary: w rule: destroy_vars.induct)
  case (2 K x h vs)
  from "2.prems" have "owning (\<lambda>a. (rs a + held_by vs a) + holds h a) w"
    by (simp add: add.assoc add.commute [of "holds h _"])
  from owning_handle_destroy [OF this, of K] obtain w1 where
    "handle_destroy K h w = (Ok (), w1)" "owning (\<lambda>a. rs a + held_by vs a) w1" by blast
  with "2.IH" [of w1] show ?case by (auto simp: prog_simps)
qed (simp add: prog_simps)

section \<open>Soundness of the discipline\<close>

text \<open>
  The block owns what its variables hold, on top of the handles \<open>rs\<close> of the rest of the program;
  the variables agree with what the check knows about them.
\<close>

definition scope_ok :: "(fd_ref \<Rightarrow> nat) \<Rightarrow> 'k block \<Rightarrow> bool" where
  "scope_ok rs = (\<lambda>(w, vs). owning (\<lambda>a. rs a + held_by vs a) w \<and> distinct (map fst vs))"

fun fits :: "bool option \<Rightarrow> handle option \<Rightarrow> bool" where
  "fits None v = (v = None)"
| "fits (Some b) None = False"
| "fits (Some b) (Some h) = (b \<longrightarrow> h \<noteq> None)"

definition typed :: "var_env \<Rightarrow> vars \<Rightarrow> bool" where
  "typed \<Gamma> vs \<longleftrightarrow> (\<forall>x. fits (\<Gamma> x) (map_of vs x))"

lemma fits_Some: "fits (Some b) v \<longleftrightarrow> (\<exists>h. v = Some h \<and> (b \<longrightarrow> h \<noteq> None))"
  by (cases v) auto

lemma typed_None: "typed \<Gamma> vs \<Longrightarrow> \<Gamma> x = None \<Longrightarrow> map_of vs x = None"
  and typed_Some: "typed \<Gamma> vs \<Longrightarrow> \<Gamma> x = Some b \<Longrightarrow> \<exists>h. map_of vs x = Some h \<and> (b \<longrightarrow> h \<noteq> None)"
  by (metis typed_def fits.simps(1), metis typed_def fits_Some)

lemma typed_declare: "typed \<Gamma> vs \<Longrightarrow> (b \<longrightarrow> h \<noteq> None) \<Longrightarrow> typed (\<Gamma>(x \<mapsto> b)) ((x, h) # vs)"
  by (simp add: typed_def)

lemma typed_set:
  assumes "typed \<Gamma> vs" and "\<Gamma> x \<noteq> None" and "b \<longrightarrow> h \<noteq> None"
  shows "typed (\<Gamma>(x \<mapsto> b)) (set_var x h vs)"
proof -
  from assms(1,2) obtain g where "map_of vs x = Some g" using typed_Some by blast
  with assms(1,3) show ?thesis by (simp add: typed_def map_of_set_var)
qed

lemma scope_declare:
  "owning (\<lambda>a. (rs a + held_by vs a) + holds h a) w \<Longrightarrow> distinct (map fst vs) \<Longrightarrow> map_of vs x = None \<Longrightarrow>
     scope_ok rs (w, (x, h) # vs)"
  by (simp add: scope_ok_def map_of_eq_None_iff add.assoc add.commute [of "holds h _"])

lemma safe_fd_do:
  "read_contract K \<Longrightarrow> heap w0 a = Some obj \<Longrightarrow> safe (fd_le w0) (fd_do K a u)"
  by (cases u) (auto intro!: prog_intros simp: fd_close_def)

lemma in_block_apply: "m w = (r, w') \<Longrightarrow> in_block m (w, vs) = (r, (w', vs))"
  by (simp add: in_block_def zoomp_def)

lemma handle_read_apply: "map_of vs x = Some h \<Longrightarrow> handle_read x (w, vs) = (Ok h, (w, vs))"
  by (simp add: handle_read_def)

lemma handle_set_apply: "handle_set x h (w, vs) = (Ok (), (w, set_var x h vs))"
  and handle_declare_apply: "handle_declare x h (w, vs) = (Ok (), (w, (x, h) # vs))"
  by (simp_all add: handle_set_def handle_declare_def prog_simps)

lemmas block_apply = in_block_apply handle_read_apply handle_set_apply handle_declare_apply

text \<open>After \<open>std::move\<close> the variable is null and its reference is in the hand of the program.\<close>

lemma fd_move_apply:
  assumes "map_of vs y = Some h"
  shows "fd_move y (w, vs) = (Ok h, (w, set_var y None vs))"
    and "distinct (map fst vs) \<Longrightarrow> held_by (set_var y None vs) a + holds h a = held_by vs a"
  using assms held_by_set_var [of vs y h None a] by (simp_all add: fd_move_def block_apply prog_simps)

text \<open>How a statement may end: without undefined behaviour, in a consistent block, typed if it returns.\<close>

definition ends_well :: "(fd_ref \<Rightarrow> nat) \<Rightarrow> var_env \<Rightarrow> unit outcome \<times> 'k block \<Rightarrow> bool" where
  "ends_well rs \<Gamma> = (\<lambda>(r, w, vs). r \<noteq> UB \<and> scope_ok rs (w, vs) \<and> (r = Ok () \<longrightarrow> typed \<Gamma> vs))"

lemma construct_sound:
  assumes "scope_ok rs (w, vs)" and "typed \<Gamma> vs" and "\<Gamma> x = None"
  shows "ends_well rs (\<Gamma>(x \<mapsto> True)) (handle_exec K (Construct x fd) (w, vs))"
proof (cases "0 \<le> fd")
  case True
  let ?rs = "\<lambda>a. rs a + held_by vs a"
  from assms(1) have own: "owning ?rs w" "distinct (map fst vs)" by (simp_all add: scope_ok_def)
  obtain a w' where
    open_: "FileDescriptor fd w = (Ok a, w')" "?rs a = 0" "owning (?rs(a := 1)) w'"
    using owning_open [OF own(1) True] by metis
  have "?rs(a := 1) = (\<lambda>b. ?rs b + holds (Some a) b)"
    using open_(2) by (auto simp: holds_def fun_eq_iff)
  with open_(3) own(2) typed_None [OF assms(2,3)] have "scope_ok rs (w', (x, Some a) # vs)"
    by (simp add: scope_declare)
  with open_(1) assms(2) show ?thesis
    by (simp add: ends_well_def block_apply prog_simps typed_declare)
next
  case False
  then have "FileDescriptor fd w = (Throw (Runtime_error (''invalid fd number:'' @ int_to_string fd)), w)"
    by (simp add: FileDescriptor_def FDWrapper_def prog_simps)
  with assms(1) show ?thesis by (simp add: ends_well_def block_apply prog_simps)
qed

lemma duplicate_sound:
  assumes "scope_ok rs (w, vs)" and "typed \<Gamma> vs" and "\<Gamma> y = Some b" and "\<Gamma> x = None"
  shows "ends_well rs (\<Gamma>(x \<mapsto> b)) (handle_exec K (Duplicate_of x y) (w, vs))"
proof -
  let ?rs = "\<lambda>a. rs a + held_by vs a"
  from assms(1) have own: "owning ?rs w" "distinct (map fst vs)" by (simp_all add: scope_ok_def)
  from typed_Some [OF assms(2,3)] obtain h where h: "map_of vs y = Some h" "b \<longrightarrow> h \<noteq> None" by blast
  have "\<exists>w'. fd_duplicate_handle h w = (Ok h, w') \<and> owning (\<lambda>a. ?rs a + holds h a) w'"
  proof (cases h)
    case (Some a)
    have "?rs(a := ?rs a + 1) = (\<lambda>c. ?rs c + holds (Some a) c)"
      by (auto simp: holds_def fun_eq_iff)
    with owning_duplicate [OF own(1), of a] held_by_pos [of vs y a] h(1) Some show ?thesis
      by (auto simp: fd_duplicate_handle_def prog_simps)
  qed (use own(1) in \<open>simp add: fd_duplicate_handle_def prog_simps\<close>)
  then obtain w' where w': "fd_duplicate_handle h w = (Ok h, w')" "owning (\<lambda>a. ?rs a + holds h a) w'"
    by blast
  from scope_declare [OF w'(2) own(2) typed_None [OF assms(2,4)]] w'(1) h assms(2) show ?thesis
    by (simp add: ends_well_def block_apply prog_simps typed_declare)
qed

lemma move_construct_sound:
  assumes "scope_ok rs (w, vs)" and "typed \<Gamma> vs" and "\<Gamma> y = Some b" and "\<Gamma> x = None"
  shows "ends_well rs (\<Gamma>(y \<mapsto> False, x \<mapsto> b)) (handle_exec K (Move_construct x y) (w, vs))"
proof -
  from assms(1) have own: "owning (\<lambda>a. rs a + held_by vs a) w" "distinct (map fst vs)"
    by (simp_all add: scope_ok_def)
  from typed_Some [OF assms(2,3)] obtain h where h: "map_of vs y = Some h" "b \<longrightarrow> h \<noteq> None" by blast
  let ?vs = "set_var y None vs"
  have "(\<lambda>a. (rs a + held_by ?vs a) + holds h a) = (\<lambda>a. rs a + held_by vs a)"
    using fd_move_apply(2) [OF h(1) own(2)] by (simp add: add.assoc)
  with own have "owning (\<lambda>a. (rs a + held_by ?vs a) + holds h a) w" "distinct (map fst ?vs)" by simp_all
  moreover have "map_of ?vs x = None"
    using typed_None [OF assms(2,4)] h(1) by (auto simp: map_of_set_var)
  ultimately have "scope_ok rs (w, (x, h) # ?vs)" by (rule scope_declare)
  moreover have "typed (\<Gamma>(y \<mapsto> False, x \<mapsto> b)) ((x, h) # ?vs)"
    using assms(2,3) h(2) by (simp add: typed_declare typed_set)
  ultimately show ?thesis
    using fd_move_apply(1) [OF h(1), of w] by (simp add: ends_well_def block_apply prog_simps)
qed

lemma move_assign_sound:
  assumes "scope_ok rs (w, vs)" and "typed \<Gamma> vs" and "\<Gamma> y = Some b" and "\<Gamma> x \<noteq> None"
  shows "ends_well rs (\<Gamma>(y \<mapsto> False, x \<mapsto> b)) (handle_exec K (Move_assign x y) (w, vs))"
proof -
  from assms(1) have own: "owning (\<lambda>a. rs a + held_by vs a) w" "distinct (map fst vs)"
    by (simp_all add: scope_ok_def)
  from typed_Some [OF assms(2,3)] obtain h where h: "map_of vs y = Some h" "b \<longrightarrow> h \<noteq> None" by blast
  let ?vs = "set_var y None vs"
  have typed1: "typed (\<Gamma>(y \<mapsto> False)) ?vs" using assms(2,3) by (simp add: typed_set)
  with assms(4) obtain old where old: "map_of ?vs x = Some old"
    using typed_Some [OF typed1, of x] by (cases "(\<Gamma>(y \<mapsto> False)) x") (auto split: if_splits)
  let ?us = "set_var x h ?vs"
  have "held_by ?us a + holds old a = held_by vs a" for a
    using held_by_set_var [OF _ old, of h a] fd_move_apply(2) [OF h(1) own(2), of a] own(2) by simp
  then have "(\<lambda>a. (rs a + held_by ?us a) + holds old a) = (\<lambda>a. rs a + held_by vs a)"
    by (simp add: add.assoc)
  with own(1) have "owning (\<lambda>a. (rs a + held_by ?us a) + holds old a) w" by simp
  from owning_handle_destroy [OF this, of K] obtain w' where
    w': "handle_destroy K old w = (Ok (), w')" "owning (\<lambda>a. rs a + held_by ?us a) w'" by blast
  from typed_set [OF typed1, of x b h] assms(4) h(2) have "typed (\<Gamma>(y \<mapsto> False, x \<mapsto> b)) ?us"
    by (cases "x = y") simp_all
  with w' own(2) old fd_move_apply(1) [OF h(1), of w] show ?thesis
    by (simp add: ends_well_def scope_ok_def fd_move_assign_def block_apply prog_simps)
qed

lemma use_sound:
  assumes con: "read_contract K" and "scope_ok rs (w, vs)" and "typed \<Gamma> vs" and "\<Gamma> x = Some True"
  shows "ends_well rs \<Gamma> (handle_exec K (Use x u) (w, vs))"
proof -
  let ?rs = "\<lambda>a. rs a + held_by vs a"
  from assms(2) have own: "owning ?rs w" "distinct (map fst vs)" by (simp_all add: scope_ok_def)
  from typed_Some [OF assms(3,4)] obtain a where a: "map_of vs x = Some (Some a)" by blast
  then have "?rs a > 0" using held_by_pos by fastforce
  from owning_handle [where rs = ?rs and a = a, OF this safe_fd_do [OF con]] have safe: "safe (owning ?rs) (fd_do K a u)" .
  obtain r w' where run: "fd_do K a u w = (r, w')" by fastforce
  from safeD [OF safe own(1) run] own(2) assms(3) a run show ?thesis
    by (simp add: ends_well_def scope_ok_def handle_get_def block_apply prog_simps)
qed

lemma handle_exec_sound:
  assumes "read_contract K" and "scope_ok rs (w, vs)" and "typed \<Gamma> vs" and "check_cmd c \<Gamma> = Some \<Gamma>'"
  shows "ends_well rs \<Gamma>' (handle_exec K c (w, vs))"
  using assms
  by (cases c) (auto split: if_splits option.splits simp del: handle_exec.simps
      intro!: construct_sound duplicate_sound move_construct_sound move_assign_sound use_sound)

lemma block_exec_sound:
  assumes "read_contract K"
  shows "scope_ok rs (w, vs) \<Longrightarrow> typed \<Gamma> vs \<Longrightarrow> check_cmds cs \<Gamma> = Some \<Gamma>' \<Longrightarrow>
    ends_well rs \<Gamma>' (block_exec K cs (w, vs))"
proof (induction cs arbitrary: w vs \<Gamma>)
  case (Cons c cs)
  from Cons.prems(3) obtain \<Gamma>1 where c: "check_cmd c \<Gamma> = Some \<Gamma>1" "check_cmds cs \<Gamma>1 = Some \<Gamma>'"
    by (auto split: option.splits)
  obtain r w1 vs1 where run: "handle_exec K c (w, vs) = (r, (w1, vs1))" by (metis prod_cases3)
  from handle_exec_sound [OF assms Cons.prems(1,2) c(1)] run
  have r: "r \<noteq> UB" "scope_ok rs (w1, vs1)" "r = Ok () \<longrightarrow> typed \<Gamma>1 vs1"
    by (simp_all add: ends_well_def)
  from Cons.IH [OF r(2) _ c(2)] r run show ?case
    by (cases r) (simp_all add: ends_well_def bindp_def)
qed (simp add: ends_well_def prog_simps)

text \<open>A variable that was moved from must not be used: its null pointer would be read through.\<close>

lemma use_after_move:
  assumes "0 \<le> fd" and "x \<noteq> y"
  shows "fst (run_block K [Construct x fd, Move_construct y x, Use x u] w) = UB"
    and "check_cmds [Construct x fd, Move_construct y x, Use x u] Map.empty = None"
  using assms
  by (simp_all add: run_block_def FileDescriptor_eq fd_move_def handle_get_def set_var_def finallyp_def
      block_apply prog_simps)

section \<open>Properties\<close>

text \<open>
  C21. Handles as a type: a block of constructions, \<open>duplicate\<close>s, moves and uses of handles that
  passes the static check (a variable is declared once, and used only while it surely was not moved
  from) has no undefined behaviour, whatever the kernel answers within the contract of \<open>read\<close> and
  whichever statement throws; and when it is left, normally or by an exception, its variables have
  given back every reference the block took, no more and no less.
\<close>

theorem handles_sound:
  assumes "check_cmds cs Map.empty = Some \<Gamma>" and "read_contract K" and "fd_inv w"
  shows "\<exists>r w'. run_block K cs w = (r, w') \<and> r \<noteq> UB \<and> fd_inv w' \<and> refs w' = refs w"
proof -
  have "scope_ok (refs w) (w, [])" "typed Map.empty []"
    using assms(3) by (simp_all add: scope_ok_def owning_def typed_def)
  moreover obtain r w1 vs where run: "block_exec K cs (w, []) = (r, (w1, vs))" by (metis prod_cases3)
  ultimately have r: "r \<noteq> UB" "scope_ok (refs w) (w1, vs)"
    using block_exec_sound [OF assms(2) _ _ assms(1), of "refs w" w "[]"] by (simp_all add: ends_well_def)
  then obtain w2 where "destroy_vars K vs w1 = (Ok (), w2)" "owning (refs w) w2"
    using owning_destroy_vars [of "refs w" vs w1 K] by (auto simp: scope_ok_def)
  with run r(1) show ?thesis
    by (cases r) (simp_all add: run_block_def finallyp_def owning_def prog_simps)
qed

theorem handles_sound_witness:
  "refs (snd (run_block close_log_kernel [Construct 0 5, Duplicate_of 1 0, Move_construct 2 0,
     Construct 3 7, Move_assign 2 3, Use 1 Do_close, Use 2 (Do_set_blocking False)] (new_world []))) = (\<lambda>_. 0)"
proof -
  have "read_contract close_log_kernel"
    by (simp add: read_contract_def close_log_kernel_def failing_kernel_def failing_def)
  moreover have "\<exists>\<Gamma>. check_cmds [Construct 0 5, Duplicate_of 1 0, Move_construct 2 0,
     Construct 3 7, Move_assign 2 3, Use 1 Do_close, Use 2 (Do_set_blocking False)] Map.empty = Some \<Gamma>"
    by simp
  ultimately show ?thesis
    using handles_sound [OF _ _ fd_inv_start] by (metis new_world_simps(3) snd_conv)
qed

end
