(* ===== verification/Event_Loop_Life.thy ===== *)
theory Event_Loop_Life
  imports Event_Loop Handles
begin

text \<open>
  The life of an event loop: \<open>class EventLoop\<close> from its construction to its destruction, through any
  number of calls of \<open>add_rule\<close> and \<open>wait_next_event\<close> (\<open>libsponge/util/eventloop.hh\<close>,
  \<open>libsponge/util/eventloop.cc\<close>), with a client that in between uses the descriptors it holds itself and
  may catch what a call throws and go on.

  Neither constructor nor destructor is written in the class. The list of rules starts empty, and
  its destruction destroys the handle of every rule, from the front (the order matters for the order
  of the calls of \<open>close\<close> only).

  The lemmas: what the loop takes of the descriptors is what its rules hold, in every state it can
  reach, and its destruction gives exactly that back.
\<close>

section \<open>Construction and destruction\<close>

definition EventLoop :: "'k world \<Rightarrow> 'u \<Rightarrow> ('k, 'c, 'u) loop" where
  "EventLoop w app = \<lparr>lp_world = w, lp_rules = [], lp_app = app\<rparr>"

fun destroy_rules :: "'k kernel \<Rightarrow> 'c rule list \<Rightarrow> ('k world, unit) prog" where
  "destroy_rules K [] = retp ()"
| "destroy_rules K (r # rules) = thenp (fd_destroy K (rl_fd r)) (destroy_rules K rules)"

definition EventLoop_destructor :: "'k kernel \<Rightarrow> (('k, 'c, 'u) loop, unit) prog" where
  "EventLoop_destructor K =
     bindp (getp lp_rules) (\<lambda>rules.
     thenp (on_loop (destroy_rules K rules)) (modifyp (\<lambda>s. s\<lparr>lp_rules := []\<rparr>)))"

section \<open>What a client calls\<close>

datatype 'c loop_call =
    Add_rule fd_ref direction 'c "'c option" "'c option"
  | Wait int
  | Use_fd fd_ref fd_use

fun loop_exec :: "'k kernel \<Rightarrow> ('k, 'c, 'u) closures \<Rightarrow> 'c loop_call \<Rightarrow> ('k, 'c, 'u) loop \<Rightarrow>
    (unit outcome \<times> ('k, 'c, 'u) loop) option" where
  "loop_exec K C (Add_rule fd direction callback interest cancel) s =
     Some (add_rule fd direction callback interest cancel s)"
| "loop_exec K C (Wait timeout_ms) s =
     map_option (\<lambda>(r, t). thenp (liftp r) (retp ()) t) (wait_next_event K C timeout_ms s)"
| "loop_exec K C (Use_fd a u) s = Some (on_loop (fd_do K a u) s)"

text \<open>A client with the handles \<open>mine\<close> passes and uses no others.\<close>

fun legal_call :: "(fd_ref \<Rightarrow> nat) \<Rightarrow> 'c loop_call \<Rightarrow> bool" where
  "legal_call mine (Add_rule fd _ _ _ _) = (mine fd > 0)"
| "legal_call mine (Wait _) = True"
| "legal_call mine (Use_fd a _) = (mine a > 0)"

inductive loop_run :: "'k kernel \<Rightarrow> ('k, 'c, 'u) closures \<Rightarrow> (fd_ref \<Rightarrow> nat) \<Rightarrow> ('k, 'c, 'u) loop \<Rightarrow> bool"
  for K C mine where
  constructed: "fd_inv w \<Longrightarrow> (\<forall>a. mine a \<le> refs w a) \<Longrightarrow> loop_run K C mine (EventLoop w app)"
| called: "loop_run K C mine s \<Longrightarrow> legal_call mine call \<Longrightarrow> loop_exec K C call s = Some (r, t) \<Longrightarrow>
    loop_run K C mine t"

text \<open>A kernel whose \<open>poll\<close> answers \<open>-1\<close> or a number of descriptors.\<close>

definition poll_contract :: "'k kernel \<Rightarrow> bool" where
  "poll_contract K \<longleftrightarrow> (\<forall>ps timeout k. case k_poll K ps timeout k of (r, _) \<Rightarrow> - 1 \<le> r \<and> r < 2 ^ 31)"

section \<open>The invariant\<close>

lemma held_Cons: "held (r # rules) a = held rules a + (if rl_fd r = a then 1 else 0)"
  by (simp add: held_def)

lemma held_append: "held (rules @ rules') a = held rules a + held rules' a"
  by (simp add: held_def)

lemma loop_inv_fd_le:
  assumes "loop_inv mine s" and "fd_le (lp_world s) w"
  shows "loop_inv mine (s\<lparr>lp_world := w\<rparr>)"
proof -
  have "refs w = refs (lp_world s)" using assms(2) by (simp add: fd_le_def)
  with assms fd_inv_le show ?thesis by (auto simp: loop_inv_def)
qed

lemma add_rule_effect:
  assumes inv: "loop_inv mine s" and "mine a > 0"
  shows "\<exists>t. add_rule a d c i x s = (Ok (), t) \<and> loop_inv mine t
    \<and> lp_rules t = lp_rules s @ [\<lparr>rl_fd = a, rl_direction = d, rl_callback = c, rl_interest = i, rl_cancel = x\<rparr>]"
proof -
  let ?w = "lp_world s"
  have le: "held (lp_rules s) b + mine b \<le> refs ?w b" for b using inv by (simp add: loop_inv_def)
  have "refs ?w a > 0" using le [of a] assms(2) by simp
  moreover have "owning (refs ?w) ?w" using inv by (simp add: loop_inv_def owning_def)
  ultimately obtain w where w: "fd_duplicate a ?w = (Ok a, w)" "owning ((refs ?w)(a := refs ?w a + 1)) w"
    using owning_duplicate by blast
  with le show ?thesis
    by (auto simp: add_rule_def prog_simps loop_inv_def owning_def held_append held_Cons held_def)
qed

lemma use_fd_effect:
  assumes con: "read_contract K" and inv: "loop_inv mine s" and "mine a > 0"
  shows "\<exists>r t. on_loop (fd_do K a u) s = (r, t) \<and> r \<noteq> UB \<and> loop_inv mine t \<and> lp_rules t = lp_rules s"
proof -
  obtain obj where "heap (lp_world s) a = Some obj" using loop_inv_mine_alive [OF inv assms(3)] by blast
  note safe = safe_fd_do [where u = u, OF con this]
  obtain r w where run: "fd_do K a u (lp_world s) = (r, w)" by fastforce
  from safeD [OF safe fd_le_refl run] run loop_inv_fd_le [OF inv] show ?thesis
    by (simp add: prog_simps)
qed

text \<open>Every call a client can make returns, has no undefined behaviour and keeps the invariant.\<close>

lemma loop_exec_effect:
  assumes C: "tame mine C" and K: "read_contract K" "poll_contract K"
    and inv: "loop_inv mine s" and legal: "legal_call mine call"
  shows "\<exists>r t. loop_exec K C call s = Some (r, t) \<and> r \<noteq> UB \<and> loop_inv mine t"
proof (cases call)
  case (Add_rule a d c i x)
  with add_rule_effect [OF inv, of a d c i x] legal show ?thesis by auto
next
  case (Wait timeout)
  from wait_next_event_tame [OF C inv, of K timeout] K(2) obtain r t where
    "wait_next_event K C timeout s = Some (r, t)" "r \<noteq> UB" "loop_inv mine t"
    by (auto simp: poll_contract_def)
  with Wait show ?thesis by (cases r) (simp_all add: prog_simps)
next
  case (Use_fd a u)
  with use_fd_effect [OF K(1) inv, of a u] legal show ?thesis by auto
qed

lemma loop_run_inv:
  assumes C: "tame mine C" and K: "read_contract K" "poll_contract K"
  shows "loop_run K C mine s \<Longrightarrow> loop_inv mine s"
proof (induction rule: loop_run.induct)
  case (constructed w app)
  then show ?case by (simp add: EventLoop_def loop_inv_def held_def)
next
  case (called s call r t)
  from loop_exec_effect [OF C K called.IH called.hyps(2)] called.hyps(3) show ?case by auto
qed

section \<open>Destruction\<close>

lemma owning_destroy_rules:
  "owning (\<lambda>a. rs a + held rules a) w \<Longrightarrow> \<exists>w'. destroy_rules K rules w = (Ok (), w') \<and> owning rs w'"
proof (induction rules arbitrary: w)
  case (Cons r rules)
  have "(\<lambda>a. rs a + held (r # rules) a)(rl_fd r := rs (rl_fd r) + held (r # rules) (rl_fd r) - 1)
      = (\<lambda>a. rs a + held rules a)"
    by (auto simp: held_Cons fun_eq_iff)
  with owning_destroy [OF Cons.prems, of "rl_fd r" K] obtain w1 where
    "fd_destroy K (rl_fd r) w = (Ok (), w1)" "owning (\<lambda>a. rs a + held rules a) w1"
    by (auto simp: held_Cons)
  with Cons.IH [of w1] show ?case by (auto simp: prog_simps)
qed (simp add: prog_simps held_def)

lemma EventLoop_destructor_effect:
  assumes inv: "loop_inv mine s"
  shows "\<exists>t. EventLoop_destructor K s = (Ok (), t) \<and> lp_rules t = [] \<and> lp_app t = lp_app s
    \<and> fd_inv (lp_world t) \<and> (\<forall>a. refs (lp_world t) a + held (lp_rules s) a = refs (lp_world s) a)"
proof -
  let ?w = "lp_world s" and ?rs = "\<lambda>a. refs (lp_world s) a - held (lp_rules s) a"
  have le: "held (lp_rules s) a \<le> refs ?w a" for a
    using inv by (simp add: loop_inv_def) (metis add_leD1)
  then have "owning (\<lambda>a. ?rs a + held (lp_rules s) a) ?w"
    using inv by (simp add: owning_def loop_inv_def)
  from owning_destroy_rules [where rs = ?rs, OF this, of K] obtain w where
    "destroy_rules K (lp_rules s) ?w = (Ok (), w)" "owning ?rs w" by blast
  with le show ?thesis by (simp add: EventLoop_destructor_def prog_simps owning_def)
qed

section \<open>Properties\<close>

text \<open>
  C29. The event loop over its whole life: with closures that leave the rules alone, after any
  number of calls by a client that passes and uses handles it holds, and goes on after exceptions or
  not, a further call returns (also \<open>wait_next_event\<close>, whose first loop ends) and has no undefined
  behaviour; and destroying the loop at any of these points does not throw, gives back exactly the
  handles its rules hold, leaves the client every handle it has, and frees exactly the objects that
  nobody else refers to.
\<close>

theorem event_loop_lifecycle:
  assumes C: "tame mine C" and K: "read_contract K" "poll_contract K" and run: "loop_run K C mine s"
  shows "(\<forall>call. legal_call mine call \<longrightarrow> (\<exists>r t. loop_exec K C call s = Some (r, t) \<and> r \<noteq> UB))
    \<and> (\<exists>t. EventLoop_destructor K s = (Ok (), t)
        \<and> (\<forall>a. refs (lp_world t) a + held (lp_rules s) a = refs (lp_world s) a)
        \<and> (\<forall>a. mine a \<le> refs (lp_world t) a)
        \<and> (\<forall>a. (heap (lp_world t) a \<noteq> None) = (refs (lp_world t) a > 0)))"
proof -
  from loop_run_inv [OF C K run] have inv: "loop_inv mine s" .
  from EventLoop_destructor_effect [OF inv, of K] obtain t where
    t: "EventLoop_destructor K s = (Ok (), t)" "fd_inv (lp_world t)"
      "\<forall>a. refs (lp_world t) a + held (lp_rules s) a = refs (lp_world s) a"
    by blast
  have "mine a \<le> refs (lp_world t) a" for a
  proof -
    have "held (lp_rules s) a + mine a \<le> refs (lp_world s) a" using inv by (simp add: loop_inv_def)
    with t(3) show ?thesis by (metis add.commute add_le_cancel_right)
  qed
  with t loop_exec_effect [OF C K inv] show ?thesis by (fastforce simp: fd_inv_def)
qed

theorem event_loop_lifecycle_witness:
  "\<exists>t u. loop_exec (ready_kernel 1 0 POLLIN) (copy_client (ready_kernel 1 0 POLLIN) False) (Add_rule 0 In Copy None None)
       (EventLoop (open_world [1] 5) []) = Some (Ok (), t)
     \<and> EventLoop_destructor (ready_kernel 1 0 POLLIN) t = (Ok (), u) \<and> heap (lp_world u) 0 \<noteq> None"
proof -
  let ?K = "ready_kernel 1 0 POLLIN" and ?s = "EventLoop (open_world [1] 5) [] :: (bytes, copy_closure, bytes) loop"
  let ?C = "copy_client ?K False" and ?call = "Add_rule 0 In Copy None None"
  have K: "read_contract ?K" "poll_contract ?K"
    by (rule ready_kernel_contract) (simp add: poll_contract_def ready_kernel_def)
  have "fd_inv (open_world [1 :: u8] 5)"
    using fd_inv_open [OF fd_inv_start, of 5 "[1 :: u8]"] by (simp add: open_world_def FileDescriptor_eq)
  moreover have "client_handles a \<le> refs (open_world [1 :: u8] 5) a" for a
    by (simp add: client_handles_def)
  ultimately have start: "loop_run ?K ?C client_handles ?s" by (simp add: constructed)
  from add_rule_effect [OF loop_run_inv [OF copy_client_tame [OF K(1)] K start], of 0 In Copy None None]
  obtain t where t: "loop_exec ?K ?C ?call ?s = Some (Ok (), t)"
    by (auto simp: client_handles_def)
  from called [OF start _ t] have "loop_run ?K ?C client_handles t" by (simp add: client_handles_def)
  from event_loop_lifecycle [OF copy_client_tame [OF K(1)] K this] obtain u where
    "EventLoop_destructor ?K t = (Ok (), u)" "client_handles 0 \<le> refs (lp_world u) 0"
    "(heap (lp_world u) 0 \<noteq> None) = (refs (lp_world u) 0 > 0)" by blast
  with t show ?thesis by (auto simp: client_handles_def)
qed

end
