(* ===== verification/Webget.thy ===== *)
theory Webget
  imports Socket
begin

text \<open>
  The web client: \<open>get_URL\<close> and \<open>main\<close> of \<open>apps/webget.cc\<close>.

  The reading loop runs until the socket is at end of file, which a server may never let happen:
  it is a \<open>partial_function\<close>, with \<open>None\<close> for a run that does not end. The local \<open>TCPSocket\<close> is
  destroyed when its scope is left, normally or by an exception.

  The lemmas: the socket is freed however the function ends, and against a server that keeps the
  contracts of the calls the client sends exactly the request and prints exactly the response.
\<close>

section \<open>The program\<close>

definition http_request :: "bytes \<Rightarrow> bytes \<Rightarrow> bytes" where
  "http_request host path =
     (let crlf = bytes_of [CHR 0x0D, CHR 0x0A]
      in bytes_of ''GET '' @ path @ bytes_of '' HTTP/1.1'' @ crlf @ bytes_of ''Host: '' @ host @ crlf @ crlf)"

definition webget_request :: "'k kernel \<Rightarrow> fd_ref \<Rightarrow> address \<Rightarrow> bytes \<Rightarrow> bytes \<Rightarrow> ('k world, unit) prog" where
  "webget_request K socket addr host path =
     thenp (socket_connect K socket addr)
     (thenp (fd_write_str K socket (http_request host path) True)
     (socket_shutdown K socket SHUT_WR))"

definition print_cout :: "bytes \<Rightarrow> ('k world, unit) prog" where
  "print_cout s = modifyp (\<lambda>w. w\<lparr>cout := cout w @ s\<rparr>)"

text \<open>One turn of the loop: whether the loop ends, at end of file, or data was read and printed.\<close>

definition webget_turn :: "'k kernel \<Rightarrow> fd_ref \<Rightarrow> ('k world, bool) prog" where
  "webget_turn K socket =
     bindp (fd_eof socket) (\<lambda>at_eof.
       if at_eof then retp True
       else bindp (fd_read K socket read_limit_max) (\<lambda>res. thenp (print_cout res) (retp False)))"

partial_function (option) webget_read_loop ::
  "'k kernel \<Rightarrow> fd_ref \<Rightarrow> 'k world \<Rightarrow> (unit outcome \<times> 'k world) option" where
  "webget_read_loop K socket w =
     (case webget_turn K socket w of (r, w1) \<Rightarrow>
        (case r of
           Ok finished \<Rightarrow> if finished then Some (Ok (), w1) else webget_read_loop K socket w1
         | Throw e \<Rightarrow> Some (Throw e, w1)
         | UB \<Rightarrow> Some (UB, w1)))"

text \<open>Leaving the scope of the socket with the outcome \<open>r\<close>.\<close>

definition leave_scope :: "'k kernel \<Rightarrow> fd_ref \<Rightarrow> unit outcome \<Rightarrow> ('k world, unit) prog" where
  "leave_scope K socket r = finallyp (liftp r) (fd_destroy K socket)"

definition get_URL ::
  "'k kernel \<Rightarrow> bytes \<Rightarrow> bytes \<Rightarrow> 'k world \<Rightarrow> (unit outcome \<times> 'k world) option" where
  "get_URL K host path w =
     (case bindp (Address_host K host (bytes_of ''http'')) (\<lambda>addr.
             bindp (TCPSocket K) (\<lambda>socket. retp (addr, socket))) w of
        (Throw e, w1) \<Rightarrow> Some (Throw e, w1)
      | (UB, w1) \<Rightarrow> Some (UB, w1)
      | (Ok (addr, socket), w1) \<Rightarrow>
          (case webget_request K socket addr host path w1 of
             (Throw e, w2) \<Rightarrow> Some (leave_scope K socket (Throw e) w2)
           | (UB, w2) \<Rightarrow> Some (leave_scope K socket UB w2)
           | (Ok _, w2) \<Rightarrow>
               (case webget_read_loop K socket w2 of
                  None \<Rightarrow> None
                | Some (Ok _, w3) \<Rightarrow>
                    (case fd_close K socket w3 of (r, w4) \<Rightarrow> Some (leave_scope K socket r w4))
                | Some (r, w3) \<Rightarrow> Some (leave_scope K socket r w3))))"

datatype exit_status = Aborted | Exit_code int

definition print_cerr :: "string \<Rightarrow> exn option \<Rightarrow> 'k world \<Rightarrow> 'k world" where
  "print_cerr text' e w = w\<lparr>cerr := cerr w @ [(text', e)]\<rparr>"

definition usage :: "bytes \<Rightarrow> 'k world \<Rightarrow> 'k world" where
  "usage argv0 w =
     print_cerr ([CHR 0x09] @ ''Example: '' @ string_of_bytes argv0 @ '' stanford.edu /class/cs144'' @ [CHR 0x0A]) None
       (print_cerr (''Usage: '' @ string_of_bytes argv0 @ '' HOST PATH'' @ [CHR 0x0A]) None w)"

definition webget_main ::
  "'k kernel \<Rightarrow> bytes list \<Rightarrow> 'k world \<Rightarrow> (exit_status outcome \<times> 'k world) option" where
  "webget_main K argv w =
     (if length argv = 0 then Some (Ok Aborted, w)
      else if length argv \<noteq> 3 then Some (Ok (Exit_code EXIT_FAILURE), usage (argv ! 0) w)
      else case get_URL K (argv ! 1) (argv ! 2) w of
             None \<Rightarrow> None
           | Some (Ok _, w') \<Rightarrow> Some (Ok (Exit_code EXIT_SUCCESS), w')
           | Some (Throw e, w') \<Rightarrow> Some (Ok (Exit_code EXIT_FAILURE), print_cerr '''' (Some e) w')
           | Some (UB, w') \<Rightarrow> Some (UB, w'))"

section \<open>The socket is freed\<close>

lemma safe_print_cout [prog_intros]: "safe (fd_le w0) (print_cout s)"
  unfolding print_cout_def by (rule safe_modifyp) (simp add: fd_le_def)

lemma safe_webget_request [prog_intros]:
  assumes "heap w0 a = Some x"
  shows "safe (fd_le w0) (webget_request K a addr host path)"
  unfolding webget_request_def socket_connect_def socket_shutdown_def fd_write_str_def
  using assms by (intro prog_intros) auto

lemma safe_webget_turn [prog_intros]:
  "read_contract K \<Longrightarrow> heap w0 a = Some x \<Longrightarrow> safe (fd_le w0) (webget_turn K a)"
  unfolding webget_turn_def fd_eof_def by (intro prog_intros)

lemma webget_read_loop_safe:
  assumes con: "read_contract K" and x: "heap w0 a = Some x" and le: "fd_le w0 w"
    and ret: "webget_read_loop K a w = Some (r, w')"
  shows "r \<noteq> UB \<and> fd_le w0 w'"
proof -
  let ?P = "\<lambda>K a w z. read_contract K \<longrightarrow> (\<exists>x. heap w0 a = Some x) \<longrightarrow> fd_le w0 w \<longrightarrow>
      fst z \<noteq> UB \<and> fd_le w0 (snd z)"
  have "?P K a w (r, w')"
  proof (rule webget_read_loop.raw_induct [where P = ?P, OF _ ret], intro impI, elim exE)
    fix f :: "'a kernel \<Rightarrow> fd_ref \<Rightarrow> 'a world \<Rightarrow> (unit outcome \<times> 'a world) option" and K a w z x
    assume IH: "\<And>K a w z. f K a w = Some z \<Longrightarrow> ?P K a w z"
      and eq: "(case webget_turn K a w of (r, w1) \<Rightarrow>
        (case r of
           Ok finished \<Rightarrow> if finished then Some (Ok (), w1) else f K a w1
         | Throw e \<Rightarrow> Some (Throw e, w1)
         | UB \<Rightarrow> Some (UB, w1))) = Some z"
      and asm: "read_contract K" "heap w0 a = Some x" "fd_le w0 w"
    obtain q w1 where turn: "webget_turn K a w = (q, w1)" by fastforce
    from safeD [OF safe_webget_turn [OF asm(1,2)] asm(3) turn]
    have t: "q \<noteq> UB" "fd_le w0 w1" by simp_all
    show "fst z \<noteq> UB \<and> fd_le w0 (snd z)"
      using eq turn t asm IH [of K a w1 z] by (auto split: outcome.splits if_splits)
  qed
  with assms show ?thesis by auto
qed

lemma Address_host_safe:
  assumes "resolver_contract K"
  shows "fst (Address_host K host service w) \<noteq> UB \<and> same_fds w (snd (Address_host K host service w))"
proof -
  have "safe (same_fds w) (Address_host K host service)"
    unfolding Address_host_def by (rule safe_Address_resolve [OF assms]) simp
  then show ?thesis by (simp add: safe_def)
qed

lemma leave_scope_eq:
  "r \<noteq> UB \<Longrightarrow> fd_destroy K a w = (Ok (), w') \<Longrightarrow> leave_scope K a r w = (r, w')"
  by (cases r) (simp_all add: leave_scope_def finallyp_def prog_simps bindp_def catchp_def)

lemma fd_destroy_closed:
  "heap w a = Some obj \<Longrightarrow> w_closed obj \<Longrightarrow>
     \<exists>w'. fd_destroy K a w = (Ok (), w') \<and> kern w' = kern w \<and> cout w' = cout w"
  by (auto simp: fd_destroy_def FDWrapper_destructor_def prog_simps fd_simps)

text \<open>A scope that was entered by making the socket, and is left.\<close>

lemma leave_scope_frees:
  assumes inv: "fd_inv w" and made: "fd_inv w1" "refs w1 = (refs w)(next_ref w := 1)"
    and run: "fd_le w1 w2" "r \<noteq> UB"
  shows "\<exists>w'. leave_scope K (next_ref w) r w2 = (r, w') \<and> fd_inv w' \<and> refs w' = refs w"
proof -
  let ?b = "next_ref w"
  have inv2: "fd_inv w2" using made(1) run(1) by (rule fd_inv_le)
  have refs: "refs w2 = (refs w)(?b := 1)" using made(2) run(1) by (simp add: fd_le_def)
  then have "refs w2 ?b > 0" by simp
  from fd_destroy_effect [OF inv2 this] obtain w' where
    w': "fd_destroy K ?b w2 = (Ok (), w')" "fd_inv w'" "refs w' = (refs w2)(?b := refs w2 ?b - 1)"
    by blast
  have "refs w ?b = 0" using inv by (simp add: fd_inv_def)
  then have "refs w' = refs w" using w'(3) refs by auto
  with w' leave_scope_eq [OF run(2) w'(1)] show ?thesis by blast
qed

section \<open>Against a server\<close>

text \<open>
  A server behind the calls, observed in the kernel state: \<open>inbox\<close> is what it will still send on
  descriptor \<open>fd\<close>, \<open>sent\<close> what each descriptor has taken. Every call succeeds; a read delivers
  the next bytes of the inbox, some unless none are left; only \<open>read\<close> changes the inbox and only
  \<open>writev\<close> what was sent.
\<close>

definition succeeds :: "('k \<Rightarrow> 'o) \<Rightarrow> int \<Rightarrow> ('k, unit) sys \<Rightarrow> bool" where
  "succeeds obs r f \<longleftrightarrow> (\<forall>k. fst (f k) = r \<and> obs (snd (snd (snd (f k)))) = obs k)"

definition server_resolves :: "'k kernel \<Rightarrow> ('k \<Rightarrow> 'o) \<Rightarrow> bytes \<Rightarrow> bool" where
  "server_resolves K obs host \<longleftrightarrow> (\<forall>k. \<exists>e a len k'.
     k_getaddrinfo K (c_str host) (c_str (bytes_of ''http'')) (make_hints 0x10 2) k = (0, e, Some (a, len), k')
     \<and> unat len \<le> length a \<and> unat len \<le> 128 \<and> obs k' = obs k)"

definition server_answers :: "'k kernel \<Rightarrow> int \<Rightarrow> ('k \<Rightarrow> bytes) \<Rightarrow> ('k \<Rightarrow> int \<Rightarrow> bytes) \<Rightarrow> bool" where
  "server_answers K fd inbox sent \<longleftrightarrow> (\<forall>n k. n > 0 \<longrightarrow>
     (case k_read K fd n k of (r, _, d, k') \<Rightarrow>
        0 \<le> r \<and> inbox k = d @ inbox k' \<and> (d = [] \<longrightarrow> inbox k = []) \<and> sent k' = sent k))"

definition http_server ::
  "'k kernel \<Rightarrow> int \<Rightarrow> ('k \<Rightarrow> bytes) \<Rightarrow> ('k \<Rightarrow> int \<Rightarrow> bytes) \<Rightarrow> bytes \<Rightarrow> bool" where
  "http_server K fd inbox sent host \<longleftrightarrow>
     (let obs = (\<lambda>k. (inbox k, sent k)) in
        server_resolves K obs host
      \<and> succeeds obs fd (k_socket K (uint AF_INET) SOCK_STREAM 0)
      \<and> (\<forall>a len. succeeds obs 0 (k_connect K fd a len))
      \<and> writev_contract K sent \<and> writev_progress K
      \<and> (\<forall>n iov k. inbox (snd (snd (snd (k_writev K n iov k)))) = inbox k)
      \<and> succeeds obs 0 (k_shutdown K fd SHUT_WR)
      \<and> read_contract K \<and> server_answers K fd inbox sent
      \<and> succeeds obs 0 (k_close K fd))"

lemma succeeds_sys:
  assumes "succeeds obs r f" and "0 \<le> r" and "r < 2 ^ 31"
  shows "\<exists>k. sys attempt f w = (Ok (r, ()), w\<lparr>kern := k\<rparr>) \<and> obs k = obs (kern w)"
proof -
  obtain r' e k where call: "f (kern w) = (r', e, (), k)" by (metis prod_cases4 old.unit.exhaust)
  with assms(1) have "r' = r" "obs k = obs (kern w)"
    unfolding succeeds_def by (metis fst_conv, metis snd_conv)
  with sys_Ok [where f = f and w = w, OF call] assms(2,3) show ?thesis by auto
qed

lemma webget_turn_read:
  assumes con: "read_contract K" "server_answers K (w_fd obj) inbox sent"
    and obj: "heap w a = Some obj" "\<not> w_eof obj"
  shows "\<exists>w' d obj'. webget_turn K a w = (Ok False, w') \<and> heap w' = (heap w)(a \<mapsto> obj') \<and> w_fd obj' = w_fd obj
    \<and> (w_eof obj' \<longleftrightarrow> d = []) \<and> cout w' = cout w @ d \<and> inbox (kern w) = d @ inbox (kern w')
    \<and> (d = [] \<longrightarrow> inbox (kern w) = []) \<and> sent (kern w') = sent (kern w)"
proof -
  let ?n = "min BUFFER_SIZE read_limit_max"
  obtain r e d k where call: "k_read K (w_fd obj) ?n (kern w) = (r, e, d, k)" by (metis prod_cases4)
  have lim: "read_limit_max > 0" "?n > 0" by (simp_all add: read_limit_max_def BUFFER_SIZE_def min_def word_gt_0)
  have srv: "0 \<le> r" "inbox (kern w) = d @ inbox k" "d = [] \<longrightarrow> inbox (kern w) = []" "sent k = sent (kern w)"
    using con(2) lim(2) call unfolding server_answers_def
    by (auto dest!: spec [of _ ?n] spec [of _ "kern w"])
  let ?obj = "obj\<lparr>w_eof := w_eof obj \<or> (read_limit_max > 0 \<and> d = []), w_read_count := w_read_count obj + 1\<rparr>"
  have "fd_read K a read_limit_max w = (Ok d, w\<lparr>kern := k, heap := (heap w)(a \<mapsto> ?obj)\<rparr>)"
    using fd_read_eq [OF con(1) obj(1) call] srv(1) by simp
  then have "webget_turn K a w = (Ok False,
      w\<lparr>kern := k, heap := (heap w)(a \<mapsto> ?obj), cout := cout w @ d\<rparr>)"
    using obj by (simp add: webget_turn_def print_cout_def prog_simps fd_simps)
  with srv lim(1) obj(2) show ?thesis
    by (intro exI [of _ "w\<lparr>kern := k, heap := (heap w)(a \<mapsto> ?obj), cout := cout w @ d\<rparr>"] exI [of _ d]
        exI [of _ ?obj]) simp
qed

lemma webget_read_loop_unfold:
  "webget_turn K a w = (Ok False, w') \<Longrightarrow> webget_read_loop K a w = webget_read_loop K a w'"
  "webget_turn K a w = (Ok True, w') \<Longrightarrow> webget_read_loop K a w = Some (Ok (), w')"
  by (simp_all add: webget_read_loop.simps [of K a w])

lemma webget_turn_eof: "heap w a = Some obj \<Longrightarrow> w_eof obj \<Longrightarrow> webget_turn K a w = (Ok True, w)"
  by (simp add: webget_turn_def prog_simps fd_simps)

text \<open>The reading loop ends and prints the whole inbox.\<close>

lemma webget_read_loop_prints:
  assumes con: "read_contract K"
  shows "server_answers K (w_fd obj) inbox sent \<Longrightarrow> heap w a = Some obj \<Longrightarrow> \<not> w_eof obj \<Longrightarrow>
    \<exists>w' obj'. webget_read_loop K a w = Some (Ok (), w') \<and> heap w' a = Some obj' \<and> w_fd obj' = w_fd obj
      \<and> cout w' = cout w @ inbox (kern w) \<and> inbox (kern w') = [] \<and> sent (kern w') = sent (kern w)"
proof (induction "length (inbox (kern w))" arbitrary: w obj rule: less_induct)
  case less
  from webget_turn_read [OF con less.prems] obtain w' d obj' where
    t: "webget_turn K a w = (Ok False, w')" "heap w' = (heap w)(a \<mapsto> obj')" "w_fd obj' = w_fd obj"
      "w_eof obj' \<longleftrightarrow> d = []" "cout w' = cout w @ d" "inbox (kern w) = d @ inbox (kern w')"
      "d = [] \<longrightarrow> inbox (kern w) = []" "sent (kern w') = sent (kern w)"
    by blast
  have obj': "heap w' a = Some obj'" using t(2) by simp
  show ?case
  proof (cases "d = []")
    case True
    with t(4) webget_turn_eof [OF obj'] have "webget_turn K a w' = (Ok True, w')" by simp
    then have "webget_read_loop K a w = Some (Ok (), w')"
      using t(1) by (simp only: webget_read_loop_unfold)
    with t True obj' show ?thesis by auto
  next
    case False
    then have "length (inbox (kern w')) < length (inbox (kern w))" using t(6) by simp
    moreover have "server_answers K (w_fd obj') inbox sent" using less.prems(1) t(3) by simp
    ultimately obtain w2 obj2 where "webget_read_loop K a w' = Some (Ok (), w2)" "heap w2 a = Some obj2"
      "w_fd obj2 = w_fd obj'" "cout w2 = cout w' @ inbox (kern w')" "inbox (kern w2) = []"
      "sent (kern w2) = sent (kern w')"
      using less.hyps [of w' obj'] obj' t(4) False by blast
    with t webget_read_loop_unfold(1) [OF t(1)] show ?thesis by auto
  qed
qed

lemmas http_server_defs = http_server_def Let_def

text \<open>Resolving the name and making the socket.\<close>

lemma webget_opens:
  assumes srv: "http_server K fd inbox sent host" and fd: "0 \<le> fd" "fd < 2 ^ 31"
  defines "new \<equiv> \<lparr>w_fd = fd, w_eof = False, w_closed = False, w_read_count = 0, w_write_count = 0\<rparr>"
  shows "\<exists>addr k w1. Address_host K host (bytes_of ''http'') w = (Ok addr, w\<lparr>kern := k\<rparr>)
    \<and> TCPSocket K (w\<lparr>kern := k\<rparr>) = (Ok (next_ref w), w1)
    \<and> heap w1 = (heap w)(next_ref w \<mapsto> new) \<and> refs w1 = (refs w)(next_ref w := 1)
    \<and> inbox (kern w1) = inbox (kern w) \<and> sent (kern w1) = sent (kern w) \<and> cout w1 = cout w"
proof -
  let ?obs = "\<lambda>k. (inbox k, sent k)" and ?http = "bytes_of ''http''"
  let ?gai = "k_getaddrinfo K (c_str host) (c_str ?http) (make_hints 0x10 2)"
  note srv = srv [unfolded http_server_defs]
  obtain e a len k1 where gai: "?gai (kern w) = (0, e, Some (a, len), k1)" "unat len \<le> length a"
    "unat len \<le> 128" "?obs k1 = ?obs (kern w)"
    using srv unfolding server_resolves_def by blast
  obtain addr where "Address_raw a (ucast len) = Ok addr" using gai(2,3) by (simp add: Address_raw_eq)
  with invoke_ok [where f = ?gai and w = w, OF gai(1)]
  have host: "Address_host K host ?http w = (Ok addr, w\<lparr>kern := k1\<rparr>)"
    by (simp add: Address_host_def Address_resolve_def prog_simps)
  obtain k2 where k2: "sys ''socket'' (k_socket K (uint AF_INET) SOCK_STREAM 0) (w\<lparr>kern := k1\<rparr>)
      = (Ok (fd, ()), w\<lparr>kern := k1\<rparr>\<lparr>kern := k2\<rparr>)" "?obs k2 = ?obs (kern w)"
    using succeeds_sys [where obs = ?obs and r = fd and w = "w\<lparr>kern := k1\<rparr>", OF _ fd] srv gai(4) by fastforce
  let ?w1 = "w\<lparr>kern := k2, heap := (heap w)(next_ref w \<mapsto> new), refs := (refs w)(next_ref w := 1),
      next_ref := Suc (next_ref w)\<rparr>"
  have sock: "TCPSocket K (w\<lparr>kern := k1\<rparr>) = (Ok (next_ref w), ?w1)"
    using k2(1) fd by (simp add: TCPSocket_def Socket_def prog_simps FileDescriptor_eq new_def)
  show ?thesis
    by (intro exI [of _ addr] exI [of _ k1] exI [of _ ?w1]) (use host sock k2(2) in simp)
qed

text \<open>Connecting, sending the request and shutting down the writing side.\<close>

lemma webget_requests:
  assumes srv: "http_server K (w_fd obj) inbox sent host" and obj: "heap w a = Some obj"
    and small: "length (http_request host path) < 2 ^ 63"
  shows "\<exists>w' obj'. webget_request K a addr host path w = (Ok (), w') \<and> heap w' a = Some obj'
    \<and> w_fd obj' = w_fd obj \<and> w_eof obj' = w_eof obj \<and> cout w' = cout w \<and> inbox (kern w') = inbox (kern w)
    \<and> sent (kern w') = (sent (kern w))(w_fd obj := sent (kern w) (w_fd obj) @ http_request host path)"
proof -
  let ?obs = "\<lambda>k. (inbox k, sent k)" and ?req = "http_request host path" and ?fd = "w_fd obj"
  note srv = srv [unfolded http_server_defs]
  obtain k1 where k1: "sys ''connect'' (k_connect K ?fd (addr_storage addr) (addr_size addr)) w
      = (Ok (0, ()), w\<lparr>kern := k1\<rparr>)" "?obs k1 = ?obs (kern w)"
    using succeeds_sys [where obs = ?obs and r = 0 and w = w] srv by fastforce
  let ?w1 = "w\<lparr>kern := k1\<rparr>"
  have conn: "socket_connect K a addr w = (Ok (), ?w1)"
    using obj k1(1) by (simp add: socket_connect_def prog_simps fd_simps)
  have obj1: "heap ?w1 a = Some obj" and one: "length (concat [?req]) < 2 ^ 63"
    using obj small by simp_all
  from fd_write_loop_contract [OF _ obj1 one, of K sent 0] srv obtain w2 c where
    w2: "fd_write_loop K a True 0 [?req] ?w1 = (Ok (0 + csize (concat [?req])), w2)"
      "sent (kern w2) = (sent k1)(?fd := sent k1 ?fd @ concat [?req])"
      "heap w2 = (heap ?w1)(a \<mapsto> obj\<lparr>w_write_count := c\<rparr>)" "cout w2 = cout ?w1"
    by auto
  have "inbox (kern w2) = inbox k1"
    using keeps_kern_fd_write_loop [where P = "\<lambda>k. inbox k = inbox k1" and K = K and w = ?w1 and a = a
        and write_all = True and n = 0 and buffer = "[?req]"] srv w2(1) by simp
  moreover have "fd_write_str K a ?req True ?w1 = (Ok (csize ?req), w2)"
    using w2(1) by (simp add: fd_write_str_def fd_write_def BufferViewList_str_def BufferViewList_view_def)
  moreover
  let ?obj2 = "obj\<lparr>w_write_count := c\<rparr>"
  have obj2: "heap w2 a = Some ?obj2" by (simp add: w2(3))
  obtain k3 where k3: "k_shutdown K (w_fd ?obj2) SHUT_WR (kern w2) = (0, fst (snd (k_shutdown K ?fd SHUT_WR (kern w2))), (), k3)"
    "?obs k3 = ?obs (kern w2)"
    using srv unfolding succeeds_def by (auto simp: prod_eq_iff)
  from socket_shutdown_run [OF obj2 k3(1)]
  have "socket_shutdown K a SHUT_WR w2 = (Ok (), w2\<lparr>kern := k3,
      heap := (heap w2)(a \<mapsto> ?obj2\<lparr>w_read_count := w_read_count obj, w_write_count := c + 1\<rparr>)\<rparr>)"
    by (simp add: SHUT_WR_def SHUT_RD_def)
  ultimately show ?thesis
    using conn w2 k1(2) k3(2) by (simp add: webget_request_def prog_simps)
qed

text \<open>The scope of the socket: whatever the request and the loop do, it is left with the socket freed.\<close>

lemma get_URL_scope_frees:
  assumes con: "read_contract K" and x: "heap w1 s = Some x"
    and leave: "\<And>q u. fd_le w1 u \<Longrightarrow> q \<noteq> UB \<Longrightarrow> \<exists>v. leave_scope K s q u = (q, v) \<and> P v"
    and ret: "(case webget_request K s addr host path w1 of
             (Throw e, w2) \<Rightarrow> Some (leave_scope K s (Throw e) w2)
           | (UB, w2) \<Rightarrow> Some (leave_scope K s UB w2)
           | (Ok _, w2) \<Rightarrow>
               (case webget_read_loop K s w2 of
                  None \<Rightarrow> None
                | Some (Ok _, w3) \<Rightarrow>
                    (case fd_close K s w3 of (r, w4) \<Rightarrow> Some (leave_scope K s r w4))
                | Some (r, w3) \<Rightarrow> Some (leave_scope K s r w3))) = Some (r, w')"
  shows "r \<noteq> UB \<and> P w'"
proof -
  obtain r2 w2 where req: "webget_request K s addr host path w1 = (r2, w2)" by fastforce
  from safeD [OF safe_webget_request [OF x] fd_le_refl req]
  have t2: "r2 \<noteq> UB" "fd_le w1 w2" by simp_all
  show ?thesis
  proof (cases r2)
    case (Throw e)
    with ret req leave [OF t2(2), of "Throw e"] show ?thesis by auto
  next
    case (Ok u)
    with ret req obtain r3 w3 where loop: "webget_read_loop K s w2 = Some (r3, w3)"
      by (auto split: option.splits)
    from webget_read_loop_safe [OF con x t2(2) loop] have t3: "r3 \<noteq> UB" "fd_le w1 w3" by simp_all
    obtain r4 w4 where close: "fd_close K s w3 = (r4, w4)" by fastforce
    from safeD [OF safe_FDWrapper_close [OF x] t3(2) close [unfolded fd_close_def]]
    have t4: "r4 \<noteq> UB" "fd_le w1 w4" by simp_all
    from ret req Ok loop close leave [OF t4(2,1)] leave [OF t3(2,1)] t3(1) t4(1) show ?thesis
      by (cases r3) auto
  qed (use t2 in simp)
qed

lemma get_URL_frees_socket:
  assumes inv: "fd_inv w" and con: "resolver_contract K" "read_contract K"
    and ret: "get_URL K host path w = Some (r, w')"
  shows "r \<noteq> UB \<and> fd_inv w' \<and> refs w' = refs w"
proof -
  let ?http = "bytes_of ''http''"
  obtain ra wa where host: "Address_host K host ?http w = (ra, wa)" by fastforce
  with Address_host_safe [OF con(1), of host ?http w] have a: "ra \<noteq> UB" "same_fds w wa" by simp_all
  have inva: "fd_inv wa" using inv a(2) by (simp add: same_fds_def fd_inv_def)
  show ?thesis
  proof (cases ra)
    case (Throw e)
    with host ret a(2) inva show ?thesis by (auto simp: get_URL_def prog_simps same_fds_def)
  next
    case (Ok addr)
    show ?thesis
    proof (cases rule: Socket_outcomes [of K "uint AF_INET" SOCK_STREAM wa])
      case (thrown e w1)
      then have "fd_inv w1" "refs w1 = refs w" using inva a(2) by (simp_all add: same_fds_def fd_inv_def)
      with host Ok thrown ret show ?thesis by (auto simp: get_URL_def TCPSocket_def prog_simps)
    next
      case (made n w1)
      let ?s = "next_ref wa"
      have sock: "TCPSocket K wa = (Ok ?s, w1)" using made(1) by (simp add: TCPSocket_def)
      have x: "heap w1 ?s = Some \<lparr>w_fd = n, w_eof = False, w_closed = False, w_read_count = 0, w_write_count = 0\<rparr>"
        by (simp add: made(3))
      have inv1: "fd_inv w1" using inva made(2-5) by (auto simp: fd_inv_def)
      have refs: "refs wa = refs w" using a(2) by (simp add: same_fds_def)
      have leave: "\<exists>v. leave_scope K ?s q u = (q, v) \<and> fd_inv v \<and> refs v = refs w"
        if "fd_le w1 u" "q \<noteq> UB" for q u
        using leave_scope_frees [OF inva inv1 made(4) that] refs by simp
      note ret' = ret [unfolded get_URL_def, simplified prog_simps host Ok sock outcome.case prod.case]
      show ?thesis by (rule get_URL_scope_frees [OF con(2) x leave ret'])
    qed
  qed (use a in simp)
qed

section \<open>Properties\<close>


text \<open>
  A server that sends what is in its inbox, at most three bytes in a read, and takes at most three
  bytes in a write, over descriptor 7.
\<close>

definition web_kernel :: "(bytes \<times> (int \<Rightarrow> bytes)) kernel" where
  "web_kernel = (failing_kernel 9)\<lparr>
     k_getaddrinfo := (\<lambda>_ _ _ k. (0, 0, Some (sockaddr_in 80 0x01020304, 16), k)),
     k_socket := (\<lambda>_ _ _ k. (7, 0, (), k)), k_connect := (\<lambda>_ _ _ k. (0, 0, (), k)),
     k_shutdown := (\<lambda>_ _ k. (0, 0, (), k)), k_close := (\<lambda>_ k. (0, 0, (), k)),
     k_writev := (\<lambda>fd iov k. let d = concat (map iov_base iov)
       in (int (min 3 (length d)), 0, (), (fst k, (snd k)(fd := snd k fd @ take 3 d)))),
     k_read := (\<lambda>fd n k. let d = take (min 3 (unat n)) (fst k)
       in (int (length d), 0, d, (drop (length d) (fst k), snd k)))\<rparr>"

lemma web_kernel_read: "read_contract web_kernel"
  by (simp add: read_contract_def web_kernel_def Let_def min_def size_simps)

lemma web_kernel_resolver: "resolver_contract web_kernel"
  by (simp add: resolver_contract_def web_kernel_def)

lemma web_kernel_server: "http_server web_kernel 7 fst snd host"
proof -
  have split_min: "take m a @ drop (min (length a) m) a = a" for m and a :: "8 word list"
    by (cases "m \<le> length a") simp_all
  have "server_answers web_kernel 7 fst snd"
    by (auto simp: server_answers_def web_kernel_def Let_def word_gt_0 unat_gt_0 split_min min_def unat_eq_zero
        split: if_splits)
  moreover have "writev_contract web_kernel snd" "writev_progress web_kernel"
    by (auto simp: writev_contract_def writev_progress_def web_kernel_def Let_def min_def)
  ultimately show ?thesis
    using web_kernel_read
    by (simp add: http_server_defs server_resolves_def succeeds_def web_kernel_def Let_def)
qed


text \<open>
  C34. The web client against a server: if the name resolves, every call succeeds and the server
  sends finitely many bytes before it closes its side, then \<open>get_URL\<close> ends normally, having sent
  exactly the bytes of the request and printed exactly the bytes of the response, however the
  kernel cuts them into reads and writes.
\<close>

theorem get_URL_prints_response:
  assumes inv: "fd_inv w" and srv: "http_server K fd inbox sent host" and fd: "0 \<le> fd" "fd < 2 ^ 31"
    and small: "length (http_request host path) < 2 ^ 63"
  shows "\<exists>w'. get_URL K host path w = Some (Ok (), w')
    \<and> sent (kern w') = (sent (kern w))(fd := sent (kern w) fd @ http_request host path)
    \<and> cout w' = cout w @ inbox (kern w) \<and> inbox (kern w') = []"
proof -
  let ?s = "next_ref w"
    and ?new = "\<lparr>w_fd = fd, w_eof = False, w_closed = False, w_read_count = 0, w_write_count = 0\<rparr>"
  from webget_opens [OF srv fd, of w] obtain addr k w1 where
    w1: "Address_host K host (bytes_of ''http'') w = (Ok addr, w\<lparr>kern := k\<rparr>)"
      "TCPSocket K (w\<lparr>kern := k\<rparr>) = (Ok ?s, w1)" "heap w1 = (heap w)(?s \<mapsto> ?new)"
      "inbox (kern w1) = inbox (kern w)" "sent (kern w1) = sent (kern w)" "cout w1 = cout w"
    by blast
  have obj1: "heap w1 ?s = Some ?new" by (simp add: w1(3))
  from webget_requests [OF _ obj1 small, of K inbox sent addr] srv obtain w2 obj2 where
    w2: "webget_request K ?s addr host path w1 = (Ok (), w2)" "heap w2 ?s = Some obj2" "w_fd obj2 = fd"
      "\<not> w_eof obj2" "cout w2 = cout w1" "inbox (kern w2) = inbox (kern w1)"
      "sent (kern w2) = (sent (kern w1))(fd := sent (kern w1) fd @ http_request host path)"
    by auto
  have "server_answers K (w_fd obj2) inbox sent" "read_contract K"
    using srv w2(3) by (simp_all add: http_server_defs)
  from webget_read_loop_prints [OF this(2,1) w2(2,4)] obtain w3 obj3 where
    w3: "webget_read_loop K ?s w2 = Some (Ok (), w3)" "heap w3 ?s = Some obj3" "w_fd obj3 = fd"
      "cout w3 = cout w2 @ inbox (kern w2)" "inbox (kern w3) = []" "sent (kern w3) = sent (kern w2)"
    using w2(3) by auto
  have "succeeds (\<lambda>k. (inbox k, sent k)) 0 (k_close K fd)" using srv by (simp add: http_server_defs)
  from succeeds_sys [where w = w3, OF this] obtain k4 where
    k4: "sys ''close'' (k_close K fd) w3 = (Ok (0, ()), w3\<lparr>kern := k4\<rparr>)" "inbox k4 = []"
      "sent k4 = sent (kern w3)"
    using w3(5) by auto
  obtain w4 where w4: "fd_close K ?s w3 = (Ok (), w4)" "kern w4 = k4" "cout w4 = cout w3"
    "heap w4 ?s = Some (obj3\<lparr>w_eof := True, w_closed := True\<rparr>)" "refs w4 = refs w3"
    using w3(2,3) k4(1) by (simp add: fd_close_def FDWrapper_close_def prog_simps fd_simps)
  from fd_destroy_closed [OF w4(4)] obtain w5 where
    w5: "fd_destroy K ?s w4 = (Ok (), w5)" "kern w5 = kern w4" "cout w5 = cout w4"
    by fastforce
  have "leave_scope K ?s (Ok ()) w4 = (Ok (), w5)" using w5(1) by (intro leave_scope_eq) simp_all
  then have "get_URL K host path w = Some (Ok (), w5)"
    using w1(1,2) w2(1) w3(1) w4(1) by (simp add: get_URL_def prog_simps)
  then show ?thesis
    using w1(4-) w2(5-) w3(4-) k4(2,3) w4(2,3) w5(2,3) by (simp add: fun_upd_def)
qed

theorem get_URL_prints_response_witness:
  "\<exists>w'. get_URL web_kernel (bytes_of ''h'') (bytes_of ''/'') (new_world (bytes_of ''200 OK'', \<lambda>_. []))
       = Some (Ok (), w') \<and> cout w' = bytes_of ''200 OK''"
  using get_URL_prints_response [OF fd_inv_start web_kernel_server, of "bytes_of ''h''" "bytes_of ''/''"
      "(bytes_of ''200 OK'', \<lambda>_. [])"]
  by (auto simp: http_request_def Let_def)

end
