(* ===== verification/Hexdump.thy ===== *)
theory Hexdump
  imports Sponge_Prelude
begin

text \<open>
  The dump of a packet for a human reader: \<open>hexdump\<close> of \<open>libsponge/util/util.hh\<close> and
  \<open>libsponge/util/util.cc\<close>, with the parts of \<open>std::ostream\<close> and \<open>std::stringstream\<close> it uses.

  An output stream keeps its format flags, field width, fill character and what was written; it
  never fails, as \<open>std::cout\<close> does not by default. The string stream is written from the
  beginning, over its initial contents, as the default open mode has it. \<open>int printed\<close> is a HOL
  integer whose increment beyond \<open>INT_MAX\<close> is undefined behaviour, \<open>unsigned i\<close> a 32-bit word.
  The memory at \<open>data\<close> is a list of bytes.

  The lemmas: a reference definition of the dump line by line and its equality with what the loop
  prints, the lengths from which the loop overflows, and a reader that gets the bytes back.
\<close>

section \<open>Streams of the standard library\<close>

datatype basefield = Dec | Hex | Oct

datatype adjustfield = Adjust_left | Adjust_right | Adjust_internal

record ios_flags =
  fl_base :: basefield
  fl_adjust :: adjustfield
  fl_showbase :: bool
  fl_showpos :: bool
  fl_uppercase :: bool

record ostream =
  os_flags :: ios_flags
  os_width :: nat
  os_fill :: u8
  os_out :: bytes

text \<open>The standard output of a program that has set no manipulator.\<close>

definition fresh_cout :: ostream where
  "fresh_cout = \<lparr>os_flags = \<lparr>fl_base = Dec, fl_adjust = Adjust_right, fl_showbase = False,
     fl_showpos = False, fl_uppercase = False\<rparr>, os_width = 0, os_fill = 32, os_out = []\<rparr>"

text \<open>A field: what is printed, filled up to the width, which every field resets.\<close>

definition put_field :: "bytes \<Rightarrow> bytes \<Rightarrow> ostream \<Rightarrow> ostream" where
  "put_field prefix body os =
     (let fill = replicate (os_width os - length (prefix @ body)) (os_fill os)
      in os\<lparr>os_width := 0, os_out := os_out os @
           (case fl_adjust (os_flags os) of
              Adjust_left \<Rightarrow> prefix @ body @ fill
            | Adjust_right \<Rightarrow> fill @ prefix @ body
            | Adjust_internal \<Rightarrow> prefix @ fill @ body)\<rparr>)"

text \<open>Characters and strings, without a prefix: internal filling comes first, as on the right.\<close>

definition put_str :: "bytes \<Rightarrow> ostream \<Rightarrow> ostream" where
  "put_str s = put_field [] s"

text \<open>A number of type \<open>int\<close> that is not negative.\<close>

definition digit :: "bool \<Rightarrow> nat \<Rightarrow> u8" where
  "digit uppercase d =
     (if d < 10 then word_of_nat (48 + d)
      else if uppercase then word_of_nat (55 + d) else word_of_nat (87 + d))"

definition radix :: "basefield \<Rightarrow> nat" where
  "radix b = (case b of Dec \<Rightarrow> 10 | Hex \<Rightarrow> 16 | Oct \<Rightarrow> 8)"

lemma radix_gt_1: "1 < radix b"
  by (simp add: radix_def split: basefield.splits)

function digits :: "bool \<Rightarrow> basefield \<Rightarrow> nat \<Rightarrow> bytes" where
  "digits uppercase b n =
     (if n < radix b then [digit uppercase n]
      else digits uppercase b (n div radix b) @ [digit uppercase (n mod radix b)])"
  by pat_completeness auto
termination
proof (relation "measure (\<lambda>(_, _, n). n)")
  show "\<not> n < radix b \<Longrightarrow> ((u, b, n div radix b), u, b, n) \<in> measure (\<lambda>(_, _, n). n)"
    for n b and u :: bool
    using radix_gt_1 [of b] by simp
qed simp

declare digits.simps [simp del]

definition base_prefix :: "ios_flags \<Rightarrow> nat \<Rightarrow> bytes" where
  "base_prefix fl n =
     (case fl_base fl of
        Dec \<Rightarrow> if fl_showpos fl then [43] else []
      | Hex \<Rightarrow> if fl_showbase fl \<and> n \<noteq> 0 then [48, if fl_uppercase fl then 88 else 120] else []
      | Oct \<Rightarrow> if fl_showbase fl \<and> n \<noteq> 0 then [48] else [])"

definition put_nat :: "nat \<Rightarrow> ostream \<Rightarrow> ostream" where
  "put_nat n os =
     put_field (base_prefix (os_flags os) n) (digits (fl_uppercase (os_flags os)) (fl_base (os_flags os)) n) os"

definition setw :: "nat \<Rightarrow> ostream \<Rightarrow> ostream" where
  "setw n os = os\<lparr>os_width := n\<rparr>"

definition setfill :: "u8 \<Rightarrow> ostream \<Rightarrow> ostream" where
  "setfill c os = os\<lparr>os_fill := c\<rparr>"

definition hex_manipulator :: "ostream \<Rightarrow> ostream" where
  "hex_manipulator os = os\<lparr>os_flags := (os_flags os)\<lparr>fl_base := Hex\<rparr>\<rparr>"

text \<open>A string stream opened for reading and writing: the next character goes to the position.\<close>

record stringstream =
  ss_buf :: bytes
  ss_pos :: nat

definition stringstream_of :: "bytes \<Rightarrow> stringstream" where
  "stringstream_of s = \<lparr>ss_buf = s, ss_pos = 0\<rparr>"

definition ss_put :: "u8 \<Rightarrow> stringstream \<Rightarrow> stringstream" where
  "ss_put c ss =
     ss\<lparr>ss_buf := (if ss_pos ss < length (ss_buf ss) then (ss_buf ss)[ss_pos ss := c] else ss_buf ss @ [c]),
        ss_pos := ss_pos ss + 1\<rparr>"

text \<open>\<open>isprint\<close> in the C locale.\<close>

definition isprint :: "u8 \<Rightarrow> bool" where
  "isprint c \<longleftrightarrow> 32 \<le> c \<and> c \<le> 126"

section \<open>The dump\<close>

record dump =
  d_cout :: ostream
  d_pchars :: stringstream
  d_printed :: int
  d_i :: u32

definition INT_MAX :: int where "INT_MAX = 2147483647"

text \<open>Before a byte: the end of the last line and the head of the next one, or a separator.\<close>

definition dump_separator :: "bytes \<Rightarrow> dump \<Rightarrow> dump" where
  "dump_separator indent_string d =
     (if d_printed d AND 0xf = 0 then
        (let d = (if d_printed d \<noteq> 0 then
                    d\<lparr>d_cout := put_str (bytes_of [CHR 0x0A])
                        (put_str (ss_buf (d_pchars d)) (put_str (bytes_of ''    '') (d_cout d))),
                      d_pchars := stringstream_of (bytes_of '' '')\<rparr>
                  else d)
         in d\<lparr>d_cout := put_str (bytes_of '':    '')
               (put_nat (nat (d_printed d)) (setw 8 (put_str indent_string (d_cout d))))\<rparr>)
      else if d_printed d AND 1 = 0 then d\<lparr>d_cout := put_str (bytes_of '' '') (d_cout d)\<rparr>
      else d)"

definition dump_byte :: "u8 \<Rightarrow> dump \<Rightarrow> dump" where
  "dump_byte b d =
     d\<lparr>d_cout := put_nat (unat b) (setw 2 (d_cout d)),
       d_pchars := ss_put (if isprint b then b else 46) (d_pchars d)\<rparr>"

definition increment_printed :: "(dump, unit) prog" where
  "increment_printed = (\<lambda>d. if INT_MAX \<le> d_printed d then (UB, d)
                             else (Ok (), d\<lparr>d_printed := d_printed d + 1\<rparr>))"

definition hexdump_body :: "bytes \<Rightarrow> bytes \<Rightarrow> (dump, unit) prog" where
  "hexdump_body data indent_string =
     thenp (modifyp (dump_separator indent_string))
     (bindp (getp d_i) (\<lambda>i.
      bindp (liftp (array_index data (ucast i))) (\<lambda>b.
      thenp (modifyp (dump_byte b))
      increment_printed)))"

lemma hexdump_body_cases:
  obtains (ub) d' where "hexdump_body data ind d = (UB, d')"
      and "length data \<le> unat (d_i d) \<or> INT_MAX \<le> d_printed d"
  | (ok) d' where "hexdump_body data ind d = (Ok (), d')" and "d_printed d < INT_MAX"
      and "unat (d_i d) < length data" and "d_printed d' = d_printed d + 1" and "d_i d' = d_i d"
      and "d' = (dump_byte (data ! unat (d_i d)) (dump_separator ind d))\<lparr>d_printed := d_printed d + 1\<rparr>"
proof -
  let ?e = "dump_separator ind d"
  have keep: "d_printed ?e = d_printed d" "d_i ?e = d_i d"
    by (simp_all add: dump_separator_def Let_def)
  have unat_i: "unat (ucast (d_i d) :: size_t) = unat (d_i d)"
    using unsigned_less [of "d_i d", where 'a = nat]
    by (simp add: unsigned_ucast_eq take_bit_nat_eq_self)
  show thesis
  proof (cases "unat (d_i d) < length data \<and> d_printed d < INT_MAX")
    case True
    then show thesis
      by (intro ok [of "(dump_byte (data ! unat (d_i d)) ?e)\<lparr>d_printed := d_printed d + 1\<rparr>"])
        (simp_all add: hexdump_body_def increment_printed_def dump_byte_def array_index_def keep unat_i prog_simps)
  next
    case False
    then show thesis
      by (intro ub [of "if unat (d_i d) < length data then dump_byte (data ! unat (d_i d)) ?e else ?e"])
        (auto simp: hexdump_body_def increment_printed_def dump_byte_def array_index_def keep unat_i prog_simps)
  qed
qed

lemma hexdump_body_printed:
  assumes "hexdump_body data ind d = (Ok u, d')"
  shows "d_printed d < INT_MAX \<and> d_printed d' = d_printed d + 1"
  using assms by (cases rule: hexdump_body_cases [of data ind d]) simp_all

function hexdump_loop :: "bytes \<Rightarrow> bytes \<Rightarrow> size_t \<Rightarrow> (dump, unit) prog" where
  "hexdump_loop data indent_string len d =
     (if (ucast (d_i d) :: size_t) < len then
        (case hexdump_body data indent_string d of
           (Ok _, d') \<Rightarrow> hexdump_loop data indent_string len (d'\<lparr>d_i := d_i d' + 1\<rparr>)
         | (Throw e, d') \<Rightarrow> (Throw e, d')
         | (UB, d') \<Rightarrow> (UB, d'))
      else (Ok (), d))"
  by pat_completeness auto
termination
  by (relation "measure (\<lambda>(_, _, _, d). nat (INT_MAX - d_printed d))")
    (auto dest!: hexdump_body_printed [OF sym])

declare hexdump_loop.simps [simp del]

text \<open>After the loop: the padding, the last characters and two ends of line.\<close>

definition dump_tail :: "dump \<Rightarrow> dump" where
  "dump_tail d =
     (let print_rem = (16 - (d_printed d AND 0xf)) mod 16;
          spaces = replicate (nat (2 * print_rem + print_rem div 2 + 4)) 32
      in d\<lparr>d_cout := put_str (bytes_of [CHR 0x0A]) (put_str (bytes_of [CHR 0x0A])
             (put_str (ss_buf (d_pchars d)) (put_str spaces (d_cout d))))\<rparr>)"

definition hexdump :: "bytes \<Rightarrow> size_t \<Rightarrow> size_t \<Rightarrow> (ostream, unit) prog" where
  "hexdump data len indent os =
     (if unat indent > 9223372036854775807 then (Throw Std_length_error, os)
      else
        (let start = \<lparr>d_cout = setfill 48 (hex_manipulator os), d_pchars = stringstream_of (bytes_of '' ''),
               d_printed = 0, d_i = 0\<rparr>
         in case hexdump_loop data (replicate (unat indent) 32) len start of
              (Ok _, d) \<Rightarrow> (Ok (), (d_cout (dump_tail d))\<lparr>os_flags := os_flags os\<rparr>)
            | (Throw e, d) \<Rightarrow> (Throw e, d_cout d)
            | (UB, d) \<Rightarrow> (UB, d_cout d)))"

text \<open>The overload for \<open>const char *\<close>, whose bytes are read as \<open>uint8_t\<close>.\<close>

definition hexdump_char :: "bytes \<Rightarrow> size_t \<Rightarrow> size_t \<Rightarrow> (ostream, unit) prog" where
  "hexdump_char data len indent = hexdump data len indent"

section \<open>The dump, line by line\<close>

text \<open>
  What a dump is: lines of sixteen bytes, each with its address in eight hexadecimal digits, the
  bytes in pairs, and the printable characters in a column of their own; then an empty line.
\<close>

primrec hex_fixed :: "nat \<Rightarrow> nat \<Rightarrow> bytes" where
  "hex_fixed 0 n = []"
| "hex_fixed (Suc k) n = hex_fixed k (n div 16) @ [digit False (n mod 16)]"

fun hex_columns :: "bytes \<Rightarrow> bytes" where
  "hex_columns [] = []"
| "hex_columns [a] = hex_fixed 2 (unat a)"
| "hex_columns [a, b] = hex_fixed 2 (unat a) @ hex_fixed 2 (unat b)"
| "hex_columns (a # b # c # bs) =
     hex_fixed 2 (unat a) @ hex_fixed 2 (unat b) @ [32] @ hex_columns (c # bs)"

definition printable :: "u8 \<Rightarrow> u8" where
  "printable b = (if isprint b then b else 46)"

definition line_head :: "nat \<Rightarrow> nat \<Rightarrow> bytes \<Rightarrow> bytes" where
  "line_head indent addr chunk =
     replicate indent 32 @ hex_fixed 8 addr @ bytes_of '':    '' @ hex_columns chunk"

definition dump_line :: "nat \<Rightarrow> nat \<Rightarrow> bytes \<Rightarrow> bytes" where
  "dump_line indent addr chunk =
     line_head indent addr chunk @ replicate (39 - length (hex_columns chunk)) 32
       @ replicate 4 32 @ map printable chunk @ [10]"

function dump_lines :: "nat \<Rightarrow> nat \<Rightarrow> bytes \<Rightarrow> bytes" where
  "dump_lines indent addr data =
     (if length data \<le> 16 then dump_line indent addr data
      else dump_line indent addr (take 16 data) @ dump_lines indent (addr + 16) (drop 16 data))"
  by pat_completeness auto
termination
  by (relation "measure (\<lambda>(_, _, data). length data)") auto

declare dump_lines.simps [simp del]

definition dump_text :: "nat \<Rightarrow> bytes \<Rightarrow> bytes" where
  "dump_text indent data =
     (if data = [] then replicate 5 32 @ [10] else dump_lines indent 0 data) @ [10]"

lemma length_hex_fixed [simp]: "length (hex_fixed k n) = k"
  by (induction k arbitrary: n) simp_all

lemma hex_fixed_0: "hex_fixed k 0 = replicate k 48"
  by (induction k) (simp_all add: digit_def replicate_append_same)

lemma digits_padded:
  "n < 16 ^ Suc k \<Longrightarrow>
   replicate (Suc k - length (digits False Hex n)) 48 @ digits False Hex n = hex_fixed (Suc k) n"
proof (induction k arbitrary: n)
  case 0
  then show ?case by (simp add: digits.simps radix_def)
next
  case (Suc k)
  show ?case
  proof (cases "n < 16")
    case True
    then show ?thesis
      by (simp add: digits.simps [of _ _ n] radix_def hex_fixed_0 replicate_append_same del: hex_fixed.simps(2))
        (simp add: hex_fixed_0 replicate_append_same)
  next
    case False
    from Suc.prems have "n div 16 < 16 ^ Suc k" by (simp add: less_mult_imp_div_less)
    from Suc.IH [OF this] False show ?thesis
      by (simp add: digits.simps [of _ _ n] radix_def)
  qed
qed

lemma length_hex_columns: "length (hex_columns xs) = 2 * length xs + (length xs - 1) div 2"
  by (induction xs rule: hex_columns.induct) auto

lemma hex_columns_snoc:
  "xs \<noteq> [] \<Longrightarrow>
   hex_columns (xs @ [b]) = hex_columns xs @ (if even (length xs) then [32] else []) @ hex_fixed 2 (unat b)"
  by (induction xs rule: hex_columns.induct) auto

section \<open>What the loop prints\<close>

text \<open>A stream on which the numbers come out as in the dump.\<close>

definition hex_mode :: "ostream \<Rightarrow> bool" where
  "hex_mode os \<longleftrightarrow> os_width os = 0 \<and> os_fill os = 48 \<and> fl_base (os_flags os) = Hex
     \<and> fl_adjust (os_flags os) = Adjust_right \<and> \<not> fl_showbase (os_flags os) \<and> \<not> fl_uppercase (os_flags os)"

lemma put_str_hex_mode [simp]:
  "hex_mode os \<Longrightarrow> put_str s (os\<lparr>os_out := X\<rparr>) = os\<lparr>os_out := X @ s\<rparr>"
  by (simp add: hex_mode_def put_str_def put_field_def)

lemma put_nat_hex_mode [simp]:
  assumes "hex_mode os" and "n < 16 ^ Suc k" and w: "w = Suc k"
  shows "put_nat n (setw w (os\<lparr>os_out := X\<rparr>)) = os\<lparr>os_out := X @ hex_fixed w n\<rparr>"
  unfolding w using assms(1) digits_padded [OF assms(2)]
  by (simp add: hex_mode_def put_nat_def setw_def put_field_def base_prefix_def del: hex_fixed.simps)

text \<open>The state of the loop in the middle of a line with address \<open>addr\<close> that shows \<open>cur\<close>.\<close>

definition dump_at :: "nat \<Rightarrow> ostream \<Rightarrow> bytes \<Rightarrow> nat \<Rightarrow> bytes \<Rightarrow> dump" where
  "dump_at indent os before addr cur =
     \<lparr>d_cout = os\<lparr>os_out := before @ line_head indent addr cur\<rparr>,
      d_pchars = \<lparr>ss_buf = map printable cur, ss_pos = length cur\<rparr>,
      d_printed = int (addr + length cur), d_i = word_of_nat (addr + length cur)\<rparr>"

lemma low_bits:
  "int n AND 0xf = int (n mod 16)" "int n AND 1 = int (n mod 2)"
proof -
  have "(0xf :: int) = mask 4" by (simp add: mask_eq_exp_minus_1)
  then show "int n AND 0xf = int (n mod 16)"
    by (simp only: take_bit_eq_mask [symmetric] take_bit_eq_mod) (simp add: zmod_int)
  show "int n AND 1 = int (n mod 2)"
    by (simp add: and_one_eq zmod_int)
qed

lemma replicate_4: "replicate 4 x = [x, x, x, x]"
  by (simp add: numeral_eq_Suc)

lemma printable_char: "(if isprint b then b else 46) = printable b"
  by (simp add: printable_def)

lemma dump_byte_at:
  assumes "hex_mode os"
  shows "dump_byte b \<lparr>d_cout = os\<lparr>os_out := X\<rparr>, d_pchars = \<lparr>ss_buf = s, ss_pos = length s\<rparr>,
           d_printed = n, d_i = i\<rparr> =
         \<lparr>d_cout = os\<lparr>os_out := X @ hex_fixed 2 (unat b)\<rparr>,
          d_pchars = \<lparr>ss_buf = s @ [printable b], ss_pos = Suc (length s)\<rparr>, d_printed = n, d_i = i\<rparr>"
  using assms unsigned_less [of b, where 'a = nat]
  by (simp add: dump_byte_def put_nat_hex_mode [where k = 1] ss_put_def printable_char del: hex_fixed.simps)

text \<open>The first character of a line overwrites the blank the string stream starts with.\<close>

lemma dump_byte_first:
  assumes "hex_mode os"
  shows "dump_byte b \<lparr>d_cout = os\<lparr>os_out := X\<rparr>, d_pchars = stringstream_of (bytes_of '' ''),
           d_printed = n, d_i = i\<rparr> =
         \<lparr>d_cout = os\<lparr>os_out := X @ hex_fixed 2 (unat b)\<rparr>,
          d_pchars = \<lparr>ss_buf = [printable b], ss_pos = 1\<rparr>, d_printed = n, d_i = i\<rparr>"
  using assms unsigned_less [of b, where 'a = nat]
  by (simp add: dump_byte_def put_nat_hex_mode [where k = 1] ss_put_def printable_char
      stringstream_of_def bytes_of_def del: hex_fixed.simps)

lemma hexdump_body_run:
  assumes "idx < length data" and "idx < 2147483647"
    and d: "d_printed d = int idx" "d_i d = word_of_nat idx"
  shows "hexdump_body data ind d =
    (Ok (), (dump_byte (data ! idx) (dump_separator ind d))\<lparr>d_printed := int (Suc idx)\<rparr>)"
proof -
  have "unat (d_i d) = idx" using assms(2) d(2) by (simp add: unat_of_nat)
  with assms show ?thesis
    by (cases rule: hexdump_body_cases [of data ind d]) (simp_all add: INT_MAX_def)
qed

lemma hexdump_loop_step:
  assumes "idx < unat len" and "idx < length data" and "idx < 2147483647"
    and d: "d_printed d = int idx" "d_i d = word_of_nat idx"
    and d': "d' = (dump_byte (data ! idx) (dump_separator ind d))\<lparr>d_printed := int (Suc idx), d_i := word_of_nat (Suc idx)\<rparr>"
  shows "hexdump_loop data ind len d = hexdump_loop data ind len d'"
proof -
  have "unat (d_i d) = idx" using assms(3) d(2) by (simp add: unat_of_nat)
  then have "(ucast (d_i d) :: size_t) < len"
    using assms(1,3) by (simp add: word_less_nat_alt unsigned_ucast_eq take_bit_nat_eq_self)
  moreover have "d_i (dump_byte (data ! idx) (dump_separator ind d)) = word_of_nat idx"
    using d(2) by (simp add: dump_byte_def dump_separator_def Let_def)
  ultimately show ?thesis
    by (subst hexdump_loop.simps)
      (simp add: hexdump_body_run [OF assms(2,3) d] d' add.commute)
qed

lemma line_head_snoc:
  "cur \<noteq> [] \<Longrightarrow> line_head indent addr (cur @ [b]) =
     line_head indent addr cur @ (if even (length cur) then [32] else []) @ hex_fixed 2 (unat b)"
  by (simp add: line_head_def hex_columns_snoc del: hex_fixed.simps)

text \<open>One more byte on the line, or the end of a full line and the next one.\<close>

lemma hexdump_loop_in_line:
  assumes os: "hex_mode os" and cur: "cur \<noteq> []" "length cur < 16" and addr: "16 dvd addr"
    and idx: "idx = addr + length cur" "idx < unat len" "idx < length data" "idx < 2147483647"
  shows "hexdump_loop data (replicate indent 32) len (dump_at indent os before addr cur) =
    hexdump_loop data (replicate indent 32) len (dump_at indent os before addr (cur @ [data ! idx]))"
proof (rule hexdump_loop_step [OF idx(2-4)])
  have pos: "addr + length cur = idx" "addr + length (cur @ [b]) = Suc idx" for b
    by (simp_all add: idx(1))
  have mods: "idx mod 16 = length cur" "idx mod 2 = length cur mod 2"
    using addr cur unfolding idx(1) by (auto elim!: dvdE simp: mod_mult_self3) presburger
  show "d_printed (dump_at indent os before addr cur) = int idx"
    "d_i (dump_at indent os before addr cur) = word_of_nat idx"
    by (simp_all add: dump_at_def pos)
  show "dump_at indent os before addr (cur @ [data ! idx]) =
      (dump_byte (data ! idx) (dump_separator (replicate indent 32) (dump_at indent os before addr cur)))
        \<lparr>d_printed := int (Suc idx), d_i := word_of_nat (Suc idx)\<rparr>"
    using os cur dump_byte_at [OF os, where s = "map printable cur"]
    unfolding dump_at_def pos
    by (simp add: dump_separator_def low_bits mods line_head_snoc bytes_of_def
        even_iff_mod_2_eq_zero del: hex_fixed.simps)
qed

lemma hexdump_loop_new_line:
  assumes os: "hex_mode os" and cur: "length cur = 16" and addr: "16 dvd addr"
    and idx: "idx = addr + 16" "idx < unat len" "idx < length data" "idx < 2147483647"
  shows "hexdump_loop data (replicate indent 32) len (dump_at indent os before addr cur) =
    hexdump_loop data (replicate indent 32) len
      (dump_at indent os (before @ dump_line indent addr cur) (addr + 16) [data ! idx])"
proof (rule hexdump_loop_step [OF idx(2-4)])
  have pos: "addr + 16 = idx" "addr + length cur = idx" "idx mod 16 = 0" "0 < idx"
    using addr idx(1) cur by auto
  show "d_printed (dump_at indent os before addr cur) = int idx"
    "d_i (dump_at indent os before addr cur) = word_of_nat idx"
    by (simp_all add: dump_at_def pos)
  have line: "dump_line indent addr cur =
      line_head indent addr cur @ bytes_of ''    '' @ map printable cur @ bytes_of [CHR 0x0A]"
    by (simp add: dump_line_def length_hex_columns cur bytes_of_def replicate_4)
  show "dump_at indent os (before @ dump_line indent addr cur) (addr + 16) [data ! idx] =
      (dump_byte (data ! idx) (dump_separator (replicate indent 32) (dump_at indent os before addr cur)))
        \<lparr>d_printed := int (Suc idx), d_i := word_of_nat (Suc idx)\<rparr>"
    using os idx(4) dump_byte_first [OF os]
    by (simp add: dump_at_def dump_separator_def pos low_bits line line_head_def Let_def
        put_nat_hex_mode [where k = 7] del: hex_fixed.simps)
qed

text \<open>The padding of the last line brings its characters into the column of the others.\<close>

lemma dump_padding:
  assumes "1 \<le> c" "c \<le> 16"
  shows "nat (2 * ((16 - int (c mod 16)) mod 16) + (16 - int (c mod 16)) mod 16 div 2 + 4)
    = 39 - (2 * c + (c - 1) div 2) + 4"
proof -
  have "\<forall>c\<in>set [1..<17]. nat (2 * ((16 - int (c mod 16)) mod 16) + (16 - int (c mod 16)) mod 16 div 2 + 4)
    = 39 - (2 * c + (c - 1) div 2) + 4"
    by code_simp
  with assms show ?thesis by simp
qed

lemma dump_tail_at:
  assumes os: "hex_mode os" and cur: "cur \<noteq> []" "length cur \<le> 16" and addr: "16 dvd addr"
  shows "d_cout (dump_tail (dump_at indent os before addr cur)) =
    os\<lparr>os_out := before @ dump_line indent addr cur @ [10]\<rparr>"
proof -
  let ?rem = "(16 - int ((addr + length cur) mod 16)) mod 16"
  have "(addr + length cur) mod 16 = length cur mod 16"
    using addr by (auto elim!: dvdE)
  moreover have "1 \<le> length cur" using cur by (cases cur) simp_all
  ultimately have pad: "nat (2 * ?rem + ?rem div 2 + 4) = (39 - length (hex_columns cur)) + 4"
    using dump_padding [OF _ cur(2)] by (simp only: length_hex_columns)
  show ?thesis
    using os
    by (simp add: dump_tail_def dump_at_def low_bits pad [simplified] Let_def dump_line_def bytes_of_def
        replicate_add flip: of_nat_add)
qed

lemma dump_lines_short: "length data \<le> 16 \<Longrightarrow> dump_lines indent addr data = dump_line indent addr data"
  by (simp add: dump_lines.simps)

lemma dump_lines_full:
  "length cur = 16 \<Longrightarrow> rest \<noteq> [] \<Longrightarrow>
   dump_lines indent addr (cur @ rest) = dump_line indent addr cur @ dump_lines indent (addr + 16) rest"
  by (subst dump_lines.simps) simp

lemma hexdump_loop_prints:
  assumes os: "hex_mode os" and len: "unat len \<le> length data" "unat len < 2147483648"
    and "cur \<noteq> []" "length cur \<le> 16" "16 dvd addr"
    and "take (unat len) data = pre @ rest" "length pre = addr + length cur"
  shows "\<exists>d. hexdump_loop data (replicate indent 32) len (dump_at indent os before addr cur) = (Ok (), d)
    \<and> d_cout (dump_tail d) = os\<lparr>os_out := before @ dump_lines indent addr (cur @ rest) @ [10]\<rparr>"
  using assms(4-)
proof (induction rest arbitrary: before addr cur pre)
  case Nil
  have idx: "length pre = unat len"
    using Nil.prems(4) len(1) by (metis append_Nil2 length_take min.absorb2)
  have "unat (d_i (dump_at indent os before addr cur)) = unat len"
    using len(2) Nil.prems(5) idx by (simp add: dump_at_def unat_of_nat del: of_nat_add)
  then have "\<not> (ucast (d_i (dump_at indent os before addr cur)) :: size_t) < len"
    using len(2) by (simp add: word_less_nat_alt unsigned_ucast_eq take_bit_nat_eq_self)
  then show ?case
    by (simp add: hexdump_loop.simps dump_tail_at [OF os Nil.prems(1-3)] dump_lines_short [OF Nil.prems(2)])
next
  case (Cons b rest)
  let ?idx = "length pre"
  have "length (take (unat len) data) = unat len" using len(1) by simp
  with Cons.prems(4) have idx: "?idx < unat len" by simp
  with len have bounds: "?idx < length data" "?idx < 2147483647" by simp_all
  have b: "data ! ?idx = b"
    using Cons.prems(4) idx by (metis nth_append_length nth_take)
  show ?case
  proof (cases "length cur < 16")
    case True
    from hexdump_loop_in_line [OF os Cons.prems(1) True Cons.prems(3,5) idx bounds] b
    show ?thesis using Cons.IH [of "cur @ [b]" addr "pre @ [b]" before] True Cons.prems(3-5) by simp
  next
    case False
    with Cons.prems(2) have cur: "length cur = 16" by simp
    with Cons.prems(5) have "?idx = addr + 16" by simp
    from hexdump_loop_new_line [OF os cur Cons.prems(3) this idx bounds] b
    show ?thesis
      using Cons.IH [of "[b]" "addr + 16" "pre @ [b]" "before @ dump_line indent addr cur"] Cons.prems(3-5) cur
      by (simp add: dump_lines_full)
  qed
qed

lemma hexdump_text:
  assumes os: "os_width os = 0" "fl_adjust (os_flags os) = Adjust_right" "\<not> fl_showbase (os_flags os)"
      "\<not> fl_uppercase (os_flags os)"
    and len: "unat len \<le> length data" "unat len < 2147483648" and indent: "unat indent < 2 ^ 63"
  shows "hexdump data len indent os =
    (Ok (), os\<lparr>os_fill := 48, os_out := os_out os @ dump_text (unat indent) (take (unat len) data)\<rparr>)"
proof -
  let ?os = "setfill 48 (hex_manipulator os)" and ?ind = "replicate (unat indent) 32"
  let ?start = "\<lparr>d_cout = ?os, d_pchars = stringstream_of (bytes_of '' ''), d_printed = 0, d_i = 0\<rparr>"
  have hex: "hex_mode ?os" using os by (simp add: hex_mode_def setfill_def hex_manipulator_def)
  have same: "?os\<lparr>os_out := os_out os\<rparr> = ?os" by (simp add: setfill_def hex_manipulator_def)
  have "\<exists>d. hexdump_loop data ?ind len ?start = (Ok (), d) \<and>
      d_cout (dump_tail d) = ?os\<lparr>os_out := os_out os @ dump_text (unat indent) (take (unat len) data)\<rparr>"
  proof (cases "take (unat len) data")
    case Nil
    with len have "len = 0" by (metis length_take list.size(3) min.absorb2 unat_eq_zero)
    then show ?thesis
      using put_str_hex_mode [OF hex, of _ "os_out os"] hex
      by (subst hexdump_loop.simps)
        (simp add: dump_tail_def dump_text_def stringstream_of_def bytes_of_def numeral_eq_Suc same Let_def)
  next
    case (Cons b rest)
    with len(1) have pos: "0 < unat len" "0 < length data" "data ! 0 = b"
      by (auto simp: neq_Nil_conv take_Cons split: nat.splits) (cases data; cases "unat len"; simp)+
    have "hexdump_loop data ?ind len ?start =
        hexdump_loop data ?ind len (dump_at (unat indent) ?os (os_out os) 0 [b])"
    proof (rule hexdump_loop_step [OF pos(1,2)])
      show "dump_at (unat indent) ?os (os_out os) 0 [b] =
          (dump_byte (data ! 0) (dump_separator ?ind ?start))\<lparr>d_printed := int (Suc 0), d_i := word_of_nat (Suc 0)\<rparr>"
        using dump_byte_first [OF hex] put_str_hex_mode [OF hex, of _ "os_out os"]
        by (simp add: dump_separator_def dump_at_def line_head_def pos(3) same Let_def hex
            put_nat_hex_mode [where k = 7] del: hex_fixed.simps)
    qed simp_all
    with hexdump_loop_prints [OF hex len, of "[b]" 0 "[b]" rest "unat indent" "os_out os"] Cons
    show ?thesis by (simp add: dump_text_def)
  qed
  with indent show ?thesis
    by (auto simp: hexdump_def Let_def setfill_def hex_manipulator_def)
qed

text \<open>
  C38. What \<open>hexdump\<close> prints on a stream with no field width or adjustment set, for up to
  \<open>2 ^ 31 - 1\<close> bytes: lines of sixteen bytes, each with its address, the bytes in hexadecimal and
  their printable characters, aligned also in a short last line, and an empty line. The format
  flags are those the stream had, but its fill character is left at \<open>'0'\<close>.
\<close>

theorem hexdump_prints:
  assumes "os_width os = 0" "fl_adjust (os_flags os) = Adjust_right" "\<not> fl_showbase (os_flags os)"
      "\<not> fl_uppercase (os_flags os)"
    and "unat len \<le> length data" "unat len < 2147483648" and "unat indent < 2 ^ 63"
  shows "hexdump data len indent os =
    (Ok (), os\<lparr>os_fill := 48, os_out := os_out os @ dump_text (unat indent) (take (unat len) data)\<rparr>)"
  by (rule hexdump_text [OF assms])

theorem hexdump_prints_witness:
  "hexdump (bytes_of ''Hi!'') 3 1 fresh_cout =
     (Ok (), fresh_cout\<lparr>os_fill := 48, os_out := bytes_of
        ('' 00000000:    4869 21'' @ replicate 36 CHR '' '' @ ''Hi!'' @ [CHR 0x0A, CHR 0x0A])\<rparr>)"
proof -
  have "dump_text 1 (take 3 (bytes_of ''Hi!'')) =
      bytes_of ('' 00000000:    4869 21'' @ replicate 36 CHR '' '' @ ''Hi!'' @ [CHR 0x0A, CHR 0x0A])"
    by code_simp
  then show ?thesis
    using hexdump_prints [of fresh_cout 3 "bytes_of ''Hi!''" 1] by (simp add: fresh_cout_def)
qed

section \<open>Too many bytes\<close>

lemma hexdump_loop_overflows:
  assumes "2147483648 \<le> unat len" "unat len \<le> length data"
    and "d_printed d = int (unat (d_i d))" "unat (d_i d) < 2147483648"
  shows "fst (hexdump_loop data ind len d) = UB"
  using assms
proof (induction data ind len d rule: hexdump_loop.induct)
  case (1 data ind len d)
  have less: "(ucast (d_i d) :: size_t) < len"
    using "1.prems"(1,4) by (simp add: word_less_nat_alt unsigned_ucast_eq take_bit_nat_eq_self)
  show ?case
  proof (cases rule: hexdump_body_cases [of data ind d])
    case (ub d')
    with less show ?thesis by (simp add: hexdump_loop.simps)
  next
    case (ok d')
    have i: "unat (d_i d + 1) = Suc (unat (d_i d))"
      using "1.prems"(4) by (simp add: unat_word_ariths)
    have "unat (d_i d + 1) < 2147483648"
      unfolding i using ok(2) "1.prems"(3) unfolding INT_MAX_def by linarith
    then have "fst (hexdump_loop data ind len (d'\<lparr>d_i := d_i d' + 1\<rparr>)) = UB"
      using "1.IH" [OF less ok(1) [symmetric] refl] "1.prems" ok(4,5) i by simp
    with less ok(1) show ?thesis by (simp add: hexdump_loop.simps [of _ _ _ d])
  qed
qed

text \<open>
  C39. From \<open>2 ^ 31\<close> bytes on, although all of them may be read, \<open>hexdump\<close> has undefined
  behaviour: the counter \<open>int printed\<close> overflows.
\<close>

theorem hexdump_overflows:
  assumes "2147483648 \<le> unat len" and "unat len \<le> length data" and "unat indent < 2 ^ 63"
  shows "fst (hexdump data len indent os) = UB"
proof -
  let ?start = "\<lparr>d_cout = setfill 48 (hex_manipulator os), d_pchars = stringstream_of (bytes_of '' ''),
    d_printed = 0, d_i = 0\<rparr>"
  have "fst (hexdump_loop data (replicate (unat indent) 32) len ?start) = UB"
    by (rule hexdump_loop_overflows [OF assms(1,2)]) simp_all
  with assms(3) show ?thesis
    by (auto simp: hexdump_def Let_def split: prod.splits outcome.splits)
qed

theorem hexdump_overflows_witness:
  "fst (hexdump (replicate 2147483648 0) 0x80000000 0 fresh_cout) = UB"
  by (rule hexdump_overflows) (simp_all only: length_replicate, simp_all)

section \<open>Reading a dump\<close>

definition unhex :: "u8 \<Rightarrow> nat" where
  "unhex c = (if c < 58 then unat c - 48 else unat c - 87)"

fun read_pairs :: "bytes \<Rightarrow> bytes" where
  "read_pairs [] = []"
| "read_pairs [c] = []"
| "read_pairs (c # d # s) =
     (if c = 32 then read_pairs (d # s) else word_of_nat (16 * unhex c + unhex d) # read_pairs s)"

function undump :: "nat \<Rightarrow> bytes \<Rightarrow> bytes" where
  "undump indent text' =
     (if length text' \<le> 1 then []
      else read_pairs (take 39 (drop (indent + 13) text')) @ undump indent (drop (indent + 73) text'))"
  by pat_completeness auto
termination
  by (relation "measure (\<lambda>(_, t). length t)") auto

declare undump.simps [simp del]

lemma unhex_digit: "d < 16 \<Longrightarrow> unhex (digit False d) = d \<and> digit False d \<noteq> 32"
proof -
  have "\<forall>d\<in>set [0..<16]. unhex (digit False d) = d \<and> digit False d \<noteq> 32" by code_simp
  then show "d < 16 \<Longrightarrow> unhex (digit False d) = d \<and> digit False d \<noteq> 32" by simp
qed

lemma read_pairs_hex: "read_pairs (hex_fixed 2 (unat b) @ s) = b # read_pairs s"
  using unhex_digit [of "unat b div 16 mod 16"] unhex_digit [of "unat b mod 16"]
    unsigned_less [of b, where 'a = nat]
  by (simp add: numeral_2_eq_2)

lemma read_pairs_blank: "read_pairs (32 # s) = read_pairs s"
  by (cases s) simp_all

lemma read_pairs_blanks: "read_pairs (replicate n 32) = []"
  by (induction n) (simp_all add: read_pairs_blank)

lemma read_pairs_columns: "read_pairs (hex_columns xs @ replicate n 32) = xs"
  by (induction xs rule: hex_columns.induct)
    (simp_all add: read_pairs_hex read_pairs_blank read_pairs_blanks del: hex_fixed.simps)

lemma undump_line:
  assumes "length chunk \<le> 16"
  shows "read_pairs (take 39 (drop (indent + 13) (dump_line indent addr chunk @ s))) = chunk"
proof -
  have "drop (indent + 13) (dump_line indent addr chunk @ s) =
      (hex_columns chunk @ replicate (39 - length (hex_columns chunk)) 32)
        @ replicate 4 32 @ map printable chunk @ [10] @ s"
    by (simp add: dump_line_def line_head_def)
  moreover have "length (hex_columns chunk) \<le> 39"
    using assms by (simp add: length_hex_columns)
  ultimately show ?thesis by (simp add: read_pairs_columns)
qed

lemma length_dump_line:
  "length chunk \<le> 16 \<Longrightarrow> length (dump_line indent addr chunk) = indent + 57 + length chunk"
  by (simp add: dump_line_def line_head_def length_hex_columns)

lemma undump_lines: "data \<noteq> [] \<Longrightarrow> undump indent (dump_lines indent addr data @ [10]) = data"
proof (induction indent addr data rule: dump_lines.induct)
  case (1 indent addr data)
  show ?case
  proof (cases "length data \<le> 16")
    case True
    let ?line = "dump_line indent addr data @ [10]"
    have "undump indent (drop (indent + 73) ?line) = []"
      using True by (simp add: undump.simps length_dump_line)
    then show ?thesis
      using undump_line [OF True] True "1.prems"
      by (simp add: undump.simps [of _ ?line] length_dump_line dump_lines_short)
  next
    case False
    let ?line = "dump_line indent addr (take 16 data)"
    let ?rest = "dump_lines indent (addr + 16) (drop 16 data) @ [10]"
    have "undump indent (?line @ ?rest) = take 16 data @ undump indent ?rest"
      using undump_line [of "take 16 data" indent addr ?rest] False
      by (simp add: undump.simps [of _ "?line @ ?rest"] length_dump_line)
    with False "1.IH" show ?thesis by (simp add: dump_lines.simps [of _ _ data])
  qed
qed

text \<open>
  C40. A dump loses nothing: from the text that \<open>hexdump\<close> prints on \<open>std::cout\<close>, at any
  indentation, the bytes can be read back.
\<close>

theorem hexdump_lossless:
  assumes "unat len \<le> length data" "unat len < 2147483648" and "unat indent < 2 ^ 63"
  shows "\<exists>os. hexdump data len indent fresh_cout = (Ok (), os)
    \<and> undump (unat indent) (os_out os) = take (unat len) data"
proof -
  have "undump (unat indent) (dump_text (unat indent) (take (unat len) data)) = take (unat len) data"
    by (simp add: dump_text_def undump_lines) (simp add: undump.simps numeral_eq_Suc)
  then show ?thesis
    using hexdump_text [OF _ _ _ _ assms, of fresh_cout] by (simp add: fresh_cout_def)
qed

theorem hexdump_lossless_witness:
  "\<exists>os. hexdump (replicate 33 7) 33 2 fresh_cout = (Ok (), os) \<and> undump 2 (os_out os) = replicate 33 7"
  using hexdump_lossless [of 33 "replicate 33 7" 2] by simp

end
