(* ===== verification/Timestamp.thy ===== *)
theory Timestamp
  imports Sponge_Prelude
begin

text \<open>
  The time since the program began: \<open>timestamp_ms\<close> of \<open>libsponge/util/util.hh\<close> and
  \<open>libsponge/util/util.cc\<close>.

  The clock is outside the program: a function from its state to the nanoseconds since its epoch,
  as \<open>std::chrono::steady_clock\<close> counts them, and its next state. The local variable with static
  storage duration is a member of the state, initialised by the first call. Differences are 64-bit
  signed numbers, whose overflow is undefined behaviour, and the cast to milliseconds truncates.

  The lemmas: on a clock that never goes back the calls return whole milliseconds since the first
  reading, and never go back either.
\<close>

type_synonym 'k steady_clock = "'k \<Rightarrow> int \<times> 'k"

record 'k clock_world =
  clk :: 'k
  program_start :: "int option"

definition clock_now :: "'k steady_clock \<Rightarrow> ('k clock_world, int) prog" where
  "clock_now c = (\<lambda>w. case c (clk w) of (t, k) \<Rightarrow> (Ok t, w\<lparr>clk := k\<rparr>))"

definition milliseconds :: "int \<Rightarrow> int" where
  "milliseconds d = (if d \<ge> 0 then d div 1000000 else - ((- d) div 1000000))"

definition static_program_start :: "'k steady_clock \<Rightarrow> ('k clock_world, int) prog" where
  "static_program_start c =
     bindp (getp program_start) (\<lambda>start. case start of
       Some t \<Rightarrow> retp t
     | None \<Rightarrow> bindp (clock_now c) (\<lambda>t. thenp (modifyp (\<lambda>w. w\<lparr>program_start := Some t\<rparr>)) (retp t)))"

definition timestamp_ms :: "'k steady_clock \<Rightarrow> ('k clock_world, 64 word) prog" where
  "timestamp_ms c =
     bindp (static_program_start c) (\<lambda>program_start.
     bindp (clock_now c) (\<lambda>now.
       if now - program_start < - (2 ^ 63) \<or> now - program_start \<ge> 2 ^ 63 then ubp
       else retp (word_of_int (milliseconds (now - program_start)))))"

section \<open>Timestamps on a steady clock\<close>

text \<open>Readings are 64-bit and never decrease.\<close>

definition steady :: "'k steady_clock \<Rightarrow> bool" where
  "steady c \<longleftrightarrow> (\<forall>k. 0 \<le> fst (c k) \<and> fst (c k) < 2 ^ 63 \<and> fst (c k) \<le> fst (c (snd (c k))))"

text \<open>The clock has gone on to at least \<open>t\<close> since the program started, if it did.\<close>

definition clock_inv :: "'k steady_clock \<Rightarrow> int \<Rightarrow> int \<Rightarrow> 'k clock_world \<Rightarrow> bool" where
  "clock_inv c t0 t w \<longleftrightarrow> program_start w = Some t0 \<and> 0 \<le> t0 \<and> t0 \<le> t \<and> t \<le> fst (c (clk w))"

lemma milliseconds_mono: "0 \<le> d \<Longrightarrow> d \<le> d' \<Longrightarrow> milliseconds d \<le> milliseconds d'"
  by (simp add: milliseconds_def zdiv_mono1)

lemma timestamp_started:
  assumes c: "steady c" and inv: "clock_inv c t0 t w"
  shows "\<exists>w' t'. timestamp_ms c w = (Ok (word_of_int ((t' - t0) div 1000000)), w')
    \<and> clock_inv c t0 t' w' \<and> t \<le> t' \<and> t' < 2 ^ 63"
proof -
  obtain t' k where now: "c (clk w) = (t', k)" by fastforce
  from c have "fst (c (clk w)) < 2 ^ 63" "fst (c (clk w)) \<le> fst (c (snd (c (clk w))))"
    by (simp_all add: steady_def)
  with now inv have b: "t0 \<le> t'" "t \<le> t'" "t' < 2 ^ 63" "t' \<le> fst (c k)" "0 \<le> t0" "program_start w = Some t0"
    by (simp_all add: clock_inv_def)
  then have "timestamp_ms c w = (Ok (word_of_int ((t' - t0) div 1000000)), w\<lparr>clk := k\<rparr>)"
    by (simp add: timestamp_ms_def static_program_start_def clock_now_def now prog_simps milliseconds_def)
  with b show ?thesis by (intro exI [of _ "w\<lparr>clk := k\<rparr>"] exI [of _ t']) (simp add: clock_inv_def)
qed

text \<open>\<open>n\<close> calls in a row.\<close>

primrec timestamps :: "'k steady_clock \<Rightarrow> nat \<Rightarrow> ('k clock_world, 64 word list) prog" where
  "timestamps c 0 = retp []"
| "timestamps c (Suc n) = bindp (timestamp_ms c) (\<lambda>t. bindp (timestamps c n) (\<lambda>ts. retp (t # ts)))"

lemma timestamps_started:
  assumes c: "steady c"
  shows "clock_inv c t0 t w \<Longrightarrow> \<exists>ts w'. timestamps c n w = (Ok ts, w') \<and> length ts = n \<and> sorted ts
    \<and> (\<forall>x\<in>set ts. word_of_int ((t - t0) div 1000000) \<le> x)"
proof (induction n arbitrary: t w)
  case (Suc n)
  from timestamp_started [OF c Suc.prems] obtain w1 t1 where
    t1: "timestamp_ms c w = (Ok (word_of_int ((t1 - t0) div 1000000)), w1)" "clock_inv c t0 t1 w1" "t \<le> t1"
      "t1 < 2 ^ 63"
    by blast
  from Suc.IH [OF t1(2)] obtain ts w' where
    ts: "timestamps c n w1 = (Ok ts, w')" "length ts = n" "sorted ts"
      "\<forall>x\<in>set ts. word_of_int ((t1 - t0) div 1000000) \<le> x"
    by blast
  have b: "0 \<le> (t - t0) div 1000000" "(t - t0) div 1000000 \<le> (t1 - t0) div 1000000"
    "(t1 - t0) div 1000000 < 2 ^ 64"
    using Suc.prems t1(2-4) by (auto simp: clock_inv_def)
  then have le: "(word_of_int ((t - t0) div 1000000) :: 64 word) \<le> word_of_int ((t1 - t0) div 1000000)"
    by (simp add: word_le_def uint_word_of_int take_bit_int_eq_self)
  have "timestamps c (Suc n) w = (Ok (word_of_int ((t1 - t0) div 1000000) # ts), w')"
    using t1(1) ts(1) by (simp add: prog_simps)
  with ts le show ?case by (auto intro: order_trans)
qed (simp add: retp_def)

text \<open>
  However often it is called from the start of a program, on a steady clock: no undefined behaviour,
  and the timestamps never go back.
\<close>

lemma timestamps_monotone:
  assumes c: "steady c"
  shows "\<exists>ts w'. timestamps c n \<lparr>clk = k, program_start = None\<rparr> = (Ok ts, w') \<and> length ts = n \<and> sorted ts"
proof (cases n)
  case (Suc m)
  obtain t0 k1 where now: "c k = (t0, k1)" by fastforce
  from c have "0 \<le> fst (c k)" "fst (c k) \<le> fst (c (snd (c k)))" by (simp_all add: steady_def)
  with now have "clock_inv c t0 t0 \<lparr>clk = k1, program_start = Some t0\<rparr>" by (simp add: clock_inv_def)
  moreover have "timestamp_ms c \<lparr>clk = k, program_start = None\<rparr>
      = timestamp_ms c \<lparr>clk = k1, program_start = Some t0\<rparr>"
    by (simp add: timestamp_ms_def static_program_start_def clock_now_def now prog_simps)
  then have "timestamps c n \<lparr>clk = k, program_start = None\<rparr>
      = timestamps c n \<lparr>clk = k1, program_start = Some t0\<rparr>"
    by (simp add: Suc bindp_def)
  ultimately show ?thesis using timestamps_started [OF c] by metis
qed (simp add: retp_def)

end
