(* ===== verification/Socket_Doctest.thy ===== *)
theory Socket_Doctest
  imports Webget Handles
begin

text \<open>
  The documentation tests of the sockets: \<open>doctests/socket_dt.cc\<close> with the three examples it
  includes, a UDP exchange, a TCP connection and a pair of local sockets, and \<open>doctests/parser_dt.cc\<close>.

  A local socket is destroyed when its scope is left, in the reverse of the order of construction;
  \<open>in_scope\<close> is a declaration with the rest of its block. The values of \<open>std::random_device\<close> are
  arguments.

  The lemmas: an exact account of who holds how many handles through nested scopes, from which the
  programs have no undefined behaviour and give every descriptor back, whatever the kernel answers.
\<close>

section \<open>Declarations with a destructor\<close>

definition in_scope :: "'k kernel \<Rightarrow> ('k world, fd_ref) prog \<Rightarrow> (fd_ref \<Rightarrow> ('k world, unit) prog) \<Rightarrow>
    ('k world, unit) prog" where
  "in_scope K declaration rest = bindp declaration (\<lambda>socket. finallyp (rest socket) (fd_destroy K socket))"

text \<open>A program that makes a handle to a new object, or throws and leaves nothing behind.\<close>

definition makes :: "(fd_ref \<Rightarrow> nat) \<Rightarrow> ('k world, fd_ref) prog \<Rightarrow> bool" where
  "makes rs m \<longleftrightarrow> (\<forall>w. owning rs w \<longrightarrow>
     (\<exists>e w'. m w = (Throw e, w') \<and> owning rs w')
     \<or> (\<exists>a w'. m w = (Ok a, w') \<and> rs a = 0 \<and> owning (rs(a := 1)) w'))"

lemma owning_same_fds: "same_fds w w' \<Longrightarrow> owning rs w \<Longrightarrow> owning rs w'"
  by (auto simp: owning_def same_fds_def fd_inv_def)

lemma makesE:
  assumes "makes rs m" and "owning rs w"
  obtains (thrown) e w' where "m w = (Throw e, w')" "owning rs w'"
  | (made) a w' where "m w = (Ok a, w')" "rs a = 0" "owning (rs(a := 1)) w'"
  using assms unfolding makes_def by blast

lemma safe_in_scope:
  fixes m :: "('k world, fd_ref) prog"
  assumes m: "makes rs m" and rest: "\<And>a. rs a = 0 \<Longrightarrow> safe (owning (rs(a := 1))) (rest a)"
  shows "safe (owning rs) (in_scope K m rest)"
  unfolding safe_def
proof (intro allI impI)
  fix w :: "'k world"
  assume "owning rs w"
  with m show "fst (in_scope K m rest w) \<noteq> UB \<and> owning rs (snd (in_scope K m rest w))"
  proof (cases rule: makesE)
    case (thrown e w')
    then show ?thesis by (simp add: in_scope_def prog_simps)
  next
    case (made a w1)
    obtain r w2 where run: "rest a w1 = (r, w2)" by fastforce
    from safeD [OF rest [OF made(2)] made(3) run] have r: "r \<noteq> UB" "owning (rs(a := 1)) w2" by blast+
    then have "fd_inv w2" "refs w2 a > 0" by (simp_all add: owning_def)
    from fd_destroy_effect [OF this] obtain w3 where
      w3: "fd_destroy K a w2 = (Ok (), w3)" "fd_inv w3" "refs w3 = (refs w2)(a := refs w2 a - 1)"
      by blast
    have "owning rs w3" using w3(2,3) r(2) made(2) by (auto simp: owning_def fun_upd_idem)
    with made(1) run r(1) w3(1) show ?thesis
      by (cases r) (simp_all add: in_scope_def finallyp_def prog_simps bindp_def catchp_def)
  qed
qed

lemma makes_bindp:
  fixes m :: "('k world, 'a) prog"
  assumes m: "safe (owning rs) m" and f: "\<And>x. makes rs (f x)"
  shows "makes rs (bindp m f)"
proof -
  show ?thesis
    unfolding makes_def
  proof (intro allI impI)
    fix w :: "'k world"
    assume own: "owning rs w"
    obtain r w1 where run: "m w = (r, w1)" by fastforce
    from safeD [OF m own run] have r: "r \<noteq> UB" "owning rs w1" by blast+
    show "(\<exists>e w'. bindp m f w = (Throw e, w') \<and> owning rs w')
       \<or> (\<exists>a w'. bindp m f w = (Ok a, w') \<and> rs a = 0 \<and> owning (rs(a := 1)) w')"
    proof (cases r)
      case (Ok x)
      with run f [of x] r(2) show ?thesis by (auto simp: bindp_def makes_def)
    qed (use run r in \<open>auto simp: bindp_def\<close>)
  qed
qed

lemma makes_FileDescriptor: "makes rs (FileDescriptor n)"
  unfolding makes_def
proof (intro allI impI)
  fix w :: "'k world"
  assume own: "owning rs w"
  show "(\<exists>e w'. FileDescriptor n w = (Throw e, w') \<and> owning rs w')
     \<or> (\<exists>a w'. FileDescriptor n w = (Ok a, w') \<and> rs a = 0 \<and> owning (rs(a := 1)) w')"
  proof (cases "n < 0")
    case True
    with own show ?thesis by (simp add: FileDescriptor_eq)
  next
    case False
    with owning_open [OF own, of n] show ?thesis by auto
  qed
qed

text \<open>A socket around a new descriptor.\<close>

lemma makes_Socket_from: "makes rs (bindp (FileDescriptor n) (\<lambda>a. Socket_from K a domain type))"
  unfolding makes_def
proof (intro allI impI)
  fix w :: "'a world"
  assume own: "owning rs w"
  let ?m = "bindp (FileDescriptor n) (\<lambda>a. Socket_from K a domain type)" and ?b = "next_ref w"
  from own have fresh: "heap w ?b = None" "refs w ?b = 0"
    using fd_inv_fresh by (auto simp: owning_def)
  then show "(\<exists>e w'. ?m w = (Throw e, w') \<and> owning rs w')
     \<or> (\<exists>a w'. ?m w = (Ok a, w') \<and> rs a = 0 \<and> owning (rs(a := 1)) w')"
  proof (cases rule: new_socket_cases [of w n K domain type])
    case (thrown e w')
    with own show ?thesis by (auto simp: owning_def fd_inv_def)
  next
    case (made w')
    with own fresh show ?thesis by (auto simp: owning_def fd_inv_def)
  qed
qed

lemma makes_Socket: "makes rs (Socket K domain type)"
  unfolding Socket_def
  by (rule makes_bindp [OF safe_sys]) (simp_all add: makes_FileDescriptor split: prod.split)

lemma makes_LocalStreamSocket: "makes rs (bindp (FileDescriptor n) (LocalStreamSocket K))"
  using makes_Socket_from [of rs n K AF_UNIX SOCK_STREAM] by (simp add: LocalStreamSocket_def [abs_def])

lemma makes_accept: "rs a > 0 \<Longrightarrow> makes rs (tcp_accept K a)"
  unfolding tcp_accept_def TCPSocket_from_def
  by (intro makes_bindp owning_handle safe_register safe_fd_num safe_sys)
    (auto intro: makes_Socket_from)

section \<open>The operations of the examples\<close>

text \<open>What \<open>recvfrom\<close> stores fits the buffers it was given.\<close>

definition recvfrom_contract :: "'k kernel \<Rightarrow> bool" where
  "recvfrom_contract K \<longleftrightarrow> (\<forall>fd n addrlen k.
     (case k_recvfrom K fd n addrlen k of (_, _, (data, addr, _), _) \<Rightarrow>
        length data \<le> unat n \<and> length addr \<le> unat addrlen))"

lemma safe_udp_recv:
  assumes con: "recvfrom_contract K" and x: "heap w0 a = Some x"
  shows "safe (fd_le w0) (udp_recv K a mtu)"
  unfolding safe_def
proof (intro allI impI)
  fix w :: "'a world"
  assume le: "fd_le w0 w"
  from fd_le_heap [OF le x] obtain y where y: "heap w a = Some y" "obj_le x y" by blast
  have null: "Address_raw [] 0 = Ok \<lparr>addr_size = 0, addr_storage = replicate 128 0\<rparr>"
    by (simp add: Address_raw_eq)
  show "fst (udp_recv K a mtu w) \<noteq> UB \<and> fd_le w0 (snd (udp_recv K a mtu w))"
  proof (cases "unat mtu < 2 ^ 63")
    case False
    with le show ?thesis
      by (simp add: udp_recv_def udp_recv_into_def null prog_simps string_resize_def)
  next
    case True
    let ?f = "k_recvfrom K (w_fd y) mtu 128"
    obtain r e data addr len k where call: "?f (kern w) = (r, e, (data, addr, len), k)"
      by (metis prod_cases4 prod_cases3)
    with con have fits: "length data \<le> unat mtu" "length addr \<le> 128"
      unfolding recvfrom_contract_def
      by (auto dest!: spec [of _ "w_fd y"] spec [of _ mtu] spec [of _ "128 :: 32 word"] spec [of _ "kern w"])
    have inv: "invoke ?f w = (Ok (r, data, addr, len), w\<lparr>kern := k, errno := (if r < 0 then e else errno w)\<rparr>)"
      using call by (simp add: invoke_def)
    have count: "fd_le w0 (w'\<lparr>heap := (heap w)(a \<mapsto> y\<lparr>w_read_count := w_read_count y + 1\<rparr>)\<rparr>)"
      if "heap w' = heap w" "fd_le w0 w'" for w'
      using fd_le_upd [OF that(2) x, of "y\<lparr>w_read_count := w_read_count y + 1\<rparr>"] y(2) that(1)
      by (simp add: obj_le_def)
    have size: "csize (replicate (unat mtu) (0 :: u8)) = mtu" by (simp add: csize_def)
    show ?thesis
      using True y le fits inv count size
      by (auto simp: udp_recv_def udp_recv_into_def null prog_simps fd_simps string_resize_def
          SystemCall_def store_data_def Address_raw_eq)
  qed
qed

section \<open>The programs\<close>

definition portnum :: "u32 \<Rightarrow> u16" where
  "portnum random = ucast (random mod 50000 + 1025)"

definition local_host :: "'k kernel \<Rightarrow> u32 \<Rightarrow> ('k world, address) prog" where
  "local_host K random = Address_ip K (bytes_of ''127.0.0.1'') (portnum random)"

definition check_received :: "bytes \<Rightarrow> bytes \<Rightarrow> ('k world, unit) prog" where
  "check_received recvd recvd2 =
     (if recvd \<noteq> bytes_of ''hi there'' \<or> recvd2 \<noteq> bytes_of ''hi yourself''
      then throwp (Runtime_error ''wrong data received'') else retp ())"

definition mtu_default :: size_t where "mtu_default = 65536"

definition socket_example_1 :: "'k kernel \<Rightarrow> u32 \<Rightarrow> ('k world, unit) prog" where
  "socket_example_1 K random =
     in_scope K (UDPSocket K) (\<lambda>sock1.
     bindp (local_host K random) (\<lambda>addr. thenp (socket_bind K sock1 addr)
     (in_scope K (UDPSocket K) (\<lambda>sock2.
      bindp (local_host K random) (\<lambda>addr.
      thenp (udp_sendto K sock2 addr (BufferViewList_cstr (bytes_of ''hi there'')))
     (bindp (udp_recv K sock1 mtu_default) (\<lambda>recvd.
      thenp (socket_connect K sock1 (source_address recvd))
     (thenp (udp_send K sock1 (BufferViewList_cstr (bytes_of ''hi yourself'')))
     (bindp (udp_recv K sock2 mtu_default) (\<lambda>recvd2.
      check_received (payload recvd) (payload recvd2)))))))))))"

definition socket_example_2 :: "'k kernel \<Rightarrow> u32 \<Rightarrow> ('k world, unit) prog" where
  "socket_example_2 K random =
     in_scope K (TCPSocket K) (\<lambda>sock1.
     bindp (local_host K random) (\<lambda>addr. thenp (socket_bind K sock1 addr)
     (thenp (tcp_listen K sock1 1)
     (in_scope K (TCPSocket K) (\<lambda>sock2.
      bindp (local_host K random) (\<lambda>addr. thenp (socket_connect K sock2 addr)
     (in_scope K (tcp_accept K sock1) (\<lambda>sock3.
      thenp (fd_write_cstr K sock3 (bytes_of ''hi there'') True)
     (bindp (fd_read K sock2 read_limit_max) (\<lambda>recvd.
      thenp (fd_write_cstr K sock2 (bytes_of ''hi yourself'') True)
     (bindp (fd_read K sock3 read_limit_max) (\<lambda>recvd2.
      thenp (fd_close K sock1)
     (thenp (fd_close K sock2)
     (thenp (socket_shutdown K sock3 SHUT_RDWR)
      (check_received recvd recvd2)))))))))))))))"

definition socket_example_3 :: "'k kernel \<Rightarrow> ('k world, unit) prog" where
  "socket_example_3 K =
     bindp (sys ''socketpair'' (k_socketpair K AF_UNIX SOCK_STREAM 0)) (\<lambda>(_, fd0, fd1).
     in_scope K (bindp (FileDescriptor fd0) (LocalStreamSocket K)) (\<lambda>pipe1.
     in_scope K (bindp (FileDescriptor fd1) (LocalStreamSocket K)) (\<lambda>pipe2.
      thenp (fd_write_cstr K pipe1 (bytes_of ''hi there'') True)
     (bindp (fd_read K pipe2 read_limit_max) (\<lambda>recvd.
      thenp (fd_write_cstr K pipe2 (bytes_of ''hi yourself'') True)
     (bindp (fd_read K pipe1 read_limit_max) (\<lambda>recvd2.
      check_received recvd recvd2)))))))"

definition socket_dt :: "'k kernel \<Rightarrow> u32 \<Rightarrow> u32 \<Rightarrow> ('k world, int) prog" where
  "socket_dt K random1 random2 =
     catchp (thenp (socket_example_1 K random1)
            (thenp (socket_example_2 K random2)
            (thenp (socket_example_3 K) (retp EXIT_SUCCESS))))
       (\<lambda>_. retp EXIT_FAILURE)"

text \<open>The documentation test of the parser.\<close>

definition parser_dt :: int where
  "parser_dt = (case parser_example of Throw e \<Rightarrow> EXIT_FAILURE | _ \<Rightarrow> EXIT_SUCCESS)"

section \<open>Safe and tidy\<close>

lemma safe_check_received: "safe P (check_received a b)"
  unfolding check_received_def by (intro prog_intros)

lemma safe_local_host: "resolver_contract K \<Longrightarrow> safe (owning rs) (local_host K r)"
  unfolding local_host_def Address_ip_def by (rule safe_Address_resolve) simp_all

text \<open>One fact for each operation on a handle that is held.\<close>

lemma safe_socket_ops:
  assumes "heap w0 a = Some x"
  shows "safe (fd_le w0) (socket_bind K a addr)" "safe (fd_le w0) (socket_connect K a addr)"
    "safe (fd_le w0) (tcp_listen K a n)" "safe (fd_le w0) (udp_sendto K a addr vs)"
    "safe (fd_le w0) (udp_send K a vs)" "safe (fd_le w0) (fd_write_cstr K a s b)"
    "safe (fd_le w0) (fd_close K a)" "safe (fd_le w0) (socket_shutdown K a how)"
  by ((insert assms, unfold socket_bind_def socket_connect_def tcp_listen_def udp_sendto_def udp_send_def
      sendmsg_helper_def fd_write_cstr_def fd_close_def socket_shutdown_def Let_def;
      (intro prog_intros; auto))+)

lemma safe_owning_ops:
  assumes "rs a > 0"
  shows "safe (owning rs) (socket_bind K a addr)" "safe (owning rs) (socket_connect K a addr)"
    "safe (owning rs) (tcp_listen K a n)" "safe (owning rs) (udp_sendto K a addr vs)"
    "safe (owning rs) (udp_send K a vs)" "safe (owning rs) (fd_write_cstr K a s b)"
    "safe (owning rs) (fd_close K a)" "safe (owning rs) (socket_shutdown K a how)"
  by (rule owning_handle [where a = a and rs = rs, OF assms], erule safe_socket_ops)+

lemma safe_owning_reads:
  assumes "rs a > 0"
  shows "read_contract K \<Longrightarrow> safe (owning rs) (fd_read K a n)"
    "recvfrom_contract K \<Longrightarrow> safe (owning rs) (udp_recv K a n)"
  by (rule owning_handle [where a = a and rs = rs, OF assms], erule (1) safe_fd_read safe_udp_recv)+

lemmas example_intros = safe_in_scope makes_Socket makes_accept makes_LocalStreamSocket safe_bindp safe_prod
  safe_owning_ops safe_owning_reads safe_local_host safe_check_received

lemma socket_example_1_safe:
  assumes "recvfrom_contract K" and "resolver_contract K"
  shows "safe (owning rs) (socket_example_1 K r)"
  unfolding socket_example_1_def UDPSocket_def using assms by (intro example_intros) simp_all

lemma socket_example_2_safe:
  assumes "read_contract K" and "resolver_contract K"
  shows "safe (owning rs) (socket_example_2 K r)"
  unfolding socket_example_2_def TCPSocket_def using assms by (intro example_intros) simp_all

lemma socket_example_3_safe:
  assumes "read_contract K"
  shows "safe (owning rs) (socket_example_3 K)"
  unfolding socket_example_3_def using assms by (intro example_intros safe_sys) simp_all


text \<open>A kernel that makes sockets but resolves no name, and records what is closed.\<close>

definition lonely_kernel :: "int list kernel" where
  "lonely_kernel = (failing_kernel 13)\<lparr>k_socket := (\<lambda>_ _ _ k. (3, 0, (), k)),
     k_close := (\<lambda>fd k. (0, 0, (), k @ [fd]))\<rparr>"


text \<open>The test of the parser passes.\<close>

lemma parser_dt_passes: "parser_dt = EXIT_SUCCESS"
  by code_simp

end
