(* ===== verification/Loopback.thy ===== *)
theory Loopback
  imports Socket_Doctest
begin

text \<open>
  The documentation tests of the sockets on a network that works: \<open>doctests/socket_dt.cc\<close> with
  \<open>socket_example_1.cc\<close>, \<open>socket_example_2.cc\<close> and \<open>socket_example_3.cc\<close>.

  The kernel stays a parameter. \<open>view\<close> observes in its state the sockets of the host (\<open>net\<close>: a
  descriptor number to an \<open>endpoint\<close>, with the names, connections and data the calls of the examples
  are about), and \<open>loopback\<close> is the documented behaviour of those calls in the situations in which they
  succeed at once: a datagram sent to a bound local socket with room is delivered, a stream buffers at
  least 64 KiB, a read takes what has arrived. Nothing is assumed of any other situation.

  The lemmas: a total-correctness triple for each operation of a socket (it returns, with this effect
  on the network and on the handles), composed along the text of the examples.
\<close>

section \<open>Total-correctness triples\<close>

definition achieves :: "('s \<Rightarrow> bool) \<Rightarrow> ('s, 'a) prog \<Rightarrow> ('a \<Rightarrow> 's \<Rightarrow> bool) \<Rightarrow> bool" where
  "achieves P m Q \<longleftrightarrow> (\<forall>s. P s \<longrightarrow> (\<exists>x t. m s = (Ok x, t) \<and> Q x t))"

lemma achievesD: "achieves P m Q \<Longrightarrow> P s \<Longrightarrow> \<exists>x t. m s = (Ok x, t) \<and> Q x t"
  by (simp add: achieves_def)

lemma achieves_bindp:
  assumes m: "achieves P m Q" and f: "\<And>x. achieves (Q x) (f x) R"
  shows "achieves P (bindp m f) R"
  unfolding achieves_def
proof (intro allI impI)
  fix s
  assume "P s"
  with m obtain x t where "m s = (Ok x, t)" "Q x t" by (auto simp: achieves_def)
  with f [of x] show "\<exists>y u. bindp m f s = (Ok y, u) \<and> R y u" by (auto simp: achieves_def prog_simps)
qed

lemma achieves_retp: "achieves (Q x) (retp x) Q"
  by (simp add: achieves_def retp_def)

lemma achieves_retp_same: "achieves P (retp x) (\<lambda>_. P)"
  by (simp add: achieves_def retp_def)

lemma achieves_ex: "(\<And>x. achieves (P x) m Q) \<Longrightarrow> achieves (\<lambda>s. \<exists>x. P x s) m Q"
  and achieves_pure: "(\<phi> \<Longrightarrow> achieves P' m Q) \<Longrightarrow> achieves (\<lambda>s. \<phi> \<and> P' s) m Q"
  by (auto simp: achieves_def)

lemma achieves_conseq:
  "achieves P m Q \<Longrightarrow> (\<And>s. P' s \<Longrightarrow> P s) \<Longrightarrow> (\<And>x s. Q x s \<Longrightarrow> Q' x s) \<Longrightarrow> achieves P' m Q'"
  by (fastforce simp: achieves_def)

section \<open>The network\<close>

record endpoint =
  ep_domain :: int
  ep_type :: int
  ep_name :: "bytes option"
  ep_dest :: "bytes option"
  ep_peer :: "int option"
  ep_pending :: "int list option"
  ep_inbox :: bytes
  ep_queue :: "(bytes \<times> bytes) list"

type_synonym net = "int \<Rightarrow> endpoint option"

definition new_end :: "int \<Rightarrow> int \<Rightarrow> endpoint" where
  "new_end domain type = \<lparr>ep_domain = domain, ep_type = type, ep_name = None, ep_dest = None,
     ep_peer = None, ep_pending = None, ep_inbox = [], ep_queue = []\<rparr>"

definition LOCALHOST :: u32 where "LOCALHOST = 0x7f000001"

text \<open>Descriptor numbers: at most 1024 are in use; \<open>n\<close> are left.\<close>

definition usable :: "net \<Rightarrow> int \<Rightarrow> bool" where
  "usable v fd \<longleftrightarrow> 0 \<le> fd \<and> fd < 1024 \<and> v fd = None"

definition spare :: "nat \<Rightarrow> net \<Rightarrow> bool" where
  "spare n v \<longleftrightarrow> n \<le> card {fd. usable v fd}"

text \<open>No socket of the type has the name, or none but \<open>fd\<close>.\<close>

definition unused_name :: "net \<Rightarrow> int \<Rightarrow> bytes \<Rightarrow> bool" where
  "unused_name v type a \<longleftrightarrow> (\<forall>g y. v g = Some y \<and> ep_type y = type \<longrightarrow> ep_name y \<noteq> Some a)"

definition owns_name :: "net \<Rightarrow> int \<Rightarrow> int \<Rightarrow> bytes \<Rightarrow> bool" where
  "owns_name v fd type a \<longleftrightarrow> (\<forall>g y. v g = Some y \<and> ep_type y = type \<longrightarrow> (ep_name y = Some a) = (g = fd))"

text \<open>The call succeeds with this result and leaves the network like that.\<close>

definition answers :: "('k \<Rightarrow> net) \<Rightarrow> ('k, 'a) sys \<Rightarrow> 'k \<Rightarrow> int \<Rightarrow> 'a \<Rightarrow> net \<Rightarrow> bool" where
  "answers view f k r x v \<longleftrightarrow> (\<exists>e k'. f k = (r, e, x, k') \<and> view k' = v)"

definition loopback_sockets :: "'k kernel \<Rightarrow> ('k \<Rightarrow> net) \<Rightarrow> bool" where
  "loopback_sockets K view \<longleftrightarrow>
    (\<forall>k type. spare 1 (view k) \<and> type \<in> {SOCK_STREAM, SOCK_DGRAM} \<longrightarrow>
       (\<exists>fd. usable (view k) fd
         \<and> answers view (k_socket K (uint AF_INET) type 0) k fd () ((view k)(fd \<mapsto> new_end (uint AF_INET) type))))
  \<and> (\<forall>k. spare 2 (view k) \<longrightarrow>
       (\<exists>a b. usable (view k) a \<and> usable (view k) b \<and> a \<noteq> b
         \<and> answers view (k_socketpair K AF_UNIX SOCK_STREAM 0) k 0 (a, b)
             ((view k)(a \<mapsto> (new_end AF_UNIX SOCK_STREAM)\<lparr>ep_peer := Some b\<rparr>,
                       b \<mapsto> (new_end AF_UNIX SOCK_STREAM)\<lparr>ep_peer := Some a\<rparr>))))
  \<and> (\<forall>k fd x. view k fd = Some x \<longrightarrow>
       answers view (k_getsockopt K fd SOL_SOCKET SO_DOMAIN) k 0 (ep_domain x, 4) (view k)
     \<and> answers view (k_getsockopt K fd SOL_SOCKET SO_TYPE) k 0 (ep_type x, 4) (view k)
     \<and> answers view (k_close K fd) k 0 () ((view k)(fd := None)))"

definition loopback_names :: "'k kernel \<Rightarrow> ('k \<Rightarrow> net) \<Rightarrow> bool" where
  "loopback_names K view \<longleftrightarrow>
    (\<forall>k port. answers view (k_getaddrinfo K (bytes_of ''127.0.0.1'') (bytes_of (int_to_string (uint port)))
       (make_hints (0x4 OR 0x400) 2)) k 0 (Some (sockaddr_in port LOCALHOST, 16)) (view k))
  \<and> (\<forall>k fd x addr len port. view k fd = Some x \<and> ep_name x = None \<and> unat len \<le> length addr
       \<and> take (unat len) addr = sockaddr_in port LOCALHOST \<and> port > 1024
       \<and> unused_name (view k) (ep_type x) (sockaddr_in port LOCALHOST) \<longrightarrow>
       answers view (k_bind K fd addr len) k 0 ()
         ((view k)(fd \<mapsto> x\<lparr>ep_name := Some (sockaddr_in port LOCALHOST)\<rparr>)))"

text \<open>Datagrams. A socket without a name is given an unused one when it sends.\<close>

definition sends_to :: "endpoint \<Rightarrow> bytes option \<Rightarrow> u32 \<Rightarrow> bytes \<Rightarrow> bool" where
  "sends_to x dest len a \<longleftrightarrow> (case dest of None \<Rightarrow> ep_dest x = Some a | Some b \<Rightarrow> take (unat len) b = a)"

definition loopback_datagrams :: "'k kernel \<Rightarrow> ('k \<Rightarrow> net) \<Rightarrow> bool" where
  "loopback_datagrams K view \<longleftrightarrow>
    (\<forall>k fd x addr len. view k fd = Some x \<and> ep_type x = SOCK_DGRAM \<and> unat len \<le> length addr \<longrightarrow>
       answers view (k_connect K fd addr len) k 0 () ((view k)(fd \<mapsto> x\<lparr>ep_dest := Some (take (unat len) addr)\<rparr>)))
  \<and> (\<forall>k fd x g y dest len iov data a. data = concat (map iov_base iov) \<and> length data \<le> 65507
       \<and> view k fd = Some x \<and> ep_type x = SOCK_DGRAM \<and> sends_to x dest len a
       \<and> view k g = Some y \<and> ep_type y = SOCK_DGRAM \<and> g \<noteq> fd \<and> ep_name y = Some a
       \<and> owns_name (view k) g SOCK_DGRAM a \<and> ep_dest y = None \<and> ep_queue y = [] \<longrightarrow>
       (\<exists>s. (case ep_name x of Some s' \<Rightarrow> s = s' | None \<Rightarrow> length s \<le> 128 \<and> unused_name (view k) SOCK_DGRAM s)
         \<and> answers view (k_sendmsg K fd dest len iov) k (int (length data)) ()
             ((view k)(fd \<mapsto> x\<lparr>ep_name := Some s\<rparr>, g \<mapsto> y\<lparr>ep_queue := [(data, s)]\<rparr>))))
  \<and> (\<forall>k fd x data s rest n. view k fd = Some x \<and> ep_queue x = (data, s) # rest
       \<and> length data \<le> unat n \<and> length s \<le> 128 \<longrightarrow>
       answers view (k_recvfrom K fd n 128) k (int (length data)) (data, s, word_of_nat (length s))
         ((view k)(fd \<mapsto> x\<lparr>ep_queue := rest\<rparr>)))"

text \<open>Streams.\<close>

definition loopback_streams :: "'k kernel \<Rightarrow> ('k \<Rightarrow> net) \<Rightarrow> bool" where
  "loopback_streams K view \<longleftrightarrow>
    (\<forall>k fd x n. view k fd = Some x \<and> ep_type x = SOCK_STREAM \<and> ep_name x \<noteq> None \<and> n > 0 \<longrightarrow>
       answers view (k_listen K fd n) k 0 () ((view k)(fd \<mapsto> x\<lparr>ep_pending := Some []\<rparr>)))
  \<and> (\<forall>k fd x g y addr len. view k fd = Some x \<and> ep_type x = SOCK_STREAM \<and> ep_peer x = None
       \<and> ep_pending x = None \<and> view k g = Some y \<and> g \<noteq> fd \<and> ep_type y = SOCK_STREAM
       \<and> ep_pending y = Some [] \<and> unat len \<le> length addr
       \<and> ep_name y = Some (take (unat len) addr) \<and> owns_name (view k) g SOCK_STREAM (take (unat len) addr) \<longrightarrow>
       (\<exists>s. answers view (k_connect K fd addr len) k 0 ()
         ((view k)(fd \<mapsto> x\<lparr>ep_name := Some s\<rparr>, g \<mapsto> y\<lparr>ep_pending := Some [fd]\<rparr>))))
  \<and> (\<forall>k fd x c cs y. spare 1 (view k) \<and> view k fd = Some x \<and> ep_type x = SOCK_STREAM
       \<and> ep_pending x = Some (c # cs) \<and> view k c = Some y \<and> c \<noteq> fd \<longrightarrow>
       (\<exists>n. usable (view k) n \<and> answers view (k_accept K fd) k n ()
         ((view k)(fd \<mapsto> x\<lparr>ep_pending := Some cs\<rparr>, c \<mapsto> y\<lparr>ep_peer := Some n\<rparr>,
           n \<mapsto> (new_end (ep_domain x) SOCK_STREAM)\<lparr>ep_name := ep_name x, ep_peer := Some c\<rparr>))))
  \<and> (\<forall>k fd x g y iov data. data = concat (map iov_base iov) \<and> data \<noteq> [] \<and> view k fd = Some x
       \<and> ep_peer x = Some g \<and> g \<noteq> fd \<and> view k g = Some y \<and> length (ep_inbox y) + length data \<le> 65536 \<longrightarrow>
       answers view (k_writev K fd iov) k (int (length data)) ()
         ((view k)(g \<mapsto> y\<lparr>ep_inbox := ep_inbox y @ data\<rparr>)))
  \<and> (\<forall>k fd x n. view k fd = Some x \<and> ep_peer x \<noteq> None \<and> ep_inbox x \<noteq> [] \<and> n > 0 \<longrightarrow>
       answers view (k_read K fd n) k (int (min (unat n) (length (ep_inbox x)))) (take (unat n) (ep_inbox x))
         ((view k)(fd \<mapsto> x\<lparr>ep_inbox := drop (unat n) (ep_inbox x)\<rparr>)))
  \<and> (\<forall>k fd x. view k fd = Some x \<and> ep_type x = SOCK_STREAM \<and> ep_peer x \<noteq> None \<longrightarrow>
       answers view (k_shutdown K fd SHUT_RDWR) k 0 () ((view k)(fd \<mapsto> x\<lparr>ep_peer := None\<rparr>)))"

definition loopback :: "'k kernel \<Rightarrow> ('k \<Rightarrow> net) \<Rightarrow> bool" where
  "loopback K view \<longleftrightarrow> read_contract K \<and> loopback_sockets K view \<and> loopback_names K view
     \<and> loopback_datagrams K view \<and> loopback_streams K view"

lemma spare_mono: "spare n v \<Longrightarrow> m \<le> n \<Longrightarrow> spare m v"
  by (simp add: spare_def)

lemma finite_usable: "finite {fd. usable v fd}"
  by (rule finite_subset [of _ "{0..<1024}"]) (auto simp: usable_def)

lemma spare_update:
  assumes "spare (Suc n) v"
  shows "spare n (v(fd \<mapsto> x))"
proof -
  have "{g. usable v g} - {fd} \<subseteq> {g. usable (v(fd \<mapsto> x)) g}" by (auto simp: usable_def)
  then have "card ({g. usable v g} - {fd}) \<le> card {g. usable (v(fd \<mapsto> x)) g}"
    by (rule card_mono [OF finite_usable])
  moreover have "card {g. usable v g} - 1 \<le> card ({g. usable v g} - {fd})"
    by (simp add: card_Diff_singleton_if)
  ultimately show ?thesis using assms by (simp add: spare_def)
qed

text \<open>Changing a socket that is there needs no new number.\<close>

lemma spare_same:
  assumes "v fd \<noteq> None"
  shows "spare n (v(fd \<mapsto> x)) = spare n v"
proof -
  have "usable (v(fd \<mapsto> x)) = usable v" using assms by (auto simp: usable_def fun_eq_iff)
  then show ?thesis by (simp add: spare_def)
qed

section \<open>The state of a program that uses the network\<close>

text \<open>
  \<open>st view V H log\<close>: the network is \<open>V\<close>, what was printed on \<open>cerr\<close> is \<open>log\<close>, and \<open>H\<close> are handles that
  are the only ones to their objects, with the descriptor number and whether it was closed.
\<close>

type_synonym handles = "fd_ref \<Rightarrow> (int \<times> bool) option"

definition st :: "('k \<Rightarrow> net) \<Rightarrow> net \<Rightarrow> handles \<Rightarrow> (string \<times> exn option) list \<Rightarrow> 'k world \<Rightarrow> bool" where
  "st view V H log w \<longleftrightarrow> fd_inv w \<and> view (kern w) = V \<and> cerr w = log
     \<and> (\<forall>a. H a \<noteq> None \<longrightarrow> refs w a = 1 \<and> map_option (\<lambda>obj. (w_fd obj, w_closed obj)) (heap w a) = H a)"

lemma st_handle:
  assumes "st view V H log w" and "H a = Some (fd, c)"
  obtains obj where "heap w a = Some obj" "w_fd obj = fd" "w_closed obj = c" "refs w a = 1"
proof -
  from assms have "map_option (\<lambda>obj. (w_fd obj, w_closed obj)) (heap w a) = Some (fd, c)" "refs w a = 1"
    unfolding st_def by (metis option.distinct(1))+
  with that show thesis by (auto simp: map_option_eq_Some)
qed

lemma st_view: "st view V H log w \<Longrightarrow> view (kern w) = V"
  by (simp add: st_def)

lemma st_kern: "st view V H log w \<Longrightarrow> view k = V' \<Longrightarrow> st view V' H log (w\<lparr>kern := k\<rparr>)"
  by (simp add: st_def fd_inv_def)

lemma st_errno [simp]: "st view V H log (w\<lparr>errno := e\<rparr>) = st view V H log w"
  by (simp add: st_def fd_inv_def)

lemma st_obj:
  assumes st: "st view V H log w" and obj: "heap w a = Some obj" "obj_le obj obj'" "w_closed obj' = w_closed obj"
  shows "st view V H log (w\<lparr>heap := (heap w)(a \<mapsto> obj')\<rparr>)"
proof -
  have "fd_le w (w\<lparr>heap := (heap w)(a \<mapsto> obj')\<rparr>)" using obj(1,2) by (simp add: fd_le_upd)
  with st have "fd_inv (w\<lparr>heap := (heap w)(a \<mapsto> obj')\<rparr>)" unfolding st_def by (blast intro: fd_inv_le)
  with st obj show ?thesis unfolding st_def
    by (simp add: obj_le_def) (metis (no_types, lifting) option.simps(9))
qed

lemma st_weaken: "st view V H log w \<Longrightarrow> (\<And>a z. H' a = Some z \<Longrightarrow> H a = Some z) \<Longrightarrow> st view V H' log w"
  unfolding st_def by (metis not_None_eq)

text \<open>One call of the kernel that is answered.\<close>

lemma st_sys:
  assumes st: "st view V H log w" and ans: "answers view f (kern w) r x V'" and r: "0 \<le> r" "r < 2 ^ 31"
  obtains k where "\<And>attempt. sys attempt f w = (Ok (r, x), w\<lparr>kern := k\<rparr>)" "st view V' H log (w\<lparr>kern := k\<rparr>)"
    "\<exists>e. f (kern w) = (r, e, x, k)"
proof -
  from ans obtain e k where call: "f (kern w) = (r, e, x, k)" "view k = V'" by (auto simp: answers_def)
  have "sys attempt f w = (Ok (r, x), w\<lparr>kern := k\<rparr>)" for attempt
    using r by (intro sys_Ok [where f = f and w = w, OF call(1)])
  with st_kern [OF st call(2)] call(1) show thesis by (intro that [of k]) blast+
qed

lemma achieves_stI:
  "(\<And>w. st view V H log w \<Longrightarrow> view (kern w) = V \<Longrightarrow> \<exists>x t. m w = (Ok x, t) \<and> Q x t) \<Longrightarrow>
    achieves (st view V H log) m Q"
  unfolding achieves_def using st_view by blast

section \<open>Operations\<close>

lemma st_FileDescriptor:
  assumes "0 \<le> n"
  shows "achieves (st view V H log) (FileDescriptor n) (\<lambda>a w. H a = None \<and> st view V (H(a \<mapsto> (n, False))) log w)"
proof (rule achieves_stI)
  fix w :: "'a world"
  assume st: "st view V H log w"
  let ?a = "next_ref w"
  have inv: "fd_inv w" using st by (simp add: st_def)
  have "H ?a = None"
  proof (rule ccontr)
    assume "H ?a \<noteq> None"
    then obtain fd c where "H ?a = Some (fd, c)" by auto
    from st_handle [OF st this] fd_inv_fresh [OF inv] show False by auto
  qed
  moreover obtain r w' where run: "FileDescriptor n w = (r, w')" by fastforce
  moreover have "fd_inv w'" using fd_inv_open [OF inv run] by blast
  ultimately show "\<exists>a t. FileDescriptor n w = (Ok a, t) \<and> H a = None \<and> st view V (H(a \<mapsto> (n, False))) log t"
    using assms st by (auto simp: FileDescriptor_eq st_def)
qed

lemma st_register:
  assumes "H a = Some (fd, c)"
  shows "achieves (st view V H log) (register_read a) (\<lambda>_. st view V H log)"
    and "achieves (st view V H log) (register_write a) (\<lambda>_. st view V H log)"
proof -
  show "achieves (st view V H log) (register_read a) (\<lambda>_. st view V H log)"
  proof (rule achieves_stI)
    fix w :: "'a world"
    assume st: "st view V H log w"
    from st_handle [OF st assms] obtain obj where "heap w a = Some obj" by blast
    with st_obj [OF st this, of "obj\<lparr>w_read_count := w_read_count obj + 1\<rparr>"]
    show "\<exists>x t. register_read a w = (Ok x, t) \<and> st view V H log t"
      by (simp add: fd_simps obj_le_def)
  qed
  show "achieves (st view V H log) (register_write a) (\<lambda>_. st view V H log)"
  proof (rule achieves_stI)
    fix w :: "'a world"
    assume st: "st view V H log w"
    from st_handle [OF st assms] obtain obj where "heap w a = Some obj" by blast
    with st_obj [OF st this, of "obj\<lparr>w_write_count := w_write_count obj + 1\<rparr>"]
    show "\<exists>x t. register_write a w = (Ok x, t) \<and> st view V H log t"
      by (simp add: fd_simps obj_le_def)
  qed
qed

lemma st_fd_num:
  assumes "H a = Some (fd, c)"
  shows "achieves (st view V H log) (fd_num a) (\<lambda>n w. n = fd \<and> st view V H log w)"
proof (rule achieves_stI)
  fix w :: "'a world"
  assume st: "st view V H log w"
  from st_handle [OF st assms] obtain obj where "heap w a = Some obj" "w_fd obj = fd" by blast
  with st show "\<exists>x t. fd_num a w = (Ok x, t) \<and> x = fd \<and> st view V H log t" by (simp add: fd_simps)
qed

lemma st_call:
  assumes "\<And>k. view k = V \<Longrightarrow> \<exists>r x V'. answers view f k r x V' \<and> 0 \<le> r \<and> r < 2 ^ 31 \<and> P r x V'"
  shows "achieves (st view V H log) (sys attempt f) (\<lambda>(r, x) w. \<exists>V'. P r x V' \<and> st view V' H log w)"
proof (rule achieves_stI)
  fix w :: "'a world"
  assume st: "st view V H log w" and "view (kern w) = V"
  from assms [OF this(2)] obtain r x V' where
    ans: "answers view f (kern w) r x V'" "0 \<le> r" "r < 2 ^ 31" "P r x V'" by blast
  from st_sys [OF st ans(1-3)] ans(4)
  show "\<exists>y t. sys attempt f w = (Ok y, t) \<and> (case y of (r, x) \<Rightarrow> \<lambda>w. \<exists>V'. P r x V' \<and> st view V' H log w) t"
    by (metis (mono_tags, lifting) prod.case)
qed

text \<open>A call on the descriptor of a handle, with one possible answer, whose result is not used.\<close>

lemma st_call_on:
  assumes "H a = Some (fd, c)" and "\<And>k. view k = V \<Longrightarrow> answers view (f fd) k r x V'" and "0 \<le> r" "r < 2 ^ 31"
    and "achieves (st view V' H log) (g (r, x)) Q"
  shows "achieves (st view V H log) (bindp (fd_num a) (\<lambda>fd. bindp (sys attempt (f fd)) g)) Q"
proof (rule achieves_bindp [OF st_fd_num [where view = view and V = V and log = log and H = H and a = a, OF assms(1)]],
    rule achieves_pure, simp only:)
  show "achieves (st view V H log) (bindp (sys attempt (f fd)) g) Q"
  proof (rule achieves_stI)
    fix w :: "'a world"
    assume st: "st view V H log w" and "view (kern w) = V"
    from st_sys [OF st assms(2) [OF this(2)] assms(3,4)] obtain k where
      "sys attempt (f fd) w = (Ok (r, x), w\<lparr>kern := k\<rparr>)" "st view V' H log (w\<lparr>kern := k\<rparr>)" by metis
    with achievesD [OF assms(5)] show "\<exists>y t. bindp (sys attempt (f fd)) g w = (Ok y, t) \<and> Q y t"
      by (simp add: prog_simps)
  qed
qed

lemma usable_range: "usable v fd \<Longrightarrow> 0 \<le> fd \<and> fd < 2 ^ 31 \<and> v fd = None"
  by (simp add: usable_def)

lemma loopbackD:
  assumes "loopback K view"
  shows "read_contract K" "loopback_sockets K view" "loopback_names K view" "loopback_datagrams K view"
    "loopback_streams K view"
  using assms by (simp_all add: loopback_def)

lemma st_Socket:
  assumes "loopback K view" and "spare 1 V" and "type \<in> {SOCK_STREAM, SOCK_DGRAM}"
  shows "achieves (st view V H log) (Socket K (uint AF_INET) type) (\<lambda>a w. \<exists>fd. usable V fd \<and> H a = None
    \<and> st view (V(fd \<mapsto> new_end (uint AF_INET) type)) (H(a \<mapsto> (fd, False))) log w)"
proof (rule achieves_stI)
  fix w :: "'a world"
  assume st: "st view V H log w" and view: "view (kern w) = V"
  from loopbackD(2) [OF assms(1)] assms(2,3) view obtain fd where fd: "usable V fd"
    and ans: "answers view (k_socket K (uint AF_INET) type 0) (kern w) fd ()
      (V(fd \<mapsto> new_end (uint AF_INET) type))"
    unfolding loopback_sockets_def by blast
  note range = usable_range [OF fd]
  from st_sys [OF st ans] range obtain k where
    k: "sys ''socket'' (k_socket K (uint AF_INET) type 0) w = (Ok (fd, ()), w\<lparr>kern := k\<rparr>)"
      "st view (V(fd \<mapsto> new_end (uint AF_INET) type)) H log (w\<lparr>kern := k\<rparr>)" by metis
  from achievesD [OF st_FileDescriptor k(2), of fd] range obtain a t where
    "FileDescriptor fd (w\<lparr>kern := k\<rparr>) = (Ok a, t)" "H a = None"
    "st view (V(fd \<mapsto> new_end (uint AF_INET) type)) (H(a \<mapsto> (fd, False))) log t" by blast
  with k(1) fd show "\<exists>a t. Socket K (uint AF_INET) type w = (Ok a, t) \<and> (\<exists>fd. usable V fd \<and> H a = None
      \<and> st view (V(fd \<mapsto> new_end (uint AF_INET) type)) (H(a \<mapsto> (fd, False))) log t)"
    by (auto simp: Socket_def prog_simps)
qed

lemma st_Socket_from:
  assumes L: "loopback K view" and "H a = Some (fd, c)" and x: "V fd = Some x"
  shows "achieves (st view V H log) (Socket_from K a (ep_domain x) (ep_type x)) (\<lambda>b w. b = a \<and> st view V H log w)"
proof (rule achieves_stI)
  fix w :: "'a world"
  assume st: "st view V H log w" and view: "view (kern w) = V"
  have opt: "answers view (k_getsockopt K fd SOL_SOCKET SO_DOMAIN) k 0 (ep_domain x, 4) (view k)"
    "answers view (k_getsockopt K fd SOL_SOCKET SO_TYPE) k 0 (ep_type x, 4) (view k)" if "view k = V" for k
    using loopbackD(2) [OF L] x that unfolding loopback_sockets_def by blast+
  from st_handle [OF st assms(2)] obtain obj where obj: "heap w a = Some obj" "w_fd obj = fd" by blast
  from st_sys [OF st opt(1) [OF view, unfolded view]] obtain k where
    k: "sys ''getsockopt'' (k_getsockopt K fd SOL_SOCKET SO_DOMAIN) w = (Ok (0, ep_domain x, 4), w\<lparr>kern := k\<rparr>)"
      "st view V H log (w\<lparr>kern := k\<rparr>)" by force
  have k': "view (kern (w\<lparr>kern := k\<rparr>)) = V" using st_view [OF k(2)] .
  from st_sys [OF k(2) opt(2) [OF k', unfolded k']] obtain l where
    l: "sys ''getsockopt'' (k_getsockopt K fd SOL_SOCKET SO_TYPE) (w\<lparr>kern := k\<rparr>)
        = (Ok (0, ep_type x, 4), w\<lparr>kern := l\<rparr>)"
      "st view V H log (w\<lparr>kern := l\<rparr>)" by force
  with obj k show "\<exists>b t. Socket_from K a (ep_domain x) (ep_type x) w = (Ok b, t) \<and> b = a \<and> st view V H log t"
    by (simp add: Socket_from_def constructing_def socket_verify_def prog_simps fd_simps)
qed

definition loop_address :: "u16 \<Rightarrow> address" where
  "loop_address port = \<lparr>addr_size = 16, addr_storage = sockaddr_in port LOCALHOST @ replicate 112 0\<rparr>"

lemma st_local_host:
  assumes L: "loopback K view"
  shows "achieves (st view V H log) (local_host K random) (\<lambda>x w. x = loop_address (portnum random) \<and> st view V H log w)"
proof (rule achieves_stI)
  fix w :: "'a world"
  assume st: "st view V H log w" and view: "view (kern w) = V"
  let ?port = "portnum random"
  let ?service = "bytes_of (int_to_string (uint ?port))"
  let ?f = "k_getaddrinfo K (bytes_of ''127.0.0.1'') ?service (make_hints (0x4 OR 0x400) 2)"
  have "answers view ?f (kern w) 0 (Some (sockaddr_in ?port LOCALHOST, 16)) V"
    using loopbackD(3) [OF L] view unfolding loopback_names_def by blast
  then obtain e k where call: "?f (kern w) = (0, e, Some (sockaddr_in ?port LOCALHOST, 16), k)" "view k = V"
    by (auto simp: answers_def)
  have "c_str (bytes_of ''127.0.0.1'') = bytes_of ''127.0.0.1''" by code_simp
  moreover have "c_str ?service = ?service"
    by (rule c_str_id) (simp add: int_to_string_def dec_no_zero)
  moreover note invoke_ok [of ?f w, OF call(1)]
  ultimately have "local_host K random w = (Ok (loop_address ?port), w\<lparr>kern := k\<rparr>)"
    by (simp add: local_host_def Address_ip_def Address_resolve_def prog_simps Address_raw_sockaddr_in
        loop_address_def)
  with st_kern [OF st call(2)] show
    "\<exists>x t. local_host K random w = (Ok x, t) \<and> x = loop_address ?port \<and> st view V H log t" by simp
qed

lemma loop_address_bytes [simp]:
  "take (unat (addr_size (loop_address port))) (addr_storage (loop_address port)) = sockaddr_in port LOCALHOST"
  by (simp add: loop_address_def)

lemma portnum_range: "portnum random > 1024"
proof -
  have small: "unat random mod 50000 < 50000" by simp
  then have "unat random mod 50000 + 1025 < 4294967296" "unat random mod 50000 + 1025 < 65536" by linarith+
  then have "unat (portnum random) = unat random mod 50000 + 1025"
    by (simp add: portnum_def unat_word_ariths unsigned_ucast_eq take_bit_nat_eq_self)
  then show ?thesis by (simp add: word_less_nat_alt)
qed

text \<open>A member function that makes one call on its descriptor and returns nothing.\<close>

lemma st_simple_call:
  assumes "H a = Some (fd, c)" and "\<And>k. view k = V \<Longrightarrow> answers view (f fd) k 0 x V'"
  shows "achieves (st view V H log) (bindp (fd_num a) (\<lambda>fd. bindp (sys attempt (f fd)) (\<lambda>_. retp ())))
    (\<lambda>_. st view V' H log)"
  by (rule st_call_on [where H = H and a = a and f = f and fd = fd, OF assms])
    (simp_all add: achieves_def retp_def)

lemma st_bind:
  assumes L: "loopback K view" and H: "H a = Some (fd, c)" and x: "V fd = Some x" "ep_name x = None"
    and port: "port > 1024" "unused_name V (ep_type x) (sockaddr_in port LOCALHOST)"
  shows "achieves (st view V H log) (socket_bind K a (loop_address port))
    (\<lambda>_. st view (V(fd \<mapsto> x\<lparr>ep_name := Some (sockaddr_in port LOCALHOST)\<rparr>)) H log)"
proof -
  let ?addr = "loop_address port"
  have "answers view (k_bind K fd (addr_storage ?addr) (addr_size ?addr)) k 0 ()
      (V(fd \<mapsto> x\<lparr>ep_name := Some (sockaddr_in port LOCALHOST)\<rparr>))" if "view k = V" for k
  proof -
    have "unat (addr_size ?addr) \<le> length (addr_storage ?addr)" by (simp add: loop_address_def)
    with loopbackD(3) [OF L] x port that loop_address_bytes [of port] show ?thesis
      unfolding loopback_names_def by metis
  qed
  then show ?thesis
    unfolding socket_bind_def
    by (intro st_simple_call [where f = "\<lambda>fd. k_bind K fd (addr_storage ?addr) (addr_size ?addr)" and H = H
          and a = a and fd = fd, OF H])
qed

lemma st_udp_connect:
  assumes L: "loopback K view" and H: "H a = Some (fd, c)" and x: "V fd = Some x" "ep_type x = SOCK_DGRAM"
    and addr: "address_ok addr"
  shows "achieves (st view V H log) (socket_connect K a addr)
    (\<lambda>_. st view (V(fd \<mapsto> x\<lparr>ep_dest := Some (address_bytes addr)\<rparr>)) H log)"
proof -
  have "unat (addr_size addr) \<le> length (addr_storage addr)" using addr by (simp add: address_ok_def)
  then have "answers view (k_connect K fd (addr_storage addr) (addr_size addr)) k 0 ()
      (V(fd \<mapsto> x\<lparr>ep_dest := Some (address_bytes addr)\<rparr>))" if "view k = V" for k
    using loopbackD(4) [OF L] x that unfolding loopback_datagrams_def address_bytes_def by metis
  then show ?thesis
    unfolding socket_connect_def
    by (intro st_simple_call [where f = "\<lambda>fd. k_connect K fd (addr_storage addr) (addr_size addr)" and H = H
          and a = a and fd = fd, OF H])
qed

lemma st_listen:
  assumes L: "loopback K view" and H: "H a = Some (fd, c)"
    and x: "V fd = Some x" "ep_type x = SOCK_STREAM" "ep_name x \<noteq> None" and n: "n > 0"
  shows "achieves (st view V H log) (tcp_listen K a n) (\<lambda>_. st view (V(fd \<mapsto> x\<lparr>ep_pending := Some []\<rparr>)) H log)"
proof -
  have "answers view (k_listen K fd n) k 0 () (V(fd \<mapsto> x\<lparr>ep_pending := Some []\<rparr>))" if "view k = V" for k
    using loopbackD(5) [OF L] x n that unfolding loopback_streams_def by metis
  then show ?thesis
    unfolding tcp_listen_def
    by (intro st_simple_call [where f = "\<lambda>fd. k_listen K fd n" and H = H and a = a and fd = fd, OF H])
qed

lemma st_tcp_connect:
  assumes L: "loopback K view" and H: "H a = Some (fd, c)"
    and x: "V fd = Some x" "ep_type x = SOCK_STREAM" "ep_peer x = None" "ep_pending x = None"
    and y: "V g = Some y" "g \<noteq> fd" "ep_pending y = Some []" "ep_name y = Some (sockaddr_in port LOCALHOST)"
      "owns_name V g SOCK_STREAM (sockaddr_in port LOCALHOST)" "ep_type y = SOCK_STREAM"
  shows "achieves (st view V H log) (socket_connect K a (loop_address port))
    (\<lambda>_ w. \<exists>s. st view (V(fd \<mapsto> x\<lparr>ep_name := Some s\<rparr>, g \<mapsto> y\<lparr>ep_pending := Some [fd]\<rparr>)) H log w)"
proof (rule achieves_stI)
  let ?addr = "loop_address port"
  fix w :: "'a world"
  assume st: "st view V H log w" and view: "view (kern w) = V"
  have "unat (addr_size ?addr) \<le> length (addr_storage ?addr)" by (simp add: loop_address_def)
  then obtain s where ans: "answers view (k_connect K fd (addr_storage ?addr) (addr_size ?addr)) (kern w) 0 ()
      (V(fd \<mapsto> x\<lparr>ep_name := Some s\<rparr>, g \<mapsto> y\<lparr>ep_pending := Some [fd]\<rparr>))"
    using loopbackD(5) [OF L] x y view loop_address_bytes [of port] unfolding loopback_streams_def by metis
  from st_handle [OF st H] obtain obj where "heap w a = Some obj" "w_fd obj = fd" by blast
  moreover from st_sys [OF st ans] obtain k where
    "sys ''connect'' (k_connect K fd (addr_storage ?addr) (addr_size ?addr)) w = (Ok (0, ()), w\<lparr>kern := k\<rparr>)"
    "st view (V(fd \<mapsto> x\<lparr>ep_name := Some s\<rparr>, g \<mapsto> y\<lparr>ep_pending := Some [fd]\<rparr>)) H log (w\<lparr>kern := k\<rparr>)"
    by force
  ultimately show "\<exists>u t. socket_connect K a ?addr w = (Ok u, t) \<and> (\<exists>s. st view
      (V(fd \<mapsto> x\<lparr>ep_name := Some s\<rparr>, g \<mapsto> y\<lparr>ep_pending := Some [fd]\<rparr>)) H log t)"
    by (auto simp: socket_connect_def prog_simps fd_simps)
qed

lemma st_accept:
  assumes L: "loopback K view" and H: "H a = Some (fd, c)" and "spare 1 V"
    and x: "V fd = Some x" "ep_type x = SOCK_STREAM" "ep_domain x = uint AF_INET" "ep_pending x = Some (d # ds)"
    and y: "V d = Some y" "d \<noteq> fd"
  shows "achieves (st view V H log) (tcp_accept K a) (\<lambda>b w. \<exists>n. usable V n \<and> H b = None \<and> st view
    (V(fd \<mapsto> x\<lparr>ep_pending := Some ds\<rparr>, d \<mapsto> y\<lparr>ep_peer := Some n\<rparr>,
       n \<mapsto> (new_end (uint AF_INET) SOCK_STREAM)\<lparr>ep_name := ep_name x, ep_peer := Some d\<rparr>)) (H(b \<mapsto> (n, False))) log w)"
  unfolding tcp_accept_def
proof (rule achieves_bindp [OF st_register(1) [where H = H and a = a, OF H]], rule achieves_stI)
  let ?V = "\<lambda>n. V(fd \<mapsto> x\<lparr>ep_pending := Some ds\<rparr>, d \<mapsto> y\<lparr>ep_peer := Some n\<rparr>,
       n \<mapsto> (new_end (uint AF_INET) SOCK_STREAM)\<lparr>ep_name := ep_name x, ep_peer := Some d\<rparr>)"
  fix w :: "'a world"
  assume st: "st view V H log w" and view: "view (kern w) = V"
  obtain n where n: "usable V n" and ans: "answers view (k_accept K fd) (kern w) n () (?V n)"
    using loopbackD(5) [OF L] assms(3) x y view unfolding loopback_streams_def by metis
  note range = usable_range [OF n]
  from st_handle [OF st H] obtain obj where obj: "heap w a = Some obj" "w_fd obj = fd" by blast
  from st_sys [OF st ans] range obtain k where
    k: "sys ''accept'' (k_accept K fd) w = (Ok (n, ()), w\<lparr>kern := k\<rparr>)" "st view (?V n) H log (w\<lparr>kern := k\<rparr>)"
    by metis
  from achievesD [OF st_FileDescriptor k(2), of n] range obtain b t where
    b: "FileDescriptor n (w\<lparr>kern := k\<rparr>) = (Ok b, t)" "H b = None" "st view (?V n) (H(b \<mapsto> (n, False))) log t"
    by blast
  let ?e = "(new_end (uint AF_INET) SOCK_STREAM)\<lparr>ep_name := ep_name x, ep_peer := Some d\<rparr>"
  have "achieves (st view (?V n) (H(b \<mapsto> (n, False))) log) (Socket_from K b (ep_domain ?e) (ep_type ?e))
      (\<lambda>b' w. b' = b \<and> st view (?V n) (H(b \<mapsto> (n, False))) log w)"
    by (rule st_Socket_from [where V = "?V n" and H = "H(b \<mapsto> (n, False))" and fd = n and c = False, OF L]) simp_all
  from achievesD [OF this b(3)] obtain u where
    "Socket_from K b (uint AF_INET) SOCK_STREAM t = (Ok b, u)" "st view (?V n) (H(b \<mapsto> (n, False))) log u"
    by (auto simp: new_end_def)
  with obj k(1) b(1,2) n show "\<exists>b t. bindp (fd_num a) (\<lambda>fd. bindp (sys ''accept'' (k_accept K fd))
      (\<lambda>(n, _). bindp (FileDescriptor n) (TCPSocket_from K))) w = (Ok b, t)
    \<and> (\<exists>n. usable V n \<and> H b = None \<and> st view (?V n) (H(b \<mapsto> (n, False))) log t)"
    by (auto simp: prog_simps fd_simps TCPSocket_from_def)
qed

text \<open>Sending a datagram to a bound socket with room, and receiving it.\<close>

lemma st_sendmsg:
  assumes L: "loopback K view" and H: "H a = Some (fd, c)" and small: "length (concat vs) \<le> 65507"
    and x: "V fd = Some x" "ep_type x = SOCK_DGRAM" "sends_to x dest len b"
    and y: "V g = Some y" "ep_type y = SOCK_DGRAM" "g \<noteq> fd" "ep_name y = Some b" "owns_name V g SOCK_DGRAM b"
      "ep_dest y = None" "ep_queue y = []"
  shows "achieves (st view V H log)
    (bindp (fd_num a) (\<lambda>fd. thenp (sendmsg_helper K fd dest len vs) (register_write a)))
    (\<lambda>_ w. \<exists>s. (case ep_name x of Some s' \<Rightarrow> s = s' | None \<Rightarrow> length s \<le> 128 \<and> unused_name V SOCK_DGRAM s)
      \<and> st view (V(fd \<mapsto> x\<lparr>ep_name := Some s\<rparr>, g \<mapsto> y\<lparr>ep_queue := [(concat vs, s)]\<rparr>)) H log w)"
proof (rule achieves_stI)
  let ?iov = "viewlist_as_iovecs vs"
  fix w :: "'a world"
  assume st: "st view V H log w" and view: "view (kern w) = V"
  have "concat vs = concat (map iov_base ?iov)" by simp
  then obtain s where s: "case ep_name x of Some s' \<Rightarrow> s = s' | None \<Rightarrow> length s \<le> 128 \<and> unused_name V SOCK_DGRAM s"
    and ans: "answers view (k_sendmsg K fd dest len ?iov) (kern w) (int (length (concat vs))) ()
      (V(fd \<mapsto> x\<lparr>ep_name := Some s\<rparr>, g \<mapsto> y\<lparr>ep_queue := [(concat vs, s)]\<rparr>))"
    using loopbackD(4) [OF L, unfolded loopback_datagrams_def, THEN conjunct2, THEN conjunct1] x y view small
    by blast
  let ?V = "V(fd \<mapsto> x\<lparr>ep_name := Some s\<rparr>, g \<mapsto> y\<lparr>ep_queue := [(concat vs, s)]\<rparr>)"
  from small have "0 \<le> int (length (concat vs))" "int (length (concat vs)) < 2 ^ 31" by simp_all
  from st_sys [OF st ans this] obtain k where
    k: "sys ''sendmsg'' (k_sendmsg K fd dest len ?iov) w = (Ok (int (length (concat vs)), ()), w\<lparr>kern := k\<rparr>)"
      "st view ?V H log (w\<lparr>kern := k\<rparr>)" by metis
  from achievesD [OF st_register(2) [where H = H and a = a, OF H] k(2)] obtain u t where
    t: "register_write a (w\<lparr>kern := k\<rparr>) = (Ok u, t)" "st view ?V H log t" by blast
  have "(word_of_int (int (length (concat vs))) :: size_t) = viewlist_size vs"
    by (simp add: viewlist_size_eq csize_def)
  moreover from st_handle [OF st H] obtain obj where "heap w a = Some obj" "w_fd obj = fd" by blast
  ultimately have "bindp (fd_num a) (\<lambda>fd. thenp (sendmsg_helper K fd dest len vs) (register_write a)) w = (Ok (), t)"
    using k(1) t(1) by (simp add: sendmsg_helper_def Let_def prog_simps fd_simps del: of_int_of_nat_eq)
  with s t(2) show "\<exists>u t. bindp (fd_num a) (\<lambda>fd. thenp (sendmsg_helper K fd dest len vs) (register_write a)) w = (Ok u, t)
    \<and> (\<exists>s. (case ep_name x of Some s' \<Rightarrow> s = s' | None \<Rightarrow> length s \<le> 128 \<and> unused_name V SOCK_DGRAM s)
      \<and> st view (V(fd \<mapsto> x\<lparr>ep_name := Some s\<rparr>, g \<mapsto> y\<lparr>ep_queue := [(concat vs, s)]\<rparr>)) H log t)"
    by blast
qed

lemma st_udp_recv:
  assumes L: "loopback K view" and H: "H a = Some (fd, c)" and x: "V fd = Some x" "ep_queue x = [(data, s)]"
    and small: "length data \<le> 65536" "length s \<le> 128"
  shows "achieves (st view V H log) (udp_recv K a mtu_default) (\<lambda>r w. payload r = data
    \<and> address_ok (source_address r) \<and> address_bytes (source_address r) = s
    \<and> st view (V(fd \<mapsto> x\<lparr>ep_queue := []\<rparr>)) H log w)"
proof (rule achieves_stI)
  fix w :: "'a world"
  assume st: "st view V H log w" and view: "view (kern w) = V"
  let ?V = "V(fd \<mapsto> x\<lparr>ep_queue := []\<rparr>)"
  have mtu: "unat mtu_default = 65536" by (simp add: mtu_default_def)
  have ans: "answers view (k_recvfrom K fd mtu_default 128) (kern w) (int (length data))
      (data, s, word_of_nat (length s)) ?V"
    using loopbackD(4) [OF L, unfolded loopback_datagrams_def, THEN conjunct2, THEN conjunct2] x small mtu view
    by auto
  then obtain e k where call: "k_recvfrom K fd mtu_default 128 (kern w)
      = (int (length data), e, (data, s, word_of_nat (length s)), k)" and k: "view k = ?V"
    by (auto simp: answers_def)
  have stk: "st view ?V H log (w\<lparr>kern := k\<rparr>)" by (rule st_kern [OF st k])
  from st_handle [OF st H] obtain obj where obj: "heap w a = Some obj" "w_fd obj = fd" by blast
  let ?src = "\<lparr>addr_size = word_of_nat (length s), addr_storage = s @ replicate (128 - length s) 0\<rparr>"
  have "udp_recv K a mtu_default w = (Ok \<lparr>source_address = ?src, payload = data\<rparr>,
      w\<lparr>kern := k, heap := (heap w)(a \<mapsto> obj\<lparr>w_read_count := w_read_count obj + 1\<rparr>)\<rparr>)"
    using udp_recv_eq [where msg = data and mtu = mtu_default and K = K and src = s and e = e and k = k, OF obj(1)] call obj(2) small mtu by simp
  moreover have "st view ?V H log (w\<lparr>kern := k, heap := (heap w)(a \<mapsto> obj\<lparr>w_read_count := w_read_count obj + 1\<rparr>)\<rparr>)"
    using st_obj [where a = a and obj = obj and obj' = "obj\<lparr>w_read_count := w_read_count obj + 1\<rparr>", OF stk] obj(1)
    by (simp add: obj_le_def del: fun_upd_apply)
  moreover have "unat (word_of_nat (length s) :: u32) = length s" using small(2) by (simp add: unat_of_nat)
  then have "address_ok ?src" "address_bytes ?src = s"
    using small(2) by (simp_all add: address_ok_def address_bytes_def)
  ultimately show "\<exists>r t. udp_recv K a mtu_default w = (Ok r, t) \<and> payload r = data
      \<and> address_ok (source_address r) \<and> address_bytes (source_address r) = s \<and> st view ?V H log t"
    by auto
qed

text \<open>Writing to a connected stream whose other end has room, and reading what arrived.\<close>

lemma st_write:
  assumes L: "loopback K view" and H: "H a = Some (fd, c)"
    and x: "V fd = Some x" "ep_peer x = Some g" "g \<noteq> fd" and y: "V g = Some y"
    and data: "concat vs = data" "data \<noteq> []" "length (ep_inbox y) + length data \<le> 65536"
  shows "achieves (st view V H log) (fd_write K a vs True)
    (\<lambda>_. st view (V(g \<mapsto> y\<lparr>ep_inbox := ep_inbox y @ data\<rparr>)) H log)"
proof (rule achieves_stI)
  let ?iov = "viewlist_as_iovecs vs" and ?V = "V(g \<mapsto> y\<lparr>ep_inbox := ep_inbox y @ data\<rparr>)" and ?n = "int (length data)"
  fix w :: "'a world"
  assume st: "st view V H log w" and view: "view (kern w) = V"
  have "data = concat (map iov_base ?iov)" using data(1) by simp
  then have ans: "answers view (k_writev K fd ?iov) (kern w) ?n () ?V"
    using loopbackD(5) [OF L, unfolded loopback_streams_def, THEN conjunct2, THEN conjunct2, THEN conjunct2,
        THEN conjunct1] x y data(2,3) view
    by blast
  have small: "0 \<le> ?n" "?n < 2 ^ 31" using data(3) by simp_all
  from st_sys [OF st ans small] obtain k where
    k: "sys ''writev'' (k_writev K fd ?iov) w = (Ok (?n, ()), w\<lparr>kern := k\<rparr>)" "st view ?V H log (w\<lparr>kern := k\<rparr>)"
    by metis
  from achievesD [OF st_register(2) [where H = H and a = a, OF H] k(2)] obtain u t where
    t: "register_write a (w\<lparr>kern := k\<rparr>) = (Ok u, t)" "st view ?V H log t" by blast
  have size: "viewlist_size vs = csize data" "sint (csize data) = ?n" "csize data \<noteq> 0"
    using data by (simp_all add: viewlist_size_eq sint_csize csize_eq_0_iff)
  have n: "word_of_int ?n = csize data" "unat (csize data) = length data"
    using data(3) by (simp_all add: csize_def unat_of_nat)
  have "viewlist_ok vs" using data(1,3) by (simp add: viewlist_ok_def)
  from viewlist_remove_prefix_ok [OF this, of "csize data"] data(1) n(2) obtain ws where
    ws: "viewlist_remove_prefix (csize data) vs = (Ok (), ws)" "concat ws = []" by auto
  from st_handle [OF st H] obtain obj where obj: "heap w a = Some obj" "w_fd obj = fd" by blast
  have "fd_write_step K a vs w = (Ok (csize data, ws), t)"
    using obj k(1) t(1) size ws(1) n(1) data(2)
    by (simp add: fd_write_step_def Let_def prog_simps fd_simps del: of_int_of_nat_eq)
  moreover have "viewlist_size ws = 0" by (simp only: viewlist_size_eq ws(2) csize_Nil)
  ultimately have "fd_write K a vs True w = (Ok (csize data), t)"
    by (simp add: fd_write_def fd_write_loop.simps [of K a True 0 vs w])
  with t(2) show "\<exists>u t. fd_write K a vs True w = (Ok u, t) \<and> st view ?V H log t" by blast
qed

lemma st_write_cstr:
  assumes L: "loopback K view" and H: "H a = Some (fd, c)"
    and x: "V fd = Some x" "ep_peer x = Some g" "g \<noteq> fd" and y: "V g = Some y" "ep_inbox y = []"
    and data: "c_str data = data" "data \<noteq> []" "length data \<le> 65536"
  shows "achieves (st view V H log) (fd_write_cstr K a data True)
    (\<lambda>_. st view (V(g \<mapsto> y\<lparr>ep_inbox := data\<rparr>)) H log)"
  using st_write [OF L, of H a fd c V x g y "BufferViewList_cstr data" data] H x y data
  by (simp add: fd_write_cstr_def BufferViewList_cstr_def BufferViewList_view_def)

lemma st_read:
  assumes L: "loopback K view" and H: "H a = Some (fd, c)"
    and x: "V fd = Some x" "ep_peer x \<noteq> None" "ep_inbox x \<noteq> []" "length (ep_inbox x) \<le> 65536"
  shows "achieves (st view V H log) (fd_read K a read_limit_max)
    (\<lambda>d w. d = ep_inbox x \<and> st view (V(fd \<mapsto> x\<lparr>ep_inbox := []\<rparr>)) H log w)"
proof (rule achieves_stI)
  let ?V = "V(fd \<mapsto> x\<lparr>ep_inbox := []\<rparr>)" and ?n = "min BUFFER_SIZE read_limit_max"
  fix w :: "'a world"
  assume st: "st view V H log w" and view: "view (kern w) = V"
  have n: "?n > 0" "unat ?n = 1048576"
    by (simp_all add: read_limit_max_def BUFFER_SIZE_def min_def word_gt_0)
  with x have all: "take (unat ?n) (ep_inbox x) = ep_inbox x" "drop (unat ?n) (ep_inbox x) = []"
    "min (unat ?n) (length (ep_inbox x)) = length (ep_inbox x)" by simp_all
  have "answers view (k_read K fd ?n) (kern w) (int (min (unat ?n) (length (ep_inbox x))))
      (take (unat ?n) (ep_inbox x)) (V(fd \<mapsto> x\<lparr>ep_inbox := drop (unat ?n) (ep_inbox x)\<rparr>))"
    using loopbackD(5) [OF L, unfolded loopback_streams_def, THEN conjunct2, THEN conjunct2, THEN conjunct2,
        THEN conjunct2, THEN conjunct1] x(1-3) n(1) view
    by blast
  then have "answers view (k_read K fd ?n) (kern w) (int (length (ep_inbox x))) (ep_inbox x) ?V"
    by (simp only: all)
  then obtain e k where call: "k_read K fd ?n (kern w) = (int (length (ep_inbox x)), e, ep_inbox x, k)" "view k = ?V"
    by (auto simp: answers_def)
  from st_handle [OF st H] obtain obj where obj: "heap w a = Some obj" "w_fd obj = fd" by blast
  let ?obj = "obj\<lparr>w_eof := w_eof obj \<or> (read_limit_max > 0 \<and> ep_inbox x = []), w_read_count := w_read_count obj + 1\<rparr>"
  have "fd_read K a read_limit_max w = (Ok (ep_inbox x), w\<lparr>kern := k, heap := (heap w)(a \<mapsto> ?obj)\<rparr>)"
    using fd_read_eq [OF loopbackD(1) [OF L] obj(1)] call(1) obj(2) by simp
  moreover have "st view ?V H log (w\<lparr>kern := k, heap := (heap w)(a \<mapsto> ?obj)\<rparr>)"
    using st_obj [where a = a and obj = obj and obj' = ?obj, OF st_kern [OF st call(2)]] obj(1)
    by (simp add: obj_le_def del: fun_upd_apply)
  ultimately show "\<exists>d t. fd_read K a read_limit_max w = (Ok d, t) \<and> d = ep_inbox x \<and> st view ?V H log t"
    by blast
qed

lemma st_shutdown:
  assumes L: "loopback K view" and H: "H a = Some (fd, c)"
    and x: "V fd = Some x" "ep_type x = SOCK_STREAM" "ep_peer x \<noteq> None"
  shows "achieves (st view V H log) (socket_shutdown K a SHUT_RDWR)
    (\<lambda>_. st view (V(fd \<mapsto> x\<lparr>ep_peer := None\<rparr>)) H log)"
proof -
  let ?V = "V(fd \<mapsto> x\<lparr>ep_peer := None\<rparr>)"
  have "answers view (k_shutdown K fd SHUT_RDWR) k 0 () ?V" if "view k = V" for k
    using loopbackD(5) [OF L] x that unfolding loopback_streams_def by blast
  note call = st_call_on [where f = "\<lambda>fd. k_shutdown K fd SHUT_RDWR" and H = H and a = a and fd = fd
      and r = 0 and x = "()", OF H this]
  have both: "achieves (st view ?V H log) (thenp (register_read a) (register_write a)) (\<lambda>_. st view ?V H log)"
    by (rule achieves_bindp [OF st_register(1) [where H = H and a = a, OF H]])
      (rule st_register(2) [where H = H and a = a, OF H])
  show ?thesis
    unfolding socket_shutdown_def
    by (rule call) (simp_all add: both SHUT_RDWR_def SHUT_WR_def SHUT_RD_def)
qed

section \<open>Closing and destroying\<close>

lemma st_close:
  assumes L: "loopback K view" and H: "H a = Some (fd, c)" and x: "V fd = Some x"
  shows "achieves (st view V H log) (fd_close K a) (\<lambda>_. st view (V(fd := None)) (H(a \<mapsto> (fd, True))) log)"
proof (rule achieves_stI)
  fix w :: "'a world"
  assume st: "st view V H log w" and view: "view (kern w) = V"
  have "answers view (k_close K fd) (kern w) 0 () (V(fd := None))"
    using loopbackD(2) [OF L] x view unfolding loopback_sockets_def by blast
  from st_sys [OF st this] obtain k where
    k: "sys ''close'' (k_close K fd) w = (Ok (0, ()), w\<lparr>kern := k\<rparr>)" "st view (V(fd := None)) H log (w\<lparr>kern := k\<rparr>)"
    by force
  from st_handle [OF st H] obtain obj where obj: "heap w a = Some obj" "w_fd obj = fd" "refs w a = 1" by blast
  let ?t = "w\<lparr>kern := k, heap := (heap w)(a \<mapsto> obj\<lparr>w_eof := True, w_closed := True\<rparr>)\<rparr>"
  have "fd_le w ?t" using obj(1) fd_le_upd [of w "w\<lparr>kern := k\<rparr>" a obj] by (simp add: obj_le_def)
  with st have "fd_inv ?t" unfolding st_def by (blast intro: fd_inv_le)
  with k(2) obj have "st view (V(fd := None)) (H(a \<mapsto> (fd, True))) log ?t" by (simp add: st_def)
  moreover have "fd_close K a w = (Ok (), ?t)"
    using obj k(1) by (simp add: fd_close_def FDWrapper_close_def prog_simps fd_simps)
  ultimately show "\<exists>u t. fd_close K a w = (Ok u, t) \<and> st view (V(fd := None)) (H(a \<mapsto> (fd, True))) log t" by blast
qed

lemma st_drop:
  assumes st: "st view V H log w" and H: "H a = Some (fd, c)"
    and run: "fd_destroy K a w = (Ok (), t)" and view: "view (kern t) = V'" and log: "cerr t = cerr w"
    and keep: "\<forall>b. b \<noteq> a \<longrightarrow> heap t b = heap w b \<and> refs t b = refs w b"
  shows "st view V' (H(a := None)) log t"
proof -
  have "fd_inv w" using st unfolding st_def by blast
  moreover have "refs w a > 0" by (rule st_handle [OF st H]) simp
  ultimately have inv: "fd_inv t" using run fd_inv_destroy [of w a K] by auto
  have others: "refs t b = 1 \<and> map_option (\<lambda>obj. (w_fd obj, w_closed obj)) (heap t b) = (H(a := None)) b"
    if "(H(a := None)) b \<noteq> None" for b
  proof -
    from that have b: "b \<noteq> a" "H b \<noteq> None" by (simp_all split: if_splits)
    with st have "refs w b = 1 \<and> map_option (\<lambda>obj. (w_fd obj, w_closed obj)) (heap w b) = H b"
      unfolding st_def by blast
    with keep b show ?thesis by simp
  qed
  from st have "cerr w = log" by (simp add: st_def)
  with inv view log others show ?thesis unfolding st_def by blast
qed

lemma st_destroy_open:
  assumes L: "loopback K view" and H: "H a = Some (fd, False)" and x: "V fd = Some x"
  shows "achieves (st view V H log) (fd_destroy K a) (\<lambda>_. st view (V(fd := None)) (H(a := None)) log)"
proof (rule achieves_stI)
  fix w :: "'a world"
  assume st: "st view V H log w" and view: "view (kern w) = V"
  have "answers view (k_close K fd) (kern w) 0 () (V(fd := None))"
    using loopbackD(2) [OF L] x view unfolding loopback_sockets_def by blast
  then obtain e k where call: "k_close K fd (kern w) = (0, e, (), k)" "view k = V(fd := None)"
    by (auto simp: answers_def)
  have zero: "c_int 0 = 0" by (simp add: c_int_def)
  from st_handle [OF st H] obtain obj where obj: "heap w a = Some obj" "w_fd obj = fd" "\<not> w_closed obj" "refs w a = 1"
    by auto
  from fd_destroy_last_open [OF obj(1,4,3), of K 0 e k] call(1) obj(2) obtain t where
    t: "fd_destroy K a w = (Ok (), t)" "kern t = k" "cerr t = cerr w"
      "\<forall>b. b \<noteq> a \<longrightarrow> heap t b = heap w b \<and> refs t b = refs w b"
    by (auto simp: zero)
  from st_drop [OF st H t(1) _ t(3,4)] call(2) t(2) have "st view (V(fd := None)) (H(a := None)) log t" by blast
  with t(1) show "\<exists>u t. fd_destroy K a w = (Ok u, t) \<and> st view (V(fd := None)) (H(a := None)) log t" by blast
qed

lemma st_destroy_closed:
  assumes H: "H a = Some (fd, True)"
  shows "achieves (st view V H log) (fd_destroy K a) (\<lambda>_. st view V (H(a := None)) log)"
proof (rule achieves_stI)
  fix w :: "'a world"
  assume st: "st view V H log w" and view: "view (kern w) = V"
  from st_handle [OF st H] obtain obj where obj: "heap w a = Some obj" "w_closed obj" "refs w a = 1" by auto
  let ?t = "w\<lparr>refs := (refs w)(a := 0), heap := (heap w)(a := None)\<rparr>"
  have t: "fd_destroy K a w = (Ok (), ?t)" by (rule fd_destroy_last_closed [OF obj(1,3,2)])
  from st_drop [OF st H t] view have "st view V (H(a := None)) log ?t" by simp
  with t show "\<exists>u t. fd_destroy K a w = (Ok u, t) \<and> st view V (H(a := None)) log t" by blast
qed

text \<open>
  A scope: a declaration that makes a handle, the rest of its block, and the destructor, which closes
  the descriptor unless the block did.
\<close>

lemma achieves_finallyp:
  assumes rest: "achieves P m (\<lambda>_. R)" and destroy: "achieves R d (\<lambda>_. S)"
  shows "achieves P (finallyp m d) (\<lambda>_. S)"
  unfolding achieves_def
proof (intro allI impI)
  fix s
  assume "P s"
  from achievesD [OF rest this] obtain x t where t: "m s = (Ok x, t)" "R t" by blast
  from achievesD [OF destroy t(2)] obtain y u where "d t = (Ok y, u)" "S u" by blast
  with t(1) show "\<exists>x t. finallyp m d s = (Ok x, t) \<and> S t" by (simp add: finallyp_def prog_simps)
qed

definition scope_end ::
  "('k \<Rightarrow> net) \<Rightarrow> (net \<Rightarrow> handles \<Rightarrow> bool) \<Rightarrow> (string \<times> exn option) list \<Rightarrow> fd_ref \<Rightarrow> int \<Rightarrow> 'k world \<Rightarrow> bool" where
  "scope_end view P log a fd w \<longleftrightarrow> (\<exists>V H. P V H \<and> H a = None
     \<and> ((\<exists>x. V fd = None \<and> st view (V(fd \<mapsto> x)) (H(a \<mapsto> (fd, False))) log w)
        \<or> st view V (H(a \<mapsto> (fd, True))) log w))"

lemma st_scope_end:
  assumes L: "loopback K view"
  shows "achieves (scope_end view P log a fd) (fd_destroy K a) (\<lambda>_ w. \<exists>V H. P V H \<and> st view V H log w)"
  unfolding achieves_def
proof (intro allI impI)
  fix w :: "'a world"
  assume "scope_end view P log a fd w"
  then obtain V H where P: "P V H" "H a = None" and cases:
    "(\<exists>x. V fd = None \<and> st view (V(fd \<mapsto> x)) (H(a \<mapsto> (fd, False))) log w) \<or> st view V (H(a \<mapsto> (fd, True))) log w"
    unfolding scope_end_def by blast
  have H: "H(a := None) = H" using P(2) by (simp add: fun_upd_idem)
  from cases show "\<exists>u t. fd_destroy K a w = (Ok u, t) \<and> (\<exists>V H. P V H \<and> st view V H log t)"
  proof (elim disjE exE conjE)
    fix x
    assume none: "V fd = None" and st: "st view (V(fd \<mapsto> x)) (H(a \<mapsto> (fd, False))) log w"
    have V: "V(fd := None) = V" using none by (simp add: fun_upd_idem)
    have "achieves (st view (V(fd \<mapsto> x)) (H(a \<mapsto> (fd, False))) log) (fd_destroy K a)
        (\<lambda>_. st view ((V(fd \<mapsto> x))(fd := None)) ((H(a \<mapsto> (fd, False)))(a := None)) log)"
      by (rule st_destroy_open [OF L]) simp_all
    from achievesD [OF this st] P(1) show ?thesis by (auto simp: H V)
  next
    assume st: "st view V (H(a \<mapsto> (fd, True))) log w"
    have "achieves (st view V (H(a \<mapsto> (fd, True))) log) (fd_destroy K a)
        (\<lambda>_. st view V ((H(a \<mapsto> (fd, True)))(a := None)) log)"
      by (rule st_destroy_closed) simp
    from achievesD [OF this st] P(1) show ?thesis by (auto simp: H)
  qed
qed

lemma st_scope:
  assumes L: "loopback K view"
    and decl: "achieves (st view V H log) declaration
      (\<lambda>a w. \<exists>fd. U fd \<and> H a = None \<and> st view (W fd) (H(a \<mapsto> (fd, False))) log w)"
    and rest: "\<And>a fd. U fd \<Longrightarrow> H a = None \<Longrightarrow>
      achieves (st view (W fd) (H(a \<mapsto> (fd, False))) log) (rest a) (\<lambda>_. scope_end view P log a fd)"
  shows "achieves (st view V H log) (in_scope K declaration rest) (\<lambda>_ w. \<exists>V H. P V H \<and> st view V H log w)"
  unfolding in_scope_def
proof (rule achieves_bindp [OF decl], rule achieves_ex, rule achieves_pure, rule achieves_pure)
  fix a fd
  assume "U fd" "H a = None"
  from achieves_finallyp [OF rest [OF this] st_scope_end [OF L]]
  show "achieves (st view (W fd) (H(a \<mapsto> (fd, False))) log) (finallyp (rest a) (fd_destroy K a))
    (\<lambda>_ w. \<exists>V H. P V H \<and> st view V H log w)" .
qed

end
