(* ===== verification/Loopback_Kernel.thy ===== *)
theory Loopback_Kernel
  imports Loopback
begin

text \<open>
  A kernel that keeps the contract \<open>loopback\<close>: its state is the network itself, its calls are
  executable. It shows that the contract can be kept, and is the kernel of the witnesses.
\<close>

section \<open>A kernel that is a loopback network\<close>

text \<open>Its state is the network; descriptor numbers out of range are never open.\<close>

definition loop_view :: "net \<Rightarrow> net" where
  "loop_view v fd = (if 0 \<le> fd \<and> fd < 1024 then v fd else None)"

definition numbers :: "int list" where
  "numbers = map int [0..<1024]"

definition free_numbers :: "net \<Rightarrow> int list" where
  "free_numbers v = filter (\<lambda>fd. v fd = None) numbers"

definition has_name :: "net \<Rightarrow> int \<Rightarrow> bytes \<Rightarrow> int \<Rightarrow> bool" where
  "has_name v type a fd = (case v fd of None \<Rightarrow> False | Some y \<Rightarrow> ep_type y = type \<and> ep_name y = Some a)"

definition holder :: "net \<Rightarrow> int \<Rightarrow> bytes \<Rightarrow> int option" where
  "holder v type a = find (has_name v type a) numbers"

definition fresh_name :: "net \<Rightarrow> bytes" where
  "fresh_name v = the (find (\<lambda>a. \<not> list_ex (has_name v SOCK_DGRAM a) numbers)
     (map (\<lambda>p. sockaddr_in (word_of_nat p) LOCALHOST) [0..<1025]))"

text \<open>A call on an open socket; on any other it fails with \<open>EBADF\<close>.\<close>

definition on_end :: "'a \<Rightarrow> int \<Rightarrow> (endpoint \<Rightarrow> net \<Rightarrow> (int \<times> 'a \<times> net) option) \<Rightarrow> (net, 'a) sys" where
  "on_end x fd f = (\<lambda>v. case (case loop_view v fd of None \<Rightarrow> None | Some e \<Rightarrow> f e (loop_view v)) of
     None \<Rightarrow> (-1, 9, x, v) | Some (r, y, v') \<Rightarrow> (r, 0, y, v'))"

definition loop_kernel :: "net kernel" where
  "loop_kernel = (failing_kernel 9)\<lparr>
     k_socket := (\<lambda>domain type _ v. case free_numbers (loop_view v) of [] \<Rightarrow> (-1, 24, (), v)
        | fd # _ \<Rightarrow> (fd, 0, (), (loop_view v)(fd \<mapsto> new_end domain type))),
     k_socketpair := (\<lambda>domain type _ v. case free_numbers (loop_view v) of
          a # b # _ \<Rightarrow> (0, 0, (a, b), (loop_view v)(a \<mapsto> (new_end domain type)\<lparr>ep_peer := Some b\<rparr>,
            b \<mapsto> (new_end domain type)\<lparr>ep_peer := Some a\<rparr>))
        | _ \<Rightarrow> (-1, 24, (0, 0), v)),
     k_getsockopt := (\<lambda>fd _ option. on_end (0, 0) fd (\<lambda>x v.
        Some (0, (if option = SO_DOMAIN then ep_domain x else ep_type x, 4), v))),
     k_close := (\<lambda>fd. on_end () fd (\<lambda>x v. Some (0, (), v(fd := None)))),
     k_getaddrinfo := (\<lambda>_ service _ v. (0, 0, Some (sockaddr_in (word_of_int (digits_val service)) LOCALHOST, 16), v)),
     k_bind := (\<lambda>fd addr len. on_end () fd (\<lambda>x v. Some (0, (), v(fd \<mapsto> x\<lparr>ep_name := Some (take (unat len) addr)\<rparr>)))),
     k_listen := (\<lambda>fd _. on_end () fd (\<lambda>x v. Some (0, (), v(fd \<mapsto> x\<lparr>ep_pending := Some []\<rparr>)))),
     k_connect := (\<lambda>fd addr len. on_end () fd (\<lambda>x v.
        if ep_type x = SOCK_DGRAM then Some (0, (), v(fd \<mapsto> x\<lparr>ep_dest := Some (take (unat len) addr)\<rparr>))
        else case holder v SOCK_STREAM (take (unat len) addr) of None \<Rightarrow> None
          | Some g \<Rightarrow> (case v g of None \<Rightarrow> None | Some y \<Rightarrow>
              Some (0, (), v(fd \<mapsto> x\<lparr>ep_name := Some []\<rparr>, g \<mapsto> y\<lparr>ep_pending := Some [fd]\<rparr>))))),
     k_accept := (\<lambda>fd. on_end () fd (\<lambda>x v. case (ep_pending x, free_numbers v) of
          (Some (c # cs), n # _) \<Rightarrow> (case v c of None \<Rightarrow> None | Some y \<Rightarrow>
             Some (n, (), v(fd \<mapsto> x\<lparr>ep_pending := Some cs\<rparr>, c \<mapsto> y\<lparr>ep_peer := Some n\<rparr>,
               n \<mapsto> (new_end (ep_domain x) SOCK_STREAM)\<lparr>ep_name := ep_name x, ep_peer := Some c\<rparr>)))
        | _ \<Rightarrow> None)),
     k_sendmsg := (\<lambda>fd dest len iov. on_end () fd (\<lambda>x v.
        case (case dest of None \<Rightarrow> ep_dest x | Some b \<Rightarrow> Some (take (unat len) b)) of None \<Rightarrow> None
        | Some a \<Rightarrow> (case holder v SOCK_DGRAM a of None \<Rightarrow> None | Some g \<Rightarrow>
           (case v g of None \<Rightarrow> None | Some y \<Rightarrow>
             (let data = concat (map iov_base iov);
                  s = (case ep_name x of Some s \<Rightarrow> s | None \<Rightarrow> fresh_name v)
              in Some (int (length data), (),
                   v(fd \<mapsto> x\<lparr>ep_name := Some s\<rparr>, g \<mapsto> y\<lparr>ep_queue := [(data, s)]\<rparr>))))))),
     k_recvfrom := (\<lambda>fd _ _. on_end ([], [], 0) fd (\<lambda>x v. case ep_queue x of [] \<Rightarrow> None
        | (data, s) # rest \<Rightarrow> Some (int (length data), (data, s, word_of_nat (length s)),
            v(fd \<mapsto> x\<lparr>ep_queue := rest\<rparr>)))),
     k_writev := (\<lambda>fd iov. on_end () fd (\<lambda>x v. case ep_peer x of None \<Rightarrow> None | Some g \<Rightarrow>
        (case v g of None \<Rightarrow> None | Some y \<Rightarrow>
          (let data = concat (map iov_base iov)
           in Some (int (length data), (), v(g \<mapsto> y\<lparr>ep_inbox := ep_inbox y @ data\<rparr>)))))),
     k_read := (\<lambda>fd n. on_end [] fd (\<lambda>x v. Some (int (min (unat n) (length (ep_inbox x))),
        take (unat n) (ep_inbox x), v(fd \<mapsto> x\<lparr>ep_inbox := drop (unat n) (ep_inbox x)\<rparr>)))),
     k_shutdown := (\<lambda>fd _. on_end () fd (\<lambda>x v. Some (0, (), v(fd \<mapsto> x\<lparr>ep_peer := None\<rparr>))))\<rparr>"

lemma loop_view_range: "loop_view v fd = Some x \<Longrightarrow> 0 \<le> fd \<and> fd < 1024"
  by (simp add: loop_view_def split: if_splits)

lemma loop_view_update [simp]:
  "0 \<le> fd \<Longrightarrow> fd < 1024 \<Longrightarrow> loop_view (v(fd \<mapsto> x)) = (loop_view v)(fd \<mapsto> x)"
  "loop_view (v(fd := None)) = (loop_view v)(fd := None)"
  "loop_view (loop_view v) = loop_view v"
  by (auto simp: loop_view_def fun_eq_iff)

lemma set_numbers: "set numbers = {0..<1024}"
proof -
  have "set numbers = int ` {0..<1024}" by (simp add: numbers_def)
  then show ?thesis by (simp add: image_int_atLeastLessThan)
qed

lemma spare_free: "spare n v = (n \<le> length (free_numbers v))"
proof -
  have "distinct numbers" by (simp add: numbers_def distinct_map)
  then have "distinct (free_numbers v)" by (simp add: free_numbers_def)
  moreover have "set (free_numbers v) = {fd. usable v fd}"
    by (auto simp: free_numbers_def set_numbers usable_def)
  ultimately show ?thesis by (metis distinct_card spare_def)
qed

text \<open>Calls on an open socket.\<close>

lemma answers_on_end:
  assumes "loop_view k fd = Some e" "f e (loop_view k) = Some (r, y, v')" "loop_view v' = v"
  shows "answers loop_view (on_end x fd f) k r y v"
  using assms by (simp add: answers_def on_end_def)

lemma free_numbers_Cons:
  "free_numbers v = fd # fds \<Longrightarrow> usable v fd \<and> (\<forall>g \<in> set fds. usable v g \<and> g \<noteq> fd)"
proof -
  assume eq: "free_numbers v = fd # fds"
  have "distinct (free_numbers v)" by (simp add: free_numbers_def numbers_def distinct_map)
  moreover have "set (free_numbers v) = {fd. usable v fd}"
    by (auto simp: free_numbers_def set_numbers usable_def)
  ultimately show ?thesis using eq by auto
qed

lemma spare_obtain:
  assumes "spare 1 v"
  obtains fd fds where "free_numbers v = fd # fds" "usable v fd"
  using assms free_numbers_Cons by (cases "free_numbers v") (auto simp: spare_free)

lemma spare_obtain_two:
  assumes "spare 2 v"
  obtains a b fds where "free_numbers v = a # b # fds" "usable v a" "usable v b" "a \<noteq> b"
proof -
  from assms obtain a b fds where eq: "free_numbers v = a # b # fds"
    by (auto simp: spare_free numeral_2_eq_2 Suc_le_length_iff)
  from free_numbers_Cons [OF this] that [OF eq] show thesis by auto
qed

lemma usable_numbers: "usable v fd \<Longrightarrow> 0 \<le> fd \<and> fd < 1024"
  by (simp add: usable_def)

lemma loop_sockets: "loopback_sockets loop_kernel loop_view"
proof -
  have socket: "\<exists>fd. usable (loop_view k) fd \<and> answers loop_view (k_socket loop_kernel domain type proto) k fd ()
      ((loop_view k)(fd \<mapsto> new_end domain type))" if spare: "spare 1 (loop_view k)" for k domain type proto
  proof -
    from spare_obtain [OF spare] obtain fd fds where fd: "free_numbers (loop_view k) = fd # fds" "usable (loop_view k) fd" .
    with usable_numbers [OF fd(2)] show ?thesis by (auto simp: answers_def loop_kernel_def)
  qed
  have pair: "\<exists>a b. usable (loop_view k) a \<and> usable (loop_view k) b \<and> a \<noteq> b
      \<and> answers loop_view (k_socketpair loop_kernel domain type proto) k 0 (a, b)
          ((loop_view k)(a \<mapsto> (new_end domain type)\<lparr>ep_peer := Some b\<rparr>,
             b \<mapsto> (new_end domain type)\<lparr>ep_peer := Some a\<rparr>))" if spare: "spare 2 (loop_view k)" for k domain type proto
  proof -
    from spare_obtain_two [OF spare] obtain a b fds where
      ab: "free_numbers (loop_view k) = a # b # fds" "usable (loop_view k) a" "usable (loop_view k) b" "a \<noteq> b" .
    with usable_numbers [OF ab(2)] usable_numbers [OF ab(3)]
    show ?thesis by (intro exI [of _ a] exI [of _ b]) (auto simp: answers_def loop_kernel_def)
  qed
  have "answers loop_view (k_getsockopt loop_kernel fd SOL_SOCKET SO_DOMAIN) k 0 (ep_domain x, 4) (loop_view k)
      \<and> answers loop_view (k_getsockopt loop_kernel fd SOL_SOCKET SO_TYPE) k 0 (ep_type x, 4) (loop_view k)
      \<and> answers loop_view (k_close loop_kernel fd) k 0 () ((loop_view k)(fd := None))"
    if "loop_view k fd = Some x" for k fd x
    using that by (auto simp: loop_kernel_def SO_DOMAIN_def SO_TYPE_def intro!: answers_on_end)
  with socket pair show ?thesis unfolding loopback_sockets_def by blast
qed

text \<open>Names.\<close>

lemma loop_names: "loopback_names loop_kernel loop_view"
proof -
  have service: "word_of_int (digits_val (bytes_of (int_to_string (uint port)))) = port" for port :: u16
  proof -
    have "int_to_string (uint port) = nat_to_string (unat port)" by (simp add: int_to_string_def)
    with dec_facts [of "unat port"] show ?thesis by simp
  qed
  have bind: "answers loop_view (k_bind loop_kernel fd addr len) k 0 ()
      ((loop_view k)(fd \<mapsto> x\<lparr>ep_name := Some (take (unat len) addr)\<rparr>))" if "loop_view k fd = Some x" for k fd x addr len
    using that loop_view_range [OF that] by (auto simp: loop_kernel_def intro!: answers_on_end)
  have "answers loop_view (k_getaddrinfo loop_kernel host (bytes_of (int_to_string (uint port))) hints) k 0
      (Some (sockaddr_in port LOCALHOST, 16)) (loop_view k)" for host port hints k
    by (auto simp: answers_def loop_kernel_def service)
  with bind show ?thesis unfolding loopback_names_def by metis
qed

text \<open>The only holder of a name is found; one of 1025 names is held by none of 1024 sockets.\<close>

lemma has_name_iff: "has_name v t a fd \<longleftrightarrow> (\<exists>y. v fd = Some y \<and> ep_type y = t \<and> ep_name y = Some a)"
  by (simp add: has_name_def split: option.splits)

lemma find_equal: "g \<in> set xs \<Longrightarrow> find (\<lambda>x. x = g) xs = Some g"
  by (induction xs) auto

lemma holder_owner:
  assumes "owns_name (loop_view k) g t a" "loop_view k g = Some y" "ep_type y = t" "ep_name y = Some a"
  shows "holder (loop_view k) t a = Some g"
proof -
  have only: "has_name (loop_view k) t a fd \<longleftrightarrow> fd = g" for fd
    using assms by (auto simp: has_name_iff owns_name_def)
  have "g \<in> set numbers" using loop_view_range [OF assms(2)] by (simp add: set_numbers)
  then have "find (\<lambda>fd. fd = g) numbers = Some g" by (rule find_equal)
  with only show ?thesis by (simp add: holder_def cong: find_cong)
qed

lemma fresh_name_unused: "length (fresh_name (loop_view k)) = 16 \<and> unused_name (loop_view k) SOCK_DGRAM (fresh_name (loop_view k))"
proof -
  let ?v = "loop_view k" and ?name = "\<lambda>p. sockaddr_in (word_of_nat p) LOCALHOST"
  let ?taken = "\<lambda>a. list_ex (has_name ?v SOCK_DGRAM a) numbers"
  let ?names = "map ?name [0..<1025]"
  have "\<exists>a \<in> set ?names. \<not> ?taken a"
  proof (rule ccontr)
    assume "\<not> (\<exists>a \<in> set ?names. \<not> ?taken a)"
    then have "set ?names \<subseteq> (\<lambda>fd. the (ep_name (the (?v fd)))) ` set numbers"
      by (force simp: list_ex_iff has_name_iff)
    then have "card (set ?names) \<le> card (set numbers)"
      by (meson List.finite_set card_image_le card_mono finite_imageI le_trans)
    moreover have "inj_on ?name {0..<1025}"
      by (rule inj_onI) (auto simp: sockaddr_in_inject unsigned_of_nat take_bit_nat_eq_self dest!: arg_cong [where f = unat])
    then have "card (set ?names) = 1025" by (simp add: card_image)
    ultimately show False by (simp add: set_numbers)
  qed
  then obtain a where a: "find (\<lambda>a. \<not> ?taken a) ?names = Some a"
    by (cases "find (\<lambda>a. \<not> ?taken a) ?names") (auto simp: find_None_iff)
  then have "a \<in> set ?names" "\<not> ?taken a" by (auto simp: find_Some_iff)
  moreover have "unused_name ?v SOCK_DGRAM a"
    using \<open>\<not> ?taken a\<close> loop_view_range by (fastforce simp: unused_name_def list_ex_iff has_name_iff set_numbers)
  moreover have "fresh_name ?v = a" using a by (simp add: fresh_name_def)
  ultimately show ?thesis by auto
qed

text \<open>Datagrams and streams.\<close>

lemma loop_datagrams: "loopback_datagrams loop_kernel loop_view"
proof -
  have connect: "answers loop_view (k_connect loop_kernel fd addr len) k 0 ()
      ((loop_view k)(fd \<mapsto> x\<lparr>ep_dest := Some (take (unat len) addr)\<rparr>))"
    if "loop_view k fd = Some x" "ep_type x = SOCK_DGRAM" for k fd x addr len
    using that loop_view_range [OF that(1)] by (auto simp: loop_kernel_def intro!: answers_on_end)
  have sendmsg: "\<exists>s. (case ep_name x of Some s' \<Rightarrow> s = s' | None \<Rightarrow> length s \<le> 128 \<and> unused_name (loop_view k) SOCK_DGRAM s)
      \<and> answers loop_view (k_sendmsg loop_kernel fd dest len iov) k (int (length (concat (map iov_base iov)))) ()
          ((loop_view k)(fd \<mapsto> x\<lparr>ep_name := Some s\<rparr>, g \<mapsto> y\<lparr>ep_queue := [(concat (map iov_base iov), s)]\<rparr>))"
    if x: "loop_view k fd = Some x" "sends_to x dest len a" and y: "loop_view k g = Some y" "ep_type y = SOCK_DGRAM"
      "ep_name y = Some a" and own: "owns_name (loop_view k) g SOCK_DGRAM a" for k fd x dest len a g y iov
  proof -
    let ?s = "case ep_name x of Some s \<Rightarrow> s | None \<Rightarrow> fresh_name (loop_view k)"
    have to: "(case dest of None \<Rightarrow> ep_dest x | Some b \<Rightarrow> Some (take (unat len) b)) = Some a"
      using x(2) by (simp add: sends_to_def split: option.splits)
    have "answers loop_view (k_sendmsg loop_kernel fd dest len iov) k (int (length (concat (map iov_base iov)))) ()
        ((loop_view k)(fd \<mapsto> x\<lparr>ep_name := Some ?s\<rparr>, g \<mapsto> y\<lparr>ep_queue := [(concat (map iov_base iov), ?s)]\<rparr>))"
      using x(1) y to holder_owner [OF own y] loop_view_range [OF x(1)] loop_view_range [OF y(1)]
      by (auto simp: loop_kernel_def Let_def intro!: answers_on_end)
    then show ?thesis using fresh_name_unused [of k] by (intro exI [of _ ?s]) (auto split: option.splits)
  qed
  have recvfrom: "answers loop_view (k_recvfrom loop_kernel fd n m) k (int (length data)) (data, s, word_of_nat (length s))
      ((loop_view k)(fd \<mapsto> x\<lparr>ep_queue := rest\<rparr>))"
    if "loop_view k fd = Some x" "ep_queue x = (data, s) # rest" for k fd x data s rest n m
    using that loop_view_range [OF that(1)] by (auto simp: loop_kernel_def intro!: answers_on_end)
  show ?thesis
    unfolding loopback_datagrams_def
    by (intro conjI allI impI; elim conjE) (simp_all only: connect sendmsg recvfrom)
qed

lemma loop_accept:
  assumes spare: "spare 1 (loop_view k)" and x: "loop_view k fd = Some x" "ep_pending x = Some (c # cs)"
    and y: "loop_view k c = Some y"
  shows "\<exists>n. usable (loop_view k) n \<and> answers loop_view (k_accept loop_kernel fd) k n ()
    ((loop_view k)(fd \<mapsto> x\<lparr>ep_pending := Some cs\<rparr>, c \<mapsto> y\<lparr>ep_peer := Some n\<rparr>,
       n \<mapsto> (new_end (ep_domain x) SOCK_STREAM)\<lparr>ep_name := ep_name x, ep_peer := Some c\<rparr>))"
proof -
  from spare_obtain [OF spare] obtain n ns where n: "free_numbers (loop_view k) = n # ns" "usable (loop_view k) n" .
  with x y loop_view_range [OF x(1)] loop_view_range [OF y] usable_numbers [OF n(2)]
  show ?thesis by (intro exI [of _ n]) (auto simp: loop_kernel_def intro!: answers_on_end)
qed

lemma loop_streams: "loopback_streams loop_kernel loop_view"
proof -
  have listen: "answers loop_view (k_listen loop_kernel fd n) k 0 () ((loop_view k)(fd \<mapsto> x\<lparr>ep_pending := Some []\<rparr>))"
    if "loop_view k fd = Some x" for k fd x n
    using that loop_view_range [OF that] by (auto simp: loop_kernel_def intro!: answers_on_end)
  have connect: "\<exists>s. answers loop_view (k_connect loop_kernel fd addr len) k 0 ()
      ((loop_view k)(fd \<mapsto> x\<lparr>ep_name := Some s\<rparr>, g \<mapsto> y\<lparr>ep_pending := Some [fd]\<rparr>))"
    if x: "loop_view k fd = Some x" "ep_type x = SOCK_STREAM" and y: "loop_view k g = Some y"
      "ep_type y = SOCK_STREAM"
      "ep_name y = Some (take (unat len) addr)"
      and own: "owns_name (loop_view k) g SOCK_STREAM (take (unat len) addr)" for k fd x g y addr len
  proof -
    from holder_owner [OF own y] x y loop_view_range [OF x(1)] loop_view_range [OF y(1)]
    show ?thesis
      by (intro exI [of _ "[]"]) (auto simp: loop_kernel_def SOCK_STREAM_def SOCK_DGRAM_def intro!: answers_on_end)
  qed
  have written: "answers loop_view (k_writev loop_kernel fd iov) k (int (length (concat (map iov_base iov)))) ()
      ((loop_view k)(g \<mapsto> y\<lparr>ep_inbox := ep_inbox y @ concat (map iov_base iov)\<rparr>))"
    if x: "loop_view k fd = Some x" "ep_peer x = Some g" and y: "loop_view k g = Some y" for k fd x g y iov
    using x y loop_view_range [OF y] by (auto simp: loop_kernel_def Let_def intro!: answers_on_end)
  have read: "answers loop_view (k_read loop_kernel fd n) k (int (min (unat n) (length (ep_inbox x))))
      (take (unat n) (ep_inbox x)) ((loop_view k)(fd \<mapsto> x\<lparr>ep_inbox := drop (unat n) (ep_inbox x)\<rparr>))"
    if "loop_view k fd = Some x" for k fd x n
    using that loop_view_range [OF that] by (auto simp: loop_kernel_def intro!: answers_on_end)
  have "answers loop_view (k_shutdown loop_kernel fd how) k 0 () ((loop_view k)(fd \<mapsto> x\<lparr>ep_peer := None\<rparr>))"
    if "loop_view k fd = Some x" for k fd x how
    using that loop_view_range [OF that] by (auto simp: loop_kernel_def intro!: answers_on_end)
  note shut = this
  show ?thesis
    unfolding loopback_streams_def
    by (intro conjI allI impI; elim conjE) (simp_all only: listen connect written read shut loop_accept)
qed

lemma loop_read_contract: "read_contract loop_kernel"
proof -
  have "int (min (unat n) l) \<le> uint n" for n :: size_t and l
    by (metis min.cobounded1 of_nat_mono uint_nat)
  then show ?thesis
    by (simp add: read_contract_def loop_kernel_def on_end_def del: of_nat_min split: option.splits) (simp add: min.commute)
qed

lemma loopback_loop_kernel: "loopback loop_kernel loop_view"
  by (simp add: loopback_def loop_read_contract loop_sockets loop_names loop_datagrams loop_streams)

end
