(* ===== verification/Loopback_Examples.thy ===== *)
theory Loopback_Examples
  imports Loopback_Kernel
begin

text \<open>
  The three examples of \<open>doctests/socket_dt.cc\<close> on a network that works: each returns, receives what
  was sent, and leaves the network as it was. The network is a contract of the kernel (\<open>loopback\<close>),
  which the kernel of \<open>Loopback_Kernel\<close> keeps.
\<close>

section \<open>The examples\<close>

lemma c_str_literals [simp]: "c_str (bytes_of ''hi there'') = bytes_of ''hi there''"
  "c_str (bytes_of ''hi yourself'') = bytes_of ''hi yourself''"
  by code_simp+

lemma check_received_ok: "check_received (bytes_of ''hi there'') (bytes_of ''hi yourself'') = retp ()"
  by (simp add: check_received_def)

lemma literal_nonempty [simp]: "bytes_of ''hi there'' \<noteq> []" "bytes_of ''hi yourself'' \<noteq> []"
  by (simp_all add: bytes_of_def)

text \<open>The two messages over a connected pair of streams, after which the network is as before.\<close>

lemma st_exchange:
  assumes L: "loopback K view" and H: "H a = Some (fa, False)" "H b = Some (fb, False)"
    and x: "V fa = Some x" "ep_peer x = Some fb" "ep_inbox x = []"
    and y: "V fb = Some y" "ep_peer y = Some fa" "ep_inbox y = []" and ne: "fa \<noteq> fb"
    and rest: "achieves (st view V H log) (rest (bytes_of ''hi there'') (bytes_of ''hi yourself'')) Q"
  shows "achieves (st view V H log)
    (thenp (fd_write_cstr K a (bytes_of ''hi there'') True)
    (bindp (fd_read K b read_limit_max) (\<lambda>recvd.
     thenp (fd_write_cstr K b (bytes_of ''hi yourself'') True)
    (bindp (fd_read K a read_limit_max) (\<lambda>recvd2. rest recvd recvd2))))) Q"
proof -
  let ?V1 = "V(fb \<mapsto> y\<lparr>ep_inbox := bytes_of ''hi there''\<rparr>)" and ?V2 = "V(fa \<mapsto> x\<lparr>ep_inbox := bytes_of ''hi yourself''\<rparr>)"
  have same: "V(fb \<mapsto> y\<lparr>ep_inbox := []\<rparr>) = V" "V(fa \<mapsto> x\<lparr>ep_inbox := []\<rparr>) = V"
    using x(1,3) y(1,3) by (simp_all add: fun_upd_idem_iff)
  have w1: "achieves (st view V H log) (fd_write_cstr K a (bytes_of ''hi there'') True) (\<lambda>_. st view ?V1 H log)"
    by (rule st_write_cstr [where H = H and a = a and fd = fa and V = V and c = False, OF L H(1) x(1,2)]) (use y ne in simp_all)
  have r1: "achieves (st view ?V1 H log) (fd_read K b read_limit_max)
      (\<lambda>d w. d = bytes_of ''hi there'' \<and> st view V H log w)"
    using st_read [where H = H and a = b and fd = fb and V = ?V1 and x = "y\<lparr>ep_inbox := bytes_of ''hi there''\<rparr>"
        and log = log, OF L H(2)] y
    by (simp add: same)
  have w2: "achieves (st view V H log) (fd_write_cstr K b (bytes_of ''hi yourself'') True) (\<lambda>_. st view ?V2 H log)"
    by (rule st_write_cstr [where H = H and a = b and fd = fb and V = V and c = False, OF L H(2) y(1,2)]) (use x ne in simp_all)
  have r2: "achieves (st view ?V2 H log) (fd_read K a read_limit_max)
      (\<lambda>d w. d = bytes_of ''hi yourself'' \<and> st view V H log w)"
    using st_read [where H = H and a = a and fd = fa and V = ?V2 and x = "x\<lparr>ep_inbox := bytes_of ''hi yourself''\<rparr>"
        and log = log, OF L H(1)] x
    by (simp add: same)
  show ?thesis
    by (rule achieves_bindp [OF w1], rule achieves_bindp [OF r1], rule achieves_pure, hypsubst,
        rule achieves_bindp [OF w2], rule achieves_bindp [OF r2], rule achieves_pure, hypsubst, rule rest)
qed

lemma st_LocalStreamSocket:
  assumes L: "loopback K view" and x: "V n = Some x" "ep_domain x = AF_UNIX" "ep_type x = SOCK_STREAM" and "0 \<le> n"
  shows "achieves (st view V H log) (bindp (FileDescriptor n) (LocalStreamSocket K))
    (\<lambda>a w. \<exists>fd. fd = n \<and> H a = None \<and> st view V (H(a \<mapsto> (fd, False))) log w)"
proof (rule achieves_bindp [OF st_FileDescriptor [OF assms(5)]], rule achieves_pure)
  fix a
  assume none: "H a = None"
  have "achieves (st view V (H(a \<mapsto> (n, False))) log) (Socket_from K a (ep_domain x) (ep_type x))
      (\<lambda>b w. b = a \<and> st view V (H(a \<mapsto> (n, False))) log w)"
    by (rule st_Socket_from [where H = "H(a \<mapsto> (n, False))" and fd = n and c = False, OF L])
      (simp_all add: x(1))
  then show "achieves (st view V (H(a \<mapsto> (n, False))) log) (LocalStreamSocket K a)
      (\<lambda>a w. \<exists>fd. fd = n \<and> H a = None \<and> st view V (H(a \<mapsto> (fd, False))) log w)"
    unfolding LocalStreamSocket_def x(2,3) by (rule achieves_conseq) (use none in auto)
qed

lemma scope_endI:
  "P V H \<Longrightarrow> H a = None \<Longrightarrow> V fd = None \<Longrightarrow> st view (V(fd \<mapsto> x)) (H(a \<mapsto> (fd, False))) log w \<Longrightarrow>
     scope_end view P log a fd w"
  and scope_end_closedI:
  "P V H \<Longrightarrow> H a = None \<Longrightarrow> st view V (H(a \<mapsto> (fd, True))) log w \<Longrightarrow> scope_end view P log a fd w"
  unfolding scope_end_def by blast+

text \<open>The third example: what \<open>socketpair\<close> returns, and the two scopes around the exchange.\<close>

abbreviation pair_end :: "int \<Rightarrow> endpoint" where
  "pair_end peer \<equiv> (new_end AF_UNIX SOCK_STREAM)\<lparr>ep_peer := Some peer\<rparr>"

abbreviation pair_talk :: "'k kernel \<Rightarrow> fd_ref \<Rightarrow> fd_ref \<Rightarrow> ('k world, unit) prog" where
  "pair_talk K p1 p2 \<equiv> thenp (fd_write_cstr K p1 (bytes_of ''hi there'') True)
    (bindp (fd_read K p2 read_limit_max) (\<lambda>recvd.
     thenp (fd_write_cstr K p2 (bytes_of ''hi yourself'') True)
    (bindp (fd_read K p1 read_limit_max) (\<lambda>recvd2. check_received recvd recvd2))))"

lemma st_socketpair:
  assumes L: "loopback K view" and spare: "spare 2 V"
  shows "achieves (st view V H log) (sys ''socketpair'' (k_socketpair K AF_UNIX SOCK_STREAM 0))
    (\<lambda>(r, (fa, fb)) w. (usable V fa \<and> usable V fb \<and> fa \<noteq> fb)
       \<and> st view (V(fa \<mapsto> pair_end fb, fb \<mapsto> pair_end fa)) H log w)"
proof -
  let ?V = "\<lambda>fa fb. V(fa \<mapsto> pair_end fb, fb \<mapsto> pair_end fa)"
  let ?P = "\<lambda>r (fa, fb) V'. usable V fa \<and> usable V fb \<and> fa \<noteq> fb \<and> V' = ?V fa fb"
  have "achieves (st view V H log) (sys ''socketpair'' (k_socketpair K AF_UNIX SOCK_STREAM 0))
      (\<lambda>(r, x) w. \<exists>V'. ?P r x V' \<and> st view V' H log w)"
  proof (rule st_call)
    fix k
    assume k: "view k = V"
    with spare loopbackD(2) [OF L] obtain fa fb where "usable V fa" "usable V fb" "fa \<noteq> fb"
      "answers view (k_socketpair K AF_UNIX SOCK_STREAM 0) k 0 (fa, fb) (?V fa fb)"
      unfolding loopback_sockets_def by blast
    then show "\<exists>r x V'. answers view (k_socketpair K AF_UNIX SOCK_STREAM 0) k r x V' \<and> 0 \<le> r \<and> r < 2 ^ 31 \<and> ?P r x V'"
      by (intro exI [of _ 0] exI [of _ "(fa, fb)"] exI [of _ "?V fa fb"]) simp
  qed
  then show ?thesis by (rule achieves_conseq) auto
qed

lemma st_pair_inner:
  assumes L: "loopback K view" and u: "usable V fa" "usable V fb" "fa \<noteq> fb"
  shows "achieves (st view (V(fa \<mapsto> pair_end fb, fb \<mapsto> pair_end fa)) (H(p1 \<mapsto> (fa, False))) log)
    (in_scope K (bindp (FileDescriptor fb) (LocalStreamSocket K)) (pair_talk K p1))
    (\<lambda>_ w. \<exists>V' H'. (V' = V(fa \<mapsto> pair_end fb) \<and> H' = H(p1 \<mapsto> (fa, False))) \<and> st view V' H' log w)"
proof (rule st_scope [OF L st_LocalStreamSocket [where x = "pair_end fa", OF L]])
  let ?V = "V(fa \<mapsto> pair_end fb, fb \<mapsto> pair_end fa)" and ?H = "H(p1 \<mapsto> (fa, False))"
  let ?P = "\<lambda>V' H'. V' = V(fa \<mapsto> pair_end fb) \<and> H' = ?H"
  fix p2 fd
  assume p2: "fd = fb" "?H p2 = None"
  then have "p1 \<noteq> p2" by auto
  then have "achieves (st view ?V (?H(p2 \<mapsto> (fb, False))) log) (pair_talk K p1 p2)
      (\<lambda>_. st view ?V (?H(p2 \<mapsto> (fb, False))) log)"
    by (intro st_exchange [where x = "pair_end fb" and y = "pair_end fa", OF L])
      (use u in \<open>simp_all add: new_end_def check_received_ok achieves_retp_same\<close>)
  then show "achieves (st view ?V (?H(p2 \<mapsto> (fd, False))) log) (pair_talk K p1 p2)
      (\<lambda>_. scope_end view ?P log p2 fd)"
    unfolding p2(1)
    by (rule achieves_conseq)
      (use p2 u usable_range [OF u(2)] in \<open>auto intro!: scope_endI [of _ "V(fa \<mapsto> pair_end fb)" ?H]\<close>)
qed (use u usable_range [OF u(2)] in \<open>simp_all add: new_end_def\<close>)

lemma st_pair_scopes:
  assumes L: "loopback K view" and u: "usable V fa" "usable V fb" "fa \<noteq> fb"
  shows "achieves (st view (V(fa \<mapsto> pair_end fb, fb \<mapsto> pair_end fa)) H log)
    (in_scope K (bindp (FileDescriptor fa) (LocalStreamSocket K)) (\<lambda>p1.
     in_scope K (bindp (FileDescriptor fb) (LocalStreamSocket K)) (pair_talk K p1)))
    (\<lambda>_ w. \<exists>V' H'. (V' = V \<and> H' = H) \<and> st view V' H' log w)"
proof (rule st_scope [OF L st_LocalStreamSocket [where x = "pair_end fb", OF L]])
  let ?V = "V(fa \<mapsto> pair_end fb, fb \<mapsto> pair_end fa)"
  fix p1 fd
  assume p1: "fd = fa" "H p1 = None"
  show "achieves (st view ?V (H(p1 \<mapsto> (fd, False))) log)
      (in_scope K (bindp (FileDescriptor fb) (LocalStreamSocket K)) (pair_talk K p1))
      (\<lambda>_. scope_end view (\<lambda>V' H'. V' = V \<and> H' = H) log p1 fd)"
    unfolding p1(1)
    by (rule achieves_conseq [OF st_pair_inner [OF L u]])
      (use p1 usable_range [OF u(1)] in \<open>auto intro!: scope_endI [of _ V H]\<close>)
qed (use u usable_range [OF u(1)] in \<open>simp_all add: new_end_def\<close>)

lemma st_example_3:
  assumes L: "loopback K view" and "spare 2 V"
  shows "achieves (st view V H log) (socket_example_3 K) (\<lambda>_. st view V H log)"
  unfolding socket_example_3_def
proof (rule achieves_bindp [OF st_socketpair [OF assms]])
  fix z :: "int \<times> int \<times> int"
  obtain r fa fb where z: "z = (r, fa, fb)" by (metis prod_cases3)
  have "achieves (\<lambda>w. (usable V fa \<and> usable V fb \<and> fa \<noteq> fb)
        \<and> st view (V(fa \<mapsto> pair_end fb, fb \<mapsto> pair_end fa)) H log w)
      (in_scope K (bindp (FileDescriptor fa) (LocalStreamSocket K)) (\<lambda>p1.
       in_scope K (bindp (FileDescriptor fb) (LocalStreamSocket K)) (pair_talk K p1)))
      (\<lambda>_. st view V H log)"
    by (rule achieves_pure, elim conjE, rule achieves_conseq [OF st_pair_scopes [OF L]]) auto
  then show "achieves ((case z of (r, fa, fb) \<Rightarrow> \<lambda>w. (usable V fa \<and> usable V fb \<and> fa \<noteq> fb)
        \<and> st view (V(fa \<mapsto> pair_end fb, fb \<mapsto> pair_end fa)) H log w))
      (case z of (_, fd0, fd1) \<Rightarrow>
        in_scope K (bindp (FileDescriptor fd0) (LocalStreamSocket K)) (\<lambda>p1.
        in_scope K (bindp (FileDescriptor fd1) (LocalStreamSocket K)) (\<lambda>p2. pair_talk K p1 p2)))
      (\<lambda>_. st view V H log)"
    by (simp only: z prod.case)
qed

text \<open>Names in an updated network.\<close>

lemma unused_name_update: "unused_name V t a \<Longrightarrow> (ep_type x = t \<longrightarrow> ep_name x \<noteq> Some a) \<Longrightarrow> unused_name (V(fd \<mapsto> x)) t a"
  and owns_name_new: "unused_name V t a \<Longrightarrow> ep_name x = Some a \<Longrightarrow> owns_name (V(fd \<mapsto> x)) fd t a"
  and owns_name_same: "owns_name V fd t a \<Longrightarrow> ep_name x = Some a \<Longrightarrow> owns_name (V(fd \<mapsto> x)) fd t a"
  and owns_name_other: "owns_name V fd t a \<Longrightarrow> g \<noteq> fd \<Longrightarrow> (ep_type x = t \<longrightarrow> ep_name x \<noteq> Some a) \<Longrightarrow>
    owns_name (V(g \<mapsto> x)) fd t a"
  by (auto simp: unused_name_def owns_name_def)

lemma new_end_simps [simp]:
  "ep_domain (new_end d t) = d" "ep_type (new_end d t) = t" "ep_name (new_end d t) = None"
  "ep_dest (new_end d t) = None" "ep_peer (new_end d t) = None" "ep_pending (new_end d t) = None"
  "ep_inbox (new_end d t) = []" "ep_queue (new_end d t) = []"
  by (simp_all add: new_end_def)

text \<open>The datagrams of the first example, from the second socket to the first and back.\<close>

lemma st_datagrams:
  assumes L: "loopback K view" and H: "H p1 = Some (f1, False)" "H p2 = Some (f2, False)" and ne: "f1 \<noteq> f2"
    and V: "V f1 = Some (e\<lparr>ep_name := Some (sockaddr_in port LOCALHOST)\<rparr>)" "V f2 = Some e"
      "owns_name V f1 SOCK_DGRAM (sockaddr_in port LOCALHOST)"
    and e: "e = new_end (uint AF_INET) SOCK_DGRAM"
  shows "achieves (st view V H log)
    (thenp (udp_sendto K p2 (loop_address port) (BufferViewList_cstr (bytes_of ''hi there'')))
    (bindp (udp_recv K p1 mtu_default) (\<lambda>recvd.
     thenp (socket_connect K p1 (source_address recvd))
    (thenp (udp_send K p1 (BufferViewList_cstr (bytes_of ''hi yourself'')))
    (bindp (udp_recv K p2 mtu_default) (\<lambda>recvd2. check_received (payload recvd) (payload recvd2)))))))
    (\<lambda>_ w. \<exists>x y. st view (V(f1 \<mapsto> x, f2 \<mapsto> y)) H log w)"
proof -
  let ?A = "sockaddr_in port LOCALHOST" and ?d1 = "bytes_of ''hi there''" and ?d2 = "bytes_of ''hi yourself''"
  let ?x1 = "e\<lparr>ep_name := Some ?A\<rparr>"
  let ?V1 = "\<lambda>s. V(f2 \<mapsto> e\<lparr>ep_name := Some s\<rparr>, f1 \<mapsto> ?x1\<lparr>ep_queue := [(?d1, s)]\<rparr>)"
  let ?V2 = "\<lambda>s. V(f2 \<mapsto> e\<lparr>ep_name := Some s\<rparr>, f1 \<mapsto> ?x1)"
  let ?V3 = "\<lambda>s. V(f2 \<mapsto> e\<lparr>ep_name := Some s\<rparr>, f1 \<mapsto> ?x1\<lparr>ep_dest := Some s\<rparr>)"
  let ?V4 = "\<lambda>s. V(f1 \<mapsto> ?x1\<lparr>ep_dest := Some s\<rparr>, f2 \<mapsto> e\<lparr>ep_name := Some s, ep_queue := [(?d2, ?A)]\<rparr>)"
  let ?V5 = "\<lambda>s. V(f1 \<mapsto> ?x1\<lparr>ep_dest := Some s\<rparr>, f2 \<mapsto> e\<lparr>ep_name := Some s\<rparr>)"
  have views: "concat (BufferViewList_cstr ?d1) = ?d1" "concat (BufferViewList_cstr ?d2) = ?d2"
    by (simp_all add: BufferViewList_cstr_def BufferViewList_view_def)
  have send1: "achieves (st view V H log) (udp_sendto K p2 (loop_address port) (BufferViewList_cstr ?d1))
      (\<lambda>_ w. \<exists>s. (length s \<le> 128 \<and> unused_name V SOCK_DGRAM s) \<and> st view (?V1 s) H log w)"
    unfolding udp_sendto_def
    by (rule achieves_conseq [OF st_sendmsg [where H = H and a = p2 and fd = f2 and V = V and x = e and y = ?x1
          and b = ?A, OF L H(2)]]) (use V ne e views in \<open>auto simp: sends_to_def split: option.splits\<close>)
  have recv1: "achieves (st view (?V1 s) H log) (udp_recv K p1 mtu_default) (\<lambda>r w. (payload r = ?d1
      \<and> address_ok (source_address r) \<and> address_bytes (source_address r) = s) \<and> st view (?V2 s) H log w)"
    if "length s \<le> 128" for s
    by (rule achieves_conseq [OF st_udp_recv [where H = H and a = p1 and fd = f1 and V = "?V1 s"
          and x = "?x1\<lparr>ep_queue := [(?d1, s)]\<rparr>" and data = ?d1 and s = s, OF L H(1)]]) (use that e in \<open>auto simp: new_end_def\<close>)
  have connect: "achieves (st view (?V2 s) H log) (socket_connect K p1 addr) (\<lambda>_. st view (?V3 s) H log)"
    if "address_ok addr" "address_bytes addr = s" for addr s
    by (rule achieves_conseq [OF st_udp_connect [where H = H and a = p1 and fd = f1 and V = "?V2 s" and x = ?x1,
          OF L H(1)]]) (use that e in auto)
  have send2: "achieves (st view (?V3 s) H log) (udp_send K p1 (BufferViewList_cstr ?d2)) (\<lambda>_. st view (?V4 s) H log)"
    if s: "unused_name V SOCK_DGRAM s" for s
  proof -
    have "ep_name ?x1 \<noteq> Some s"
      using s V(1) e unfolding unused_name_def by (intro s [unfolded unused_name_def, rule_format, of f1]) simp
    then have "owns_name (?V3 s) f2 SOCK_DGRAM s"
      using s ne e by (auto simp: owns_name_def unused_name_def)
    then show ?thesis
      unfolding udp_send_def
      by (intro achieves_conseq [OF st_sendmsg [where H = H and a = p1 and fd = f1 and V = "?V3 s"
            and x = "?x1\<lparr>ep_dest := Some s\<rparr>" and g = f2 and y = "e\<lparr>ep_name := Some s\<rparr>" and b = s, OF L H(1)]])
        (use ne e views in \<open>auto simp: sends_to_def new_end_def\<close>)
  qed
  have recv2: "achieves (st view (?V4 s) H log) (udp_recv K p2 mtu_default) (\<lambda>r w. payload r = ?d2
      \<and> st view (?V5 s) H log w)" for s
    by (rule achieves_conseq [OF st_udp_recv [where H = H and a = p2 and fd = f2 and V = "?V4 s"
          and x = "e\<lparr>ep_name := Some s, ep_queue := [(?d2, ?A)]\<rparr>" and data = ?d2 and s = ?A, OF L H(2)]])
      (use ne e in \<open>auto simp: new_end_def\<close>)
  show ?thesis
    by (rule achieves_bindp [OF send1], rule achieves_ex, rule achieves_pure, elim conjE,
        rule achieves_bindp [OF recv1], assumption, rule achieves_pure, elim conjE,
        rule achieves_bindp [OF connect], assumption, assumption,
        rule achieves_bindp [OF send2], assumption,
        rule achieves_bindp [OF recv2], rule achieves_pure, simp only: check_received_ok,
        rule achieves_conseq [OF achieves_retp_same], assumption, blast)
qed

text \<open>The first example: the scope of the second socket, and the whole.\<close>

abbreviation datagram_talk :: "'k kernel \<Rightarrow> fd_ref \<Rightarrow> fd_ref \<Rightarrow> address \<Rightarrow> ('k world, unit) prog" where
  "datagram_talk K p1 p2 addr \<equiv> thenp (udp_sendto K p2 addr (BufferViewList_cstr (bytes_of ''hi there'')))
    (bindp (udp_recv K p1 mtu_default) (\<lambda>recvd.
     thenp (socket_connect K p1 (source_address recvd))
    (thenp (udp_send K p1 (BufferViewList_cstr (bytes_of ''hi yourself'')))
    (bindp (udp_recv K p2 mtu_default) (\<lambda>recvd2. check_received (payload recvd) (payload recvd2))))))"

abbreviation bound_end :: "int \<Rightarrow> u16 \<Rightarrow> endpoint" where
  "bound_end type port \<equiv> (new_end (uint AF_INET) type)\<lparr>ep_name := Some (sockaddr_in port LOCALHOST)\<rparr>"

lemma st_second_datagram_socket:
  assumes L: "loopback K view" and spare: "spare 2 V" and f1: "usable V f1"
    and port: "unused_name V SOCK_DGRAM (sockaddr_in (portnum random) LOCALHOST)"
  shows "achieves (st view (V(f1 \<mapsto> bound_end SOCK_DGRAM (portnum random))) (H(p1 \<mapsto> (f1, False))) log)
    (in_scope K (UDPSocket K) (\<lambda>p2. bindp (local_host K random) (datagram_talk K p1 p2)))
    (\<lambda>_ w. \<exists>V' H'. ((\<exists>x. V' = V(f1 \<mapsto> x)) \<and> H' = H(p1 \<mapsto> (f1, False))) \<and> st view V' H' log w)"
  unfolding UDPSocket_def
proof (rule st_scope [OF L st_Socket [OF L]])
  let ?e = "new_end (uint AF_INET) SOCK_DGRAM" and ?x1 = "bound_end SOCK_DGRAM (portnum random)"
  let ?P = "\<lambda>V' H'. (\<exists>x. V' = V(f1 \<mapsto> x)) \<and> H' = H(p1 \<mapsto> (f1, False))"
  show "spare 1 (V(f1 \<mapsto> ?x1))" by (rule spare_update) (use spare in \<open>simp add: numeral_2_eq_2\<close>)
  fix p2 f2
  assume f2: "usable (V(f1 \<mapsto> ?x1)) f2" and p2: "(H(p1 \<mapsto> (f1, False))) p2 = None"
  from f2 usable_range [OF f2] have ne: "f1 \<noteq> f2" "V f2 = None" by (auto split: if_splits)
  let ?V = "V(f1 \<mapsto> ?x1, f2 \<mapsto> ?e)" and ?H = "H(p1 \<mapsto> (f1, False), p2 \<mapsto> (f2, False))"
  have "owns_name ?V f1 SOCK_DGRAM (sockaddr_in (portnum random) LOCALHOST)"
    using port ne(1) by (intro owns_name_other owns_name_new) simp_all
  then have run: "achieves (st view ?V ?H log) (datagram_talk K p1 p2 (loop_address (portnum random)))
      (\<lambda>_ w. \<exists>x y. st view (?V(f1 \<mapsto> x, f2 \<mapsto> y)) ?H log w)"
    by (intro st_datagrams [where e = ?e, OF L]) (use ne p2 in \<open>auto split: if_splits\<close>)
  have "achieves (st view ?V ?H log) (bindp (local_host K random) (datagram_talk K p1 p2))
      (\<lambda>_ w. \<exists>x y. st view (?V(f1 \<mapsto> x, f2 \<mapsto> y)) ?H log w)"
    by (rule achieves_bindp [OF st_local_host [OF L]], rule achieves_pure, hypsubst, rule run)
  then show "achieves (st view ?V ?H log) (bindp (local_host K random) (datagram_talk K p1 p2))
      (\<lambda>_. scope_end view ?P log p2 f2)"
  proof (rule achieves_conseq)
    fix w :: "'a world"
    assume "\<exists>x y. st view (?V(f1 \<mapsto> x, f2 \<mapsto> y)) ?H log w"
    then obtain x y where "st view (V(f1 \<mapsto> x, f2 \<mapsto> y)) ?H log w" using ne(1) by (auto simp: fun_upd_twist)
    with ne p2 show "scope_end view ?P log p2 f2 w"
      by (intro scope_endI [of _ "V(f1 \<mapsto> x)" "H(p1 \<mapsto> (f1, False))"]) auto
  qed
qed simp

lemma st_bind_fresh:
  assumes L: "loopback K view" and H: "H p = Some (fd, c)" and "portnum random = port"
    and "unused_name V type (sockaddr_in port LOCALHOST)"
  shows "achieves (st view (V(fd \<mapsto> new_end (uint AF_INET) type)) H log) (socket_bind K p (loop_address port))
    (\<lambda>_. st view (V(fd \<mapsto> bound_end type port)) H log)"
  by (rule achieves_conseq [OF st_bind [where H = H and a = p and fd = fd and V = "V(fd \<mapsto> new_end (uint AF_INET) type)"
        and x = "new_end (uint AF_INET) type", OF L H]])
    (use assms(3,4) portnum_range [of random] in \<open>auto intro: unused_name_update\<close>)

lemma st_example_1:
  assumes L: "loopback K view" and spare: "spare 2 V"
    and port: "unused_name V SOCK_DGRAM (sockaddr_in (portnum random) LOCALHOST)"
  shows "achieves (st view V H log) (socket_example_1 K random) (\<lambda>_. st view V H log)"
proof -
  have "achieves (st view V H log) (socket_example_1 K random)
      (\<lambda>_ w. \<exists>V' H'. (V' = V \<and> H' = H) \<and> st view V' H' log w)"
    unfolding socket_example_1_def UDPSocket_def
  proof (rule st_scope [OF L st_Socket [OF L]])
    show "spare 1 V" using spare by (rule spare_mono) simp
    fix p1 f1
    assume f1: "usable V f1" and p1: "H p1 = None"
    let ?V = "V(f1 \<mapsto> new_end (uint AF_INET) SOCK_DGRAM)" and ?H = "H(p1 \<mapsto> (f1, False))"
    let ?block = "bindp (local_host K random) (\<lambda>addr. thenp (socket_bind K p1 addr)
        (in_scope K (Socket K (uint AF_INET) SOCK_DGRAM) (\<lambda>p2. bindp (local_host K random) (datagram_talk K p1 p2))))"
    have bind: "achieves (st view ?V ?H log) (socket_bind K p1 (loop_address (portnum random)))
        (\<lambda>_. st view (V(f1 \<mapsto> bound_end SOCK_DGRAM (portnum random))) ?H log)"
      by (rule st_bind_fresh [where H = ?H and c = False, OF L _ refl port]) simp
    have "achieves (st view ?V ?H log) ?block
        (\<lambda>_ w. \<exists>V' H'. ((\<exists>x. V' = V(f1 \<mapsto> x)) \<and> H' = ?H) \<and> st view V' H' log w)"
      by (rule achieves_bindp [OF st_local_host [OF L]], rule achieves_pure, hypsubst,
          rule achieves_bindp [OF bind],
          rule st_second_datagram_socket [OF L spare f1 port, unfolded UDPSocket_def])
    then show "achieves (st view ?V ?H log) ?block (\<lambda>_. scope_end view (\<lambda>V' H'. V' = V \<and> H' = H) log p1 f1)"
      by (rule achieves_conseq) (use p1 usable_range [OF f1] in \<open>auto intro!: scope_endI [of _ V H]\<close>)
  qed simp
  then show ?thesis by (rule achieves_conseq) auto
qed

text \<open>
  The end of the second example, once the connection is accepted: the messages, and the three ways to
  end a socket before its destructor runs.
\<close>

lemma st_connected:
  assumes L: "loopback K view"
    and H: "H p1 = Some (f1, False)" "H p2 = Some (f2, False)" "H p3 = Some (f3, False)" and p: "distinct [p1, p2, p3]"
    and f: "distinct [f1, f2, f3]"
    and V: "V f1 \<noteq> None" "V f2 = Some x" "ep_peer x = Some f3" "ep_inbox x = []"
      "V f3 = Some y" "ep_peer y = Some f2" "ep_inbox y = []" "ep_type y = SOCK_STREAM"
  shows "achieves (st view V H log)
    (thenp (fd_write_cstr K p3 (bytes_of ''hi there'') True)
    (bindp (fd_read K p2 read_limit_max) (\<lambda>recvd.
     thenp (fd_write_cstr K p2 (bytes_of ''hi yourself'') True)
    (bindp (fd_read K p3 read_limit_max) (\<lambda>recvd2.
     thenp (fd_close K p1)
    (thenp (fd_close K p2)
    (thenp (socket_shutdown K p3 SHUT_RDWR)
     (check_received recvd recvd2))))))))
    (\<lambda>_. st view (V(f1 := None, f2 := None, f3 \<mapsto> y\<lparr>ep_peer := None\<rparr>)) (H(p1 \<mapsto> (f1, True), p2 \<mapsto> (f2, True))) log)"
proof (rule st_exchange [where x = y and y = x, OF L H(3,2)])
  obtain z where z: "V f1 = Some z" using V(1) by blast
  let ?V1 = "V(f1 := None)" and ?H1 = "H(p1 \<mapsto> (f1, True))"
  let ?V2 = "?V1(f2 := None)" and ?H2 = "?H1(p2 \<mapsto> (f2, True))"
  have close1: "achieves (st view V H log) (fd_close K p1) (\<lambda>_. st view ?V1 ?H1 log)"
    by (rule st_close [where H = H and a = p1 and V = V and fd = f1, OF L H(1) z])
  have close2: "achieves (st view ?V1 ?H1 log) (fd_close K p2) (\<lambda>_. st view ?V2 ?H2 log)"
    by (rule st_close [where H = ?H1 and a = p2 and V = ?V1 and fd = f2 and c = False, OF L])
      (use H p f V in auto)
  have down: "achieves (st view ?V2 ?H2 log) (socket_shutdown K p3 SHUT_RDWR)
      (\<lambda>_. st view (?V2(f3 \<mapsto> y\<lparr>ep_peer := None\<rparr>)) ?H2 log)"
    by (rule st_shutdown [where H = ?H2 and a = p3 and V = ?V2 and fd = f3 and c = False, OF L])
      (use H p f V in auto)
  show "achieves (st view V H log)
     (thenp (fd_close K p1) (thenp (fd_close K p2) (thenp (socket_shutdown K p3 SHUT_RDWR)
       (check_received (bytes_of ''hi there'') (bytes_of ''hi yourself'')))))
     (\<lambda>_. st view (?V2(f3 \<mapsto> y\<lparr>ep_peer := None\<rparr>)) ?H2 log)"
    unfolding check_received_ok
    by (rule achieves_bindp [OF close1], rule achieves_bindp [OF close2], rule achieves_bindp [OF down],
        rule achieves_retp_same)
qed (use V f in simp_all)

text \<open>The second example from the inside out: the accepted socket, the client, the listener.\<close>

abbreviation stream_talk :: "'k kernel \<Rightarrow> fd_ref \<Rightarrow> fd_ref \<Rightarrow> fd_ref \<Rightarrow> ('k world, unit) prog" where
  "stream_talk K p1 p2 p3 \<equiv> thenp (fd_write_cstr K p3 (bytes_of ''hi there'') True)
    (bindp (fd_read K p2 read_limit_max) (\<lambda>recvd.
     thenp (fd_write_cstr K p2 (bytes_of ''hi yourself'') True)
    (bindp (fd_read K p3 read_limit_max) (\<lambda>recvd2.
     thenp (fd_close K p1)
    (thenp (fd_close K p2)
    (thenp (socket_shutdown K p3 SHUT_RDWR)
     (check_received recvd recvd2)))))))"

abbreviation listening :: "u16 \<Rightarrow> int list \<Rightarrow> endpoint" where
  "listening port pending \<equiv> (bound_end SOCK_STREAM port)\<lparr>ep_pending := Some pending\<rparr>"

lemma st_accepted_socket:
  assumes L: "loopback K view" and spare: "spare 3 V"
    and u: "usable V f1" "usable V f2" "f1 \<noteq> f2" and p: "H p1 = None" "H p2 = None" "p1 \<noteq> p2"
    and client: "client = (new_end (uint AF_INET) SOCK_STREAM)\<lparr>ep_name := Some s\<rparr>"
  shows "achieves
    (st view (V(f1 \<mapsto> listening port [f2], f2 \<mapsto> client)) (H(p1 \<mapsto> (f1, False), p2 \<mapsto> (f2, False))) log)
    (in_scope K (tcp_accept K p1) (stream_talk K p1 p2))
    (\<lambda>_ w. \<exists>V' H'. (V' = V \<and> H' = H(p1 \<mapsto> (f1, True), p2 \<mapsto> (f2, True))) \<and> st view V' H' log w)"
proof (rule st_scope [OF L])
  let ?y = "(bound_end SOCK_STREAM port)\<lparr>ep_peer := Some f2\<rparr>"
  let ?V = "V(f1 \<mapsto> listening port [f2], f2 \<mapsto> client)"
  let ?H = "H(p1 \<mapsto> (f1, False), p2 \<mapsto> (f2, False))" and ?H' = "H(p1 \<mapsto> (f1, True), p2 \<mapsto> (f2, True))"
  let ?W = "\<lambda>n. ?V(f1 \<mapsto> listening port [], f2 \<mapsto> client\<lparr>ep_peer := Some n\<rparr>, n \<mapsto> ?y)"
  have "spare 1 ?V" by (rule spare_update, rule spare_update) (use spare in \<open>simp add: numeral_3_eq_3\<close>)
  then show "achieves (st view ?V ?H log) (tcp_accept K p1)
      (\<lambda>a w. \<exists>n. usable ?V n \<and> ?H a = None \<and> st view (?W n) (?H(a \<mapsto> (n, False))) log w)"
    by (intro achieves_conseq [OF st_accept [where H = ?H and a = p1 and fd = f1 and V = ?V and d = f2 and ds = "[]"
          and x = "listening port [f2]" and y = client, OF L]])
      (use u p client in \<open>auto simp: new_end_def\<close>)
  fix p3 f3
  assume f3: "usable ?V f3" and p3: "?H p3 = None"
  from f3 usable_range [OF f3] have ne: "f3 \<noteq> f1" "f3 \<noteq> f2" "V f3 = None" by (auto split: if_splits)
  from p3 p have ps: "p3 \<noteq> p1" "p3 \<noteq> p2" "H p3 = None" by (auto split: if_splits)
  have none: "V f1 = None" "V f2 = None" using usable_range u by blast+
  have "achieves (st view (?W f3) (?H(p3 \<mapsto> (f3, False))) log) (stream_talk K p1 p2 p3)
    (\<lambda>_. st view ((?W f3)(f1 := None, f2 := None, f3 \<mapsto> ?y\<lparr>ep_peer := None\<rparr>))
       ((?H(p3 \<mapsto> (f3, False)))(p1 \<mapsto> (f1, True), p2 \<mapsto> (f2, True))) log)"
    by (rule st_connected [where V = "?W f3" and H = "?H(p3 \<mapsto> (f3, False))"
          and x = "client\<lparr>ep_peer := Some f3\<rparr>" and ?f3.0 = f3, OF L])
      (use u p ps ne client in auto)
  moreover have "(?W f3)(f1 := None, f2 := None, f3 \<mapsto> z) = V(f3 \<mapsto> z)" for z
    using none ne by (auto simp: fun_eq_iff)
  moreover have "(?H(p3 \<mapsto> (f3, False)))(p1 \<mapsto> (f1, True), p2 \<mapsto> (f2, True)) = ?H'(p3 \<mapsto> (f3, False))"
    using ps by (auto simp: fun_eq_iff)
  ultimately show "achieves (st view (?W f3) (?H(p3 \<mapsto> (f3, False))) log) (stream_talk K p1 p2 p3)
      (\<lambda>_. scope_end view (\<lambda>V' H'. V' = V \<and> H' = ?H') log p3 f3)"
    by (elim achieves_conseq) (use ne ps in \<open>auto intro!: scope_endI [of _ V ?H']\<close>)
qed

lemma st_client:
  assumes L: "loopback K view" and spare: "spare 3 V" and u: "usable V f1" and p1: "H p1 = None"
    and port: "unused_name V SOCK_STREAM (sockaddr_in (portnum random) LOCALHOST)"
  shows "achieves (st view (V(f1 \<mapsto> listening (portnum random) [])) (H(p1 \<mapsto> (f1, False))) log)
    (in_scope K (TCPSocket K) (\<lambda>p2. bindp (local_host K random) (\<lambda>addr. thenp (socket_connect K p2 addr)
      (in_scope K (tcp_accept K p1) (stream_talk K p1 p2)))))
    (\<lambda>_ w. \<exists>V' H'. (V' = V \<and> H' = H(p1 \<mapsto> (f1, True))) \<and> st view V' H' log w)"
  unfolding TCPSocket_def
proof (rule st_scope [OF L st_Socket [OF L]])
  let ?e = "new_end (uint AF_INET) SOCK_STREAM" and ?port = "portnum random"
  let ?x1 = "listening ?port []"
  show "spare 1 (V(f1 \<mapsto> ?x1))" by (rule spare_update, rule spare_mono [OF spare]) simp
  fix p2 f2
  let ?V1 = "V(f1 \<mapsto> ?x1, f2 \<mapsto> ?e)" and ?H = "H(p1 \<mapsto> (f1, False), p2 \<mapsto> (f2, False))"
  let ?V2 = "\<lambda>s. V(f1 \<mapsto> listening ?port [f2], f2 \<mapsto> ?e\<lparr>ep_name := Some s\<rparr>)"
  let ?block = "bindp (local_host K random) (\<lambda>addr. thenp (socket_connect K p2 addr)
    (in_scope K (tcp_accept K p1) (stream_talk K p1 p2)))"
  assume f2: "usable (V(f1 \<mapsto> ?x1)) f2" and p2: "(H(p1 \<mapsto> (f1, False))) p2 = None"
  from f2 have ne: "f1 \<noteq> f2" "usable V f2" by (auto simp: usable_def split: if_splits)
  from p2 have ps: "p1 \<noteq> p2" "H p2 = None" by (auto split: if_splits)
  have "owns_name ?V1 f1 SOCK_STREAM (sockaddr_in ?port LOCALHOST)"
    using port ne(1) by (intro owns_name_other owns_name_new) simp_all
  then have connect: "achieves (st view ?V1 ?H log) (socket_connect K p2 (loop_address ?port))
      (\<lambda>_ w. \<exists>s. st view (?V2 s) ?H log w)"
    by (intro achieves_conseq [OF st_tcp_connect [where H = ?H and a = p2 and fd = f2 and V = ?V1 and g = f1
          and x = ?e and y = ?x1 and c = False, OF L]])
      (use ne ps in \<open>auto simp: fun_upd_twist\<close>)
  have "achieves (st view ?V1 ?H log) ?block
      (\<lambda>_ w. \<exists>V' H'. (V' = V \<and> H' = H(p1 \<mapsto> (f1, True), p2 \<mapsto> (f2, True))) \<and> st view V' H' log w)"
    by (rule achieves_bindp [OF st_local_host [OF L]], rule achieves_pure, hypsubst,
        rule achieves_bindp [OF connect], rule achieves_ex,
        rule st_accepted_socket [OF L spare u ne(2,1) p1 ps(2,1) refl])
  then show "achieves (st view ?V1 ?H log) ?block
      (\<lambda>_. scope_end view (\<lambda>V' H'. V' = V \<and> H' = H(p1 \<mapsto> (f1, True))) log p2 f2)"
    by (rule achieves_conseq) (use ps in \<open>auto intro!: scope_end_closedI [of _ V "H(p1 \<mapsto> (f1, True))"]\<close>)
qed simp

lemma st_example_2:
  assumes L: "loopback K view" and spare: "spare 3 V"
    and port: "unused_name V SOCK_STREAM (sockaddr_in (portnum random) LOCALHOST)"
  shows "achieves (st view V H log) (socket_example_2 K random) (\<lambda>_. st view V H log)"
proof -
  have "achieves (st view V H log) (socket_example_2 K random)
      (\<lambda>_ w. \<exists>V' H'. (V' = V \<and> H' = H) \<and> st view V' H' log w)"
    unfolding socket_example_2_def TCPSocket_def
  proof (rule st_scope [OF L st_Socket [OF L]])
    show "spare 1 V" using spare by (rule spare_mono) simp
    fix p1 f1
    let ?V = "V(f1 \<mapsto> new_end (uint AF_INET) SOCK_STREAM)" and ?H = "H(p1 \<mapsto> (f1, False))"
    let ?x0 = "bound_end SOCK_STREAM (portnum random)"
    let ?block = "bindp (local_host K random) (\<lambda>addr. thenp (socket_bind K p1 addr) (thenp (tcp_listen K p1 1)
      (in_scope K (Socket K (uint AF_INET) SOCK_STREAM) (\<lambda>p2. bindp (local_host K random)
        (\<lambda>addr. thenp (socket_connect K p2 addr) (in_scope K (tcp_accept K p1) (stream_talk K p1 p2)))))))"
    assume f1: "usable V f1" and p1: "H p1 = None"
    have bind: "achieves (st view ?V ?H log) (socket_bind K p1 (loop_address (portnum random)))
        (\<lambda>_. st view (V(f1 \<mapsto> ?x0)) ?H log)"
      by (rule st_bind_fresh [where H = ?H and c = False, OF L _ refl port]) simp
    have listen: "achieves (st view (V(f1 \<mapsto> ?x0)) ?H log) (tcp_listen K p1 1)
        (\<lambda>_. st view (V(f1 \<mapsto> listening (portnum random) [])) ?H log)"
      by (rule achieves_conseq [OF st_listen [where H = ?H and a = p1 and fd = f1 and V = "V(f1 \<mapsto> ?x0)" and x = ?x0, OF L]])
        auto
    have "achieves (st view ?V ?H log) ?block
        (\<lambda>_ w. \<exists>V' H'. (V' = V \<and> H' = H(p1 \<mapsto> (f1, True))) \<and> st view V' H' log w)"
      by (rule achieves_bindp [OF st_local_host [OF L]], rule achieves_pure, hypsubst,
          rule achieves_bindp [OF bind], rule achieves_bindp [OF listen],
          rule st_client [where H = H, OF L spare f1 p1 port, unfolded TCPSocket_def])
    then show "achieves (st view ?V ?H log) ?block (\<lambda>_. scope_end view (\<lambda>V' H'. V' = V \<and> H' = H) log p1 f1)"
      by (rule achieves_conseq) (use p1 in \<open>auto intro!: scope_end_closedI [of _ V H]\<close>)
  qed simp
  then show ?thesis by (rule achieves_conseq) auto
qed

section \<open>Properties\<close>


lemma all_free: "free_numbers (\<lambda>_. None) = numbers"
  by (simp add: free_numbers_def)


end
