(* ===== verification/Random_Generator.thy ===== *)
theory Random_Generator
  imports Sponge_Prelude
begin

text \<open>
  The random generator of the tests: \<open>get_random_generator\<close> of \<open>libsponge/util/util.hh\<close> and
  \<open>libsponge/util/util.cc\<close>, with what it uses of the standard library: \<open>std::generate\<close>,
  \<open>std::seed_seq\<close> and the Mersenne twister \<open>std::mt19937\<close>, whose algorithms the C++ standard fixes.

  The random device is outside the program: a program over a state of its own, which may throw. A
  generator is the list of its last 624 numbers, oldest first.

  The lemmas: the generator takes exactly 624 numbers of the device, and its state is never the one
  from which the Mersenne twister produces nothing but zeros, neither after seeding nor later.
\<close>

section \<open>Standard library\<close>

text \<open>\<open>std::generate\<close>: the results of \<open>n\<close> calls in order.\<close>

primrec generatep :: "nat \<Rightarrow> ('s, 'a) prog \<Rightarrow> ('s, 'a list) prog" where
  "generatep 0 m = retp []"
| "generatep (Suc n) m = bindp m (\<lambda>x. bindp (generatep n m) (\<lambda>xs. retp (x # xs)))"

text \<open>\<open>std::seed_seq\<close> is the vector of the numbers it was given.\<close>

type_synonym seed_seq = "u32 list"

definition seed_mix :: "u32 \<Rightarrow> u32" where
  "seed_mix x = x XOR drop_bit 27 x"

definition seed_offsets :: "nat \<Rightarrow> nat \<times> nat" where
  "seed_offsets n =
     (let t = (if n \<ge> 623 then 11 else if n \<ge> 68 then 7 else if n \<ge> 39 then 5 else if n \<ge> 7 then 3 else (n - 1) div 2);
          p = (n - t) div 2
      in (p, p + t))"

definition seed_round1 :: "seed_seq \<Rightarrow> nat \<Rightarrow> u32 list \<Rightarrow> u32 list" where
  "seed_round1 v k xs =
     (let n = length xs; s = length v; (p, q) = seed_offsets n;
          i = k mod n; ip = (k + p) mod n; iq = (k + q) mod n;
          r1 = 1664525 * seed_mix (xs ! i XOR xs ! ip XOR xs ! ((k + n - 1) mod n));
          r2 = r1 + (if k = 0 then word_of_nat s
                     else if k \<le> s then word_of_nat (k mod n) + v ! (k - 1) else word_of_nat (k mod n));
          xs = xs[ip := xs ! ip + r1];
          xs = xs[iq := xs ! iq + r2]
      in xs[i := r2])"

definition seed_round2 :: "nat \<Rightarrow> u32 list \<Rightarrow> u32 list" where
  "seed_round2 k xs =
     (let n = length xs; (p, q) = seed_offsets n;
          i = k mod n; ip = (k + p) mod n; iq = (k + q) mod n;
          r3 = 1566083941 * seed_mix (xs ! i + xs ! ip + xs ! ((k + n - 1) mod n));
          r4 = r3 - word_of_nat (k mod n);
          xs = xs[ip := xs ! ip XOR r3];
          xs = xs[iq := xs ! iq XOR r4]
      in xs[i := r4])"

text \<open>\<open>seed_seq::generate\<close> into a range of \<open>n\<close> numbers.\<close>

definition seed_seq_generate :: "seed_seq \<Rightarrow> nat \<Rightarrow> u32 list" where
  "seed_seq_generate v n =
     (if n = 0 then []
      else let m = max (length v + 1) n
           in fold seed_round2 [m ..< m + n] (fold (seed_round1 v) [0 ..< m] (replicate n 0x8b8b8b8b)))"

type_synonym mt19937 = "u32 list"

definition mt_state_size :: nat where "mt_state_size = 624"
definition mt_shift_size :: nat where "mt_shift_size = 397"
definition mt_upper_mask :: u32 where "mt_upper_mask = 0x80000000"
definition mt_lower_mask :: u32 where "mt_lower_mask = 0x7fffffff"
definition mt_xor_mask :: u32 where "mt_xor_mask = 0x9908b0df"

text \<open>Construction from a seed sequence: an all-zero result gets its top bit set.\<close>

definition mt19937_seed :: "seed_seq \<Rightarrow> mt19937" where
  "mt19937_seed q =
     (let a = seed_seq_generate q mt_state_size
      in if a ! 0 AND mt_upper_mask = 0 \<and> list_all (\<lambda>x. x = 0) (tl a) then a[0 := mt_upper_mask] else a)"

definition mt_twist :: "mt19937 \<Rightarrow> u32" where
  "mt_twist x =
     (let y = (x ! 0 AND mt_upper_mask) OR (x ! 1 AND mt_lower_mask)
      in x ! mt_shift_size XOR drop_bit 1 y XOR (if bit y 0 then mt_xor_mask else 0))"

definition mt_temper :: "u32 \<Rightarrow> u32" where
  "mt_temper z =
     (let z = z XOR drop_bit 11 z;
          z = z XOR (push_bit 7 z AND 0x9d2c5680);
          z = z XOR (push_bit 15 z AND 0xefc60000)
      in z XOR drop_bit 18 z)"

text \<open>\<open>rd()\<close>: the next number of the generator.\<close>

definition mt_next :: "(mt19937, u32) prog" where
  "mt_next = (\<lambda>x. (Ok (mt_temper (mt_twist x)), tl x @ [mt_twist x]))"

section \<open>\<open>get_random_generator\<close>\<close>

definition get_random_generator :: "('d, u32) prog \<Rightarrow> ('d, mt19937) prog" where
  "get_random_generator rd =
     bindp (generatep mt_state_size rd) (\<lambda>seed_data. retp (mt19937_seed seed_data))"

section \<open>The generator never dies\<close>

text \<open>
  The 19937 bits that matter are the top bit of the oldest number and the others entirely; if all are
  zero, every further number is zero.
\<close>

definition mt_alive :: "mt19937 \<Rightarrow> bool" where
  "mt_alive x \<longleftrightarrow> length x = mt_state_size \<and> (bit (x ! 0) 31 \<or> (\<exists>i. 0 < i \<and> i < mt_state_size \<and> x ! i \<noteq> 0))"

lemma length_seed_rounds [simp]:
  "length (seed_round1 v k xs) = length xs" "length (seed_round2 k xs) = length xs"
  by (simp_all add: seed_round1_def seed_round2_def Let_def split: prod.split)

lemma length_fold_rounds [simp]:
  "length (fold (seed_round1 v) ks xs) = length xs" "length (fold seed_round2 ks xs) = length xs"
  by (induction ks arbitrary: xs) simp_all

lemma length_seed_seq_generate [simp]: "length (seed_seq_generate v n) = n"
  by (simp add: seed_seq_generate_def Let_def)

lemma bit_upper_mask: "bit mt_upper_mask n \<longleftrightarrow> n = 31"
proof -
  have "mt_upper_mask = push_bit 31 1" by (simp add: mt_upper_mask_def)
  moreover have "bit (push_bit 31 (1 :: u32)) n \<longleftrightarrow> n = 31" by (simp only: bit_simps) auto
  ultimately show ?thesis by simp
qed

lemma bit_lower_mask: "bit mt_lower_mask n \<longleftrightarrow> n < 31"
proof -
  have "mt_lower_mask = mask 31" by (simp add: mt_lower_mask_def mask_eq_exp_minus_1)
  moreover have "bit (mask 31 :: u32) n \<longleftrightarrow> n < 31" by (simp only: bit_simps) auto
  ultimately show ?thesis by simp
qed

lemma upper_zero: "(x :: u32) AND mt_upper_mask = 0 \<longleftrightarrow> \<not> bit x 31"
proof
  assume "x AND mt_upper_mask = 0"
  then have "\<not> bit (x AND mt_upper_mask) 31" by simp
  then show "\<not> bit x 31" by (simp add: bit_and_iff bit_upper_mask)
next
  assume "\<not> bit x 31"
  then show "x AND mt_upper_mask = 0" by (intro bit_word_eqI) (auto simp: bit_and_iff bit_upper_mask)
qed

lemma mt_alive_seed: "mt_alive (mt19937_seed q)"
proof -
  let ?a = "seed_seq_generate q mt_state_size"
  have len: "length ?a = mt_state_size" "mt_state_size > 0" by (simp_all add: mt_state_size_def)
  show ?thesis
  proof (cases "?a ! 0 AND mt_upper_mask = 0 \<and> list_all (\<lambda>x. x = 0) (tl ?a)")
    case True
    with len show ?thesis by (simp add: mt19937_seed_def mt_alive_def bit_upper_mask)
  next
    case False
    then consider "bit (?a ! 0) 31" | j where "j < length (tl ?a)" "tl ?a ! j \<noteq> 0"
      by (auto simp: upper_zero list_all_length)
    then show ?thesis
    proof cases
      case 1
      with len False show ?thesis by (auto simp: mt19937_seed_def mt_alive_def)
    next
      case 2
      then have "Suc j < mt_state_size" "?a ! Suc j \<noteq> 0" using len by (auto simp: nth_tl)
      with len False show ?thesis by (auto simp: mt19937_seed_def mt_alive_def)
    qed
  qed
qed

lemma bit_xor_mask_31: "bit mt_xor_mask 31"
  by (simp add: mt_xor_mask_def bit_numeral_word_iff)

text \<open>If the new number is zero although the one 397 places on is, then the bits it was made of are zero.\<close>

lemma mt_twist_zero:
  assumes "mt_twist x = 0" and "x ! mt_shift_size = 0"
  shows "\<not> bit (x ! 0) 31" and "\<And>n. n < 31 \<Longrightarrow> \<not> bit (x ! 1) n"
proof -
  define y where "y = (x ! 0 AND mt_upper_mask) OR (x ! 1 AND mt_lower_mask)"
  have z: "drop_bit 1 y XOR (if bit y 0 then mt_xor_mask else 0) = 0"
    using assms by (simp add: mt_twist_def Let_def y_def)
  have low: "\<not> bit y 0"
  proof (rule ccontr)
    assume "\<not> \<not> bit y 0"
    with z have "\<not> bit (drop_bit 1 y XOR mt_xor_mask) 31" by simp
    moreover have "\<not> bit (drop_bit 1 y) 31"
      using bit_imp_le_length [of y 32] by (auto simp: bit_drop_bit_eq)
    ultimately show False using bit_xor_mask_31 by (simp add: bit_xor_iff)
  qed
  from low z have shifted: "drop_bit 1 y = 0" by simp
  have none: "\<not> bit y n" for n
  proof (cases n)
    case 0
    with low show ?thesis by simp
  next
    case (Suc m)
    from shifted have "\<not> bit (drop_bit 1 y) m" by simp
    with Suc show ?thesis by (simp only: bit_drop_bit_eq comp_apply plus_1_eq_Suc simp_thms)
  qed
  from none [of 31] show "\<not> bit (x ! 0) 31" by (simp add: bit_simps bit_upper_mask y_def)
  fix n :: nat
  assume "n < 31"
  with none [of n] show "\<not> bit (x ! 1) n" by (simp add: bit_simps bit_lower_mask y_def)
qed

lemma mt_alive_next:
  assumes "mt_alive x"
  shows "mt_alive (snd (mt_next x))"
proof (rule ccontr)
  assume dead: "\<not> mt_alive (snd (mt_next x))"
  have len: "length x = mt_state_size" using assms by (simp add: mt_alive_def)
  let ?x = "tl x @ [mt_twist x]"
  have nth: "?x ! i = x ! Suc i" if "Suc i < mt_state_size" for i
    using that len by (simp add: nth_append nth_tl less_diff_conv)
  have last: "?x ! (mt_state_size - 1) = mt_twist x" using len by (simp add: nth_append)
  from dead len have zero: "\<not> bit (?x ! 0) 31" "\<And>i. 0 < i \<Longrightarrow> i < mt_state_size \<Longrightarrow> ?x ! i = 0"
    by (auto simp: mt_alive_def mt_next_def mt_state_size_def)
  have rest: "x ! i = 0" if "1 < i" "i < mt_state_size" for i
    using zero(2) [of "i - 1"] nth [of "i - 1"] that by simp
  have "mt_twist x = 0" using zero(2) [of "mt_state_size - 1"] last by (simp add: mt_state_size_def)
  moreover have "x ! mt_shift_size = 0" by (rule rest) (simp_all add: mt_shift_size_def mt_state_size_def)
  ultimately have low: "\<not> bit (x ! 0) 31" "\<And>n. n < 31 \<Longrightarrow> \<not> bit (x ! 1) n"
    by (rule mt_twist_zero)+
  have "\<not> bit (x ! 1) 31" using zero(1) nth [of 0] by (simp add: mt_state_size_def)
  with low(2) have "\<not> bit (x ! 1) n" for n
    using bit_imp_le_length [of "x ! 1" n] by (cases n "31 :: nat" rule: linorder_cases) auto
  then have "x ! 1 = 0" by (intro bit_word_eqI) simp
  with rest have "x ! i = 0" if "0 < i" "i < mt_state_size" for i
    using that by (cases "i = 1") simp_all
  with low(1) assms show False by (auto simp: mt_alive_def)
qed

section \<open>Seeding\<close>

lemma generatep_Ok:
  assumes "\<forall>s. \<exists>x s'. m s = (Ok x, s')"
  shows "\<exists>xs s'. generatep n m s = (Ok xs, s') \<and> length xs = n"
proof (induction n arbitrary: s)
  case (Suc n)
  from assms obtain x s1 where "m s = (Ok x, s1)" by blast
  moreover from Suc obtain xs s' where "generatep n m s1 = (Ok xs, s')" "length xs = n" by blast
  ultimately show ?case by (simp add: prog_simps)
qed (simp add: retp_def)

text \<open>Later states of the generator.\<close>

fun mt_after :: "nat \<Rightarrow> mt19937 \<Rightarrow> mt19937" where
  "mt_after 0 x = x"
| "mt_after (Suc n) x = mt_after n (snd (mt_next x))"

lemma mt_alive_after: "mt_alive x \<Longrightarrow> mt_alive (mt_after n x)"
  by (induction n x rule: mt_after.induct) (simp_all add: mt_alive_next)

lemma get_random_generator_Ok:
  assumes "\<forall>s. \<exists>x s'. device s = (Ok x, s')"
  shows "\<exists>x s'. get_random_generator device s = (Ok x, s') \<and> (\<forall>n. mt_alive (mt_after n x))"
  using generatep_Ok [OF assms, of mt_state_size s] mt_alive_after [OF mt_alive_seed]
  by (auto simp: get_random_generator_def prog_simps)

section \<open>Properties\<close>



end
