(* ===== verification/Byte_Stream_Tests.thy ===== *)
theory Byte_Stream_Tests
  imports Byte_Stream Random_Generator
begin

text \<open>
  The test harness of the byte stream and the five test programs that use it:
  \<open>tests/byte_stream_test_harness.hh\<close>, \<open>tests/byte_stream_test_harness.cc\<close>,
  \<open>tests/byte_stream_construction.cc\<close>, \<open>byte_stream_one_write.cc\<close>, \<open>byte_stream_two_writes.cc\<close>,
  \<open>byte_stream_capacity.cc\<close> and \<open>byte_stream_many_writes.cc\<close>.

  The step classes are the constructors of one datatype, their members \<open>description\<close> and \<open>execute\<close>
  functions on it. A \<open>ByteStreamExpectationViolation\<close> is a \<open>Runtime_error\<close> (the byte stream throws none
  itself). A test runs in a state of its harness and what was printed on \<open>cerr\<close>. Also here are the
  helpers of \<open>tests/test_err_if.hh\<close> and \<open>tests/test_should_be.hh\<close>, which no test includes.

  The lemmas: every test program passes and prints nothing, the last one whatever numbers its random
  device gives. They check the model of the byte stream against the expectations of the tests.
\<close>

section \<open>The harness\<close>

datatype test_step =
    EndInput
  | Write bytes "size_t option"
  | Pop size_t
  | InputEnded bool
  | BufferEmpty bool
  | Eof bool
  | BufferSize size_t
  | RemainingCapacity size_t
  | BytesWritten size_t
  | BytesRead size_t
  | Peek bytes

text \<open>Bytes as characters, as a message contains them; a line feed and a tabulator.\<close>

definition chars :: "bytes \<Rightarrow> string" where
  "chars = map (\<lambda>b. char_of (unat b))"

definition lf :: string where "lf = [CHR 0x0a]"
definition tab :: string where "tab = [CHR 0x09]"

definition bool_string :: "bool \<Rightarrow> string" where
  "bool_string b = int_to_string (of_bool b)"

definition size_string :: "size_t \<Rightarrow> string" where
  "size_string n = int_to_string (uint n)"

fun description :: "test_step \<Rightarrow> string" where
  "description EndInput = ''end input''"
| "description (Write data _) = ''write \"'' @ chars data @ ''\" to the stream''"
| "description (Pop len) = ''pop '' @ size_string len"
| "description (InputEnded b) = ''input_ended: '' @ bool_string b"
| "description (BufferEmpty b) = ''buffer_empty: '' @ bool_string b"
| "description (Eof b) = ''eof: '' @ bool_string b"
| "description (BufferSize n) = ''buffer_size: '' @ size_string n"
| "description (RemainingCapacity n) = ''remaining_capacity: '' @ size_string n"
| "description (BytesWritten n) = ''bytes_written: '' @ size_string n"
| "description (BytesRead n) = ''bytes_read: '' @ size_string n"
| "description (Peek output) = ''\"'' @ chars output @ ''\" at the front of the stream''"

text \<open>The conversion of a step to a string: actions and expectations.\<close>

fun is_action :: "test_step \<Rightarrow> bool" where
  "is_action EndInput = True"
| "is_action (Write _ _) = True"
| "is_action (Pop _) = True"
| "is_action _ = False"

definition step_string :: "test_step \<Rightarrow> string" where
  "step_string step = (if is_action step then ''     Action: '' else ''Expectation: '') @ description step"

definition property_violation :: "string \<Rightarrow> int \<Rightarrow> int \<Rightarrow> exn" where
  "property_violation property_name expected actual =
     Runtime_error (''The ByteStream should have had '' @ property_name @ '' equal to ''
       @ int_to_string expected @ '' but instead it was '' @ int_to_string actual)"

definition expect_size :: "string \<Rightarrow> size_t \<Rightarrow> (byte_stream \<Rightarrow> size_t) \<Rightarrow> (byte_stream, unit) prog" where
  "expect_size property_name expected f =
     bindp (getp f) (\<lambda>actual. if actual \<noteq> expected
       then throwp (property_violation property_name (uint expected) (uint actual)) else retp ())"

definition expect_bool :: "string \<Rightarrow> bool \<Rightarrow> (byte_stream \<Rightarrow> bool) \<Rightarrow> (byte_stream, unit) prog" where
  "expect_bool property_name expected f =
     bindp (getp f) (\<lambda>actual. if actual \<noteq> expected
       then throwp (property_violation property_name (of_bool expected) (of_bool actual)) else retp ())"

fun step_execute :: "test_step \<Rightarrow> (byte_stream, unit) prog" where
  "step_execute EndInput = modifyp stream_end_input"
| "step_execute (Write data expected) =
     bindp (stream_write data) (\<lambda>bytes_written. case expected of
       None \<Rightarrow> retp ()
     | Some n \<Rightarrow> if bytes_written \<noteq> n
         then throwp (property_violation ''bytes_written'' (uint n) (uint bytes_written)) else retp ())"
| "step_execute (Pop len) = stream_pop_output len"
| "step_execute (InputEnded b) = expect_bool ''input_ended'' b stream_input_ended"
| "step_execute (BufferEmpty b) = expect_bool ''buffer_empty'' b stream_buffer_empty"
| "step_execute (Eof b) = expect_bool ''eof'' b stream_eof"
| "step_execute (BufferSize n) = expect_size ''buffer_size'' n stream_buffer_size"
| "step_execute (RemainingCapacity n) = expect_size ''remaining_capacity'' n stream_remaining_capacity"
| "step_execute (BytesWritten n) = expect_size ''bytes_written'' n stream_bytes_written"
| "step_execute (BytesRead n) = expect_size ''bytes_read'' n stream_bytes_read"
| "step_execute (Peek expected) =
     bindp (stream_peek_output (csize expected)) (\<lambda>found. if found \<noteq> expected
       then throwp (Runtime_error (''Expected \"'' @ chars expected @ ''\" at the front of the stream, but found \"''
         @ chars found @ ''\"'')) else retp ())"

record test_harness =
  th_test_name :: string
  th_byte_stream :: byte_stream
  th_steps_executed :: "string list"

definition ByteStreamTestHarness :: "string \<Rightarrow> size_t \<Rightarrow> test_harness" where
  "ByteStreamTestHarness test_name capacity =
     \<lparr>th_test_name = test_name, th_byte_stream = ByteStream capacity,
      th_steps_executed = [''Initialized with (capacity='' @ size_string capacity @ '')'']\<rparr>"

text \<open>The harness of a test and what was printed on \<open>cerr\<close>.\<close>

type_synonym test_run = "test_harness \<times> string"

definition print_err :: "string \<Rightarrow> (test_run, unit) prog" where
  "print_err s = modifyp (\<lambda>(h, err). (h, err @ s))"

definition report_failure ::
  "(exn \<Rightarrow> string) \<Rightarrow> test_step \<Rightarrow> string \<Rightarrow> exn \<Rightarrow> string \<Rightarrow> (test_run, unit) prog" where
  "report_failure message step heading e verdict =
     bindp (getp fst) (\<lambda>this.
     thenp (print_err (''Test Failure on expectation:'' @ lf @ tab @ step_string step))
     (thenp (print_err (lf @ lf @ heading @ lf @ tab @ exn_what message e))
     (thenp (print_err (lf @ lf @ ''List of steps that executed successfully:''))
     (thenp (print_err (concat (map (\<lambda>s. lf @ tab @ s) (th_steps_executed this))))
     (thenp (print_err (lf @ lf))
            (throwp (Runtime_error (''The test \"'' @ th_test_name this @ verdict))))))))"

definition harness_execute :: "(exn \<Rightarrow> string) \<Rightarrow> test_step \<Rightarrow> (test_run, unit) prog" where
  "harness_execute message step =
     catchp
       (thenp (zoomp (th_byte_stream \<circ> fst) (\<lambda>bs (h, err). (h\<lparr>th_byte_stream := bs\<rparr>, err)) (step_execute step))
         (modifyp (\<lambda>(h, err). (h\<lparr>th_steps_executed := th_steps_executed h @ [step_string step]\<rparr>, err))))
       (\<lambda>e. case e of
          Runtime_error _ \<Rightarrow> report_failure message step ''Failure message:'' e ''\" failed''
        | _ \<Rightarrow> report_failure message step ''Exception:'' e
             ''\" caused your implementation to throw an exception!'')"

primrec execute_all :: "(exn \<Rightarrow> string) \<Rightarrow> test_step list \<Rightarrow> (test_run, unit) prog" where
  "execute_all message [] = retp ()"
| "execute_all message (step # steps) = thenp (harness_execute message step) (execute_all message steps)"

text \<open>The end of a program, after its tests and in its \<open>catch\<close> block.\<close>

definition exit_of :: "(exn \<Rightarrow> string) \<Rightarrow> unit outcome \<Rightarrow> (string, int) prog" where
  "exit_of message r = (case r of
       Ok _ \<Rightarrow> retp EXIT_SUCCESS
     | Throw e \<Rightarrow> thenp (modifyp (\<lambda>err. err @ ''Exception: '' @ exn_what message e @ lf)) (retp EXIT_FAILURE)
     | UB \<Rightarrow> ubp)"

text \<open>A test program: its tests in order, each with its name, capacity and steps.\<close>

fun run_tests :: "(exn \<Rightarrow> string) \<Rightarrow> (string \<times> size_t \<times> test_step list) list \<Rightarrow> (string, unit) prog" where
  "run_tests message [] = retp ()"
| "run_tests message ((name, capacity, steps) # tests) = (\<lambda>err.
     (case execute_all message steps (ByteStreamTestHarness name capacity, err) of
        (Ok _, (_, err')) \<Rightarrow> run_tests message tests err'
      | (Throw e, (_, err')) \<Rightarrow> (Throw e, err')
      | (UB, (_, err')) \<Rightarrow> (UB, err')))"

definition test_main :: "(exn \<Rightarrow> string) \<Rightarrow> (string \<times> size_t \<times> test_step list) list \<Rightarrow> (string, int) prog" where
  "test_main message tests = (\<lambda>err. case run_tests message tests err of (r, err') \<Rightarrow> exit_of message r err')"

section \<open>The test programs\<close>

definition byte_stream_construction :: "(string \<times> size_t \<times> test_step list) list" where
  "byte_stream_construction = [
   (''construction'', 15, [
      InputEnded False, BufferEmpty True, Eof False, BytesRead 0, BytesWritten 0, RemainingCapacity 15,
      BufferSize 0]),
   (''construction-end'', 15, [
      EndInput, InputEnded True, BufferEmpty True, Eof True, BytesRead 0, BytesWritten 0,
      RemainingCapacity 15, BufferSize 0])]"

definition byte_stream_one_write :: "(string \<times> size_t \<times> test_step list) list" where
  "byte_stream_one_write = [
   (''write-end-pop'', 15, [
      Write (bytes_of ''cat'') None, InputEnded False, BufferEmpty False, Eof False, BytesRead 0,
      BytesWritten 3, RemainingCapacity 12, BufferSize 3, Peek (bytes_of ''cat''), EndInput,
      InputEnded True, BufferEmpty False, Eof False, BytesRead 0, BytesWritten 3, RemainingCapacity 12,
      BufferSize 3, Peek (bytes_of ''cat''), Pop 3, InputEnded True, BufferEmpty True, Eof True,
      BytesRead 3, BytesWritten 3, RemainingCapacity 15, BufferSize 0]),
   (''write-pop-end'', 15, [
      Write (bytes_of ''cat'') None, InputEnded False, BufferEmpty False, Eof False, BytesRead 0,
      BytesWritten 3, RemainingCapacity 12, BufferSize 3, Peek (bytes_of ''cat''), Pop 3,
      InputEnded False, BufferEmpty True, Eof False, BytesRead 3, BytesWritten 3, RemainingCapacity 15,
      BufferSize 0, EndInput, InputEnded True, BufferEmpty True, Eof True, BytesRead 3, BytesWritten 3,
      RemainingCapacity 15, BufferSize 0]),
   (''write-pop2-end'', 15, [
      Write (bytes_of ''cat'') None, InputEnded False, BufferEmpty False, Eof False, BytesRead 0,
      BytesWritten 3, RemainingCapacity 12, BufferSize 3, Peek (bytes_of ''cat''), Pop 1,
      InputEnded False, BufferEmpty False, Eof False, BytesRead 1, BytesWritten 3,
      RemainingCapacity 13, BufferSize 2, Peek (bytes_of ''at''), Pop 2, InputEnded False,
      BufferEmpty True, Eof False, BytesRead 3, BytesWritten 3, RemainingCapacity 15, BufferSize 0,
      EndInput, InputEnded True, BufferEmpty True, Eof True, BytesRead 3, BytesWritten 3,
      RemainingCapacity 15, BufferSize 0])]"

definition byte_stream_two_writes :: "(string \<times> size_t \<times> test_step list) list" where
  "byte_stream_two_writes = [
   (''write-write-end-pop-pop'', 15, [
      Write (bytes_of ''cat'') None, InputEnded False, BufferEmpty False, Eof False, BytesRead 0,
      BytesWritten 3, RemainingCapacity 12, BufferSize 3, Peek (bytes_of ''cat''),
      Write (bytes_of ''tac'') None, InputEnded False, BufferEmpty False, Eof False, BytesRead 0,
      BytesWritten 6, RemainingCapacity 9, BufferSize 6, Peek (bytes_of ''cattac''), EndInput,
      InputEnded True, BufferEmpty False, Eof False, BytesRead 0, BytesWritten 6, RemainingCapacity 9,
      BufferSize 6, Peek (bytes_of ''cattac''), Pop 2, InputEnded True, BufferEmpty False, Eof False,
      BytesRead 2, BytesWritten 6, RemainingCapacity 11, BufferSize 4, Peek (bytes_of ''ttac''), Pop 4,
      InputEnded True, BufferEmpty True, Eof True, BytesRead 6, BytesWritten 6, RemainingCapacity 15,
      BufferSize 0]),
   (''write-pop-write-end-pop'', 15, [
      Write (bytes_of ''cat'') None, InputEnded False, BufferEmpty False, Eof False, BytesRead 0,
      BytesWritten 3, RemainingCapacity 12, BufferSize 3, Peek (bytes_of ''cat''), Pop 2,
      InputEnded False, BufferEmpty False, Eof False, BytesRead 2, BytesWritten 3,
      RemainingCapacity 14, BufferSize 1, Peek (bytes_of ''t''), Write (bytes_of ''tac'') None,
      InputEnded False, BufferEmpty False, Eof False, BytesRead 2, BytesWritten 6,
      RemainingCapacity 11, BufferSize 4, Peek (bytes_of ''ttac''), EndInput, InputEnded True,
      BufferEmpty False, Eof False, BytesRead 2, BytesWritten 6, RemainingCapacity 11, BufferSize 4,
      Peek (bytes_of ''ttac''), Pop 4, InputEnded True, BufferEmpty True, Eof True, BytesRead 6,
      BytesWritten 6, RemainingCapacity 15, BufferSize 0])]"

text \<open>The body of the loop of the test \<open>long-stream\<close>.\<close>

definition long_stream_round :: "test_step list" where
  "long_stream_round = [
      RemainingCapacity 1, BufferSize 2, Write (bytes_of ''abc'') (Some 1), RemainingCapacity 0,
      Peek (bytes_of ''bca''), Pop 1, RemainingCapacity 1, BufferSize 2,
      Write (bytes_of ''bca'') (Some 1), RemainingCapacity 0, Peek (bytes_of ''cab''), Pop 1,
      RemainingCapacity 1, BufferSize 2, Write (bytes_of ''cab'') (Some 1), RemainingCapacity 0,
      Peek (bytes_of ''abc''), Pop 1]"

definition overwrite_tests :: "(string \<times> size_t \<times> test_step list) list" where
  "overwrite_tests = [
   (''overwrite'', 2, [
      Write (bytes_of ''cat'') (Some 2), InputEnded False, BufferEmpty False, Eof False, BytesRead 0,
      BytesWritten 2, RemainingCapacity 0, BufferSize 2, Peek (bytes_of ''ca''),
      Write (bytes_of ''t'') (Some 0), InputEnded False, BufferEmpty False, Eof False, BytesRead 0,
      BytesWritten 2, RemainingCapacity 0, BufferSize 2, Peek (bytes_of ''ca'')]),
   (''overwrite-clear-overwrite'', 2, [
      Write (bytes_of ''cat'') (Some 2), Pop 2, Write (bytes_of ''tac'') (Some 2), InputEnded False,
      BufferEmpty False, Eof False, BytesRead 2, BytesWritten 4, RemainingCapacity 0, BufferSize 2,
      Peek (bytes_of ''ta'')]),
   (''overwrite-pop-overwrite'', 2, [
      Write (bytes_of ''cat'') (Some 2), Pop 1, Write (bytes_of ''tac'') (Some 1), InputEnded False,
      BufferEmpty False, Eof False, BytesRead 1, BytesWritten 3, RemainingCapacity 0, BufferSize 2,
      Peek (bytes_of ''at'')])]"

definition long_stream :: "test_step list" where
  "long_stream =
     [Write (bytes_of ''abcdef'') (Some 3), Peek (bytes_of ''abc''), Pop 1]
      @ concat (replicate 99997 long_stream_round)
      @ [EndInput, Peek (bytes_of ''bc''), Pop 2, Eof True]"

definition byte_stream_capacity :: "(string \<times> size_t \<times> test_step list) list" where
  "byte_stream_capacity = overwrite_tests @ [(''long-stream'', 3, long_stream)]"

section \<open>The program with random strings\<close>

definition NREPS :: nat where "NREPS = 1000"
definition MIN_WRITE :: nat where "MIN_WRITE = 10"
definition MAX_WRITE :: nat where "MAX_WRITE = 200"
definition CAPACITY :: size_t where "CAPACITY = word_of_nat (MAX_WRITE * NREPS)"

definition random_string :: "(mt19937, bytes) prog" where
  "random_string =
     bindp mt_next (\<lambda>x. let size' = MIN_WRITE + unat x mod (MAX_WRITE - MIN_WRITE)
       in generatep size' (bindp mt_next (\<lambda>y. retp (word_of_nat (97 + unat y mod 26)))))"

definition many_writes_round :: "size_t \<Rightarrow> bytes \<Rightarrow> test_step list" where
  "many_writes_round acc d =
     (let size' = csize d; acc' = acc + size'
      in [Write d (Some size'), InputEnded False, BufferEmpty False, Eof False, BytesRead 0,
          BytesWritten acc', RemainingCapacity (CAPACITY - acc'), BufferSize acc'])"

primrec many_writes_loop :: "(exn \<Rightarrow> string) \<Rightarrow> nat \<Rightarrow> size_t \<Rightarrow> (mt19937 \<times> test_run, unit) prog" where
  "many_writes_loop message 0 acc = retp ()"
| "many_writes_loop message (Suc i) acc =
     bindp (zoomp fst (\<lambda>rd (_, run). (rd, run)) random_string) (\<lambda>d.
     thenp (zoomp snd (\<lambda>run (rd, _). (rd, run)) (execute_all message (many_writes_round acc d)))
       (many_writes_loop message i (acc + csize d)))"

definition byte_stream_many_writes ::
  "(exn \<Rightarrow> string) \<Rightarrow> ('d, u32) prog \<Rightarrow> ('d \<times> string, int) prog" where
  "byte_stream_many_writes message device = (\<lambda>(s, err).
     case get_random_generator device s of
       (Ok rd, s') \<Rightarrow>
         (case many_writes_loop message NREPS 0 (rd, (ByteStreamTestHarness ''many writes'' CAPACITY, err)) of
            (r, (_, (_, err'))) \<Rightarrow> zoomp snd (\<lambda>err (s, _). (s, err)) (exit_of message r) (s', err'))
     | (Throw e, s') \<Rightarrow> zoomp snd (\<lambda>err (s, _). (s, err)) (exit_of message (Throw e)) (s', err)
     | (UB, s') \<Rightarrow> (UB, (s', err)))"

section \<open>Helpers no test includes\<close>

text \<open>\<open>_test_err_if\<close>, with the counter \<open>err_num\<close> as the state.\<close>

definition test_err_if :: "bool \<Rightarrow> string \<Rightarrow> int \<Rightarrow> (int, unit) prog" where
  "test_err_if err_condition err_string lineno =
     (if err_condition then throwp (Runtime_error (err_string @ '' (at line '' @ int_to_string lineno @ '')''))
      else (\<lambda>err_num. if err_num = 2 ^ 31 - 1 then (UB, err_num) else (Ok (), err_num + 1)))"

text \<open>
  \<open>_test_should_be\<close>. The function \<open>to_string\<close> comes from \<open>string_conversions.hh\<close>, a header that is not in
  the repository.
\<close>

definition test_should_be :: "('a \<Rightarrow> string) \<Rightarrow> 'a \<Rightarrow> 'a \<Rightarrow> string \<Rightarrow> string \<Rightarrow> int \<Rightarrow> ('s, unit) prog" where
  "test_should_be to_string actual expected actual_s expected_s lineno =
     (if actual \<noteq> expected
      then throwp (Runtime_error (''`'' @ actual_s @ ''` should have been `'' @ expected_s
        @ ''`, but the former is'' @ lf @ tab @ to_string actual @ lf @ ''and the latter is'' @ lf @ tab
        @ to_string expected @ lf @ '' (at line '' @ int_to_string lineno @ '')'' @ lf))
      else retp ())"

section \<open>The tests pass\<close>

text \<open>The steps without the harness: it adds nothing while they succeed.\<close>

primrec run_steps :: "test_step list \<Rightarrow> (byte_stream, unit) prog" where
  "run_steps [] = retp ()"
| "run_steps (step # steps) = thenp (step_execute step) (run_steps steps)"

definition succeeding :: "string \<times> size_t \<times> test_step list \<Rightarrow> bool" where
  "succeeding = (\<lambda>(name, capacity, steps). fst (run_steps steps (ByteStream capacity)) = Ok ())"

lemma run_steps_append: "run_steps (xs @ ys) = thenp (run_steps xs) (run_steps ys)"
  by (induction xs) (simp_all add: bindp_assoc)

lemma harness_execute_Ok:
  "step_execute step (th_byte_stream h) = (Ok (), bs) \<Longrightarrow>
   harness_execute message step (h, err) =
     (Ok (), (h\<lparr>th_byte_stream := bs, th_steps_executed := th_steps_executed h @ [step_string step]\<rparr>, err))"
  by (simp add: harness_execute_def prog_simps)

lemma execute_all_Ok:
  "run_steps steps (th_byte_stream h) = (Ok (), bs) \<Longrightarrow>
   \<exists>h'. execute_all message steps (h, err) = (Ok (), (h', err)) \<and> th_byte_stream h' = bs"
proof (induction steps arbitrary: h)
  case (Cons step steps)
  from Cons.prems obtain u bs1 where step: "step_execute step (th_byte_stream h) = (Ok u, bs1)"
    and rest: "run_steps steps bs1 = (Ok (), bs)"
    by (auto simp: bindp_eq_Ok)
  show ?case
    using Cons.IH [of "h\<lparr>th_byte_stream := bs1, th_steps_executed := th_steps_executed h @ [step_string step]\<rparr>"] rest
      harness_execute_Ok [of step h bs1] step
    by (simp add: prog_simps)
qed (simp add: retp_def)

lemma run_tests_Ok: "list_all succeeding tests \<Longrightarrow> run_tests message tests err = (Ok (), err)"
proof (induction tests)
  case (Cons t tests)
  obtain name capacity steps where t: "t = (name, capacity, steps)" by (metis prod_cases3)
  with Cons.prems have "fst (run_steps steps (ByteStream capacity)) = Ok ()" by (simp add: succeeding_def)
  then obtain bs where "run_steps steps (th_byte_stream (ByteStreamTestHarness name capacity)) = (Ok (), bs)"
    by (cases "run_steps steps (ByteStream capacity)") (simp add: ByteStreamTestHarness_def)
  from execute_all_Ok [where message = message and err = err, OF this] Cons show ?case by (auto simp: t)
qed (simp add: retp_def)

lemma test_main_Ok: "list_all succeeding tests \<Longrightarrow> test_main message tests err = (Ok EXIT_SUCCESS, err)"
  using run_tests_Ok by (simp add: test_main_def exit_of_def prog_simps)

lemma byte_stream_construction_passes: "test_main message byte_stream_construction err = (Ok EXIT_SUCCESS, err)"
  by (rule test_main_Ok) code_simp

lemma byte_stream_one_write_passes: "test_main message byte_stream_one_write err = (Ok EXIT_SUCCESS, err)"
  by (rule test_main_Ok) code_simp

lemma byte_stream_two_writes_passes: "test_main message byte_stream_two_writes err = (Ok EXIT_SUCCESS, err)"
  by (rule test_main_Ok) code_simp

lemmas step_simps = expect_size_def expect_bool_def stream_accessors stream_eqs stream_ok_def stream_room_def
  Let_def prog_simps retp_def

text \<open>One round of the long stream, and many.\<close>

definition long_stream_state :: "size_t \<Rightarrow> byte_stream" where
  "long_stream_state n = \<lparr>bs_buffer = [98, 99], bs_capacity = 3, bs_readCount = n, bs_writeCount = n + 2,
     bs_isInputEnded = False, bs_error = False\<rparr>"

lemma long_stream_round: "run_steps long_stream_round (long_stream_state n) = (Ok (), long_stream_state (n + 3))"
  by (simp add: long_stream_round_def long_stream_state_def step_simps csize_def bytes_of_def)

lemma long_stream_rounds:
  "run_steps (concat (replicate k long_stream_round)) (long_stream_state n) =
     (Ok (), long_stream_state (n + 3 * word_of_nat k))"
  by (induction k arbitrary: n)
    (simp_all add: run_steps_append long_stream_round retp_def algebra_simps bindp_def)

lemma long_stream_runs: "\<exists>bs. run_steps long_stream (ByteStream 3) = (Ok (), bs)"
proof -
  let ?last = "[EndInput, Peek (bytes_of ''bc''), Pop 2, Eof True]"
  have start: "run_steps [Write (bytes_of ''abcdef'') (Some 3), Peek (bytes_of ''abc''), Pop 1] (ByteStream 3)
      = (Ok (), long_stream_state 1)"
    by (simp add: long_stream_state_def step_simps csize_def bytes_of_def ByteStream_def)
  have "\<exists>bs. run_steps ?last (long_stream_state n) = (Ok (), bs)" for n
    by (simp add: long_stream_state_def step_simps csize_def bytes_of_def stream_end_input_def)
  then obtain bs where fin: "run_steps ?last (long_stream_state (1 + 3 * word_of_nat 99997)) = (Ok (), bs)"
    by blast
  have "run_steps long_stream (ByteStream 3) = (Ok (), bs)"
    by (simp only: long_stream_def run_steps_append start long_stream_rounds fin
        bindp_step outcome.case)
  then show ?thesis ..
qed

lemma byte_stream_capacity_passes: "test_main message byte_stream_capacity err = (Ok EXIT_SUCCESS, err)"
proof (rule test_main_Ok)
  have "list_all succeeding overwrite_tests" by code_simp
  moreover obtain bs where "run_steps long_stream (ByteStream 3) = (Ok (), bs)"
    using long_stream_runs by blast
  ultimately show "list_all succeeding byte_stream_capacity"
    by (simp only: byte_stream_capacity_def list_all_append list.pred_inject succeeding_def prod.case
        fst_conv simp_thms)
qed

text \<open>The stream of the last program after some writes.\<close>

definition written :: "bytes \<Rightarrow> byte_stream" where
  "written buf = (ByteStream CAPACITY)\<lparr>bs_buffer := buf, bs_writeCount := csize buf\<rparr>"

lemma unat_CAPACITY: "unat CAPACITY = 200000"
  by (simp add: CAPACITY_def MAX_WRITE_def NREPS_def)

lemma many_writes_round_runs:
  assumes "d \<noteq> []" and "length buf + length d \<le> 200000"
  shows "run_steps (many_writes_round (csize buf) d) (written buf) = (Ok (), written (buf @ d))"
proof -
  have "stream_ok (written buf)" "length d < size_limit" "length d \<le> stream_room (written buf)"
    using assms(2) by (simp_all add: stream_ok_def stream_room_def written_def ByteStream_def unat_CAPACITY)
  then have "stream_write d (written buf) = (Ok (csize d), written (buf @ d))"
    by (simp add: stream_write_eq Let_def min_def written_def csize_def add.commute)
  moreover have "bs_buffer (written b) = b" "bs_isInputEnded (written b) = False" "bs_readCount (written b) = 0"
    "bs_writeCount (written b) = csize b" "bs_capacity (written b) = CAPACITY" for b
    by (simp_all add: written_def ByteStream_def)
  ultimately show ?thesis
    using assms(1)
    by (simp add: many_writes_round_def Let_def prog_simps expect_size_def expect_bool_def stream_accessors retp_def)
qed

lemma mt_next_Ok: "\<exists>x rd'. mt_next rd = (Ok x, rd')"
  by (simp add: mt_next_def)

lemma random_string_Ok: "\<exists>d rd'. random_string rd = (Ok d, rd') \<and> 10 \<le> length d \<and> length d < 200"
proof -
  obtain x rd1 where x: "mt_next rd = (Ok x, rd1)" using mt_next_Ok by blast
  let ?n = "10 + unat x mod 190" and ?letter = "bindp mt_next (\<lambda>y. retp (word_of_nat (97 + unat y mod 26)))"
  have "\<forall>rd. \<exists>y rd'. (?letter :: (mt19937, u8) prog) rd = (Ok y, rd')"
    by (simp add: mt_next_def prog_simps)
  from generatep_Ok [OF this, of ?n rd1] obtain d rd' where
    "generatep ?n ?letter rd1 = (Ok (d :: bytes), rd')" "length d = ?n" by blast
  moreover have "unat x mod 190 < 190" by simp
  ultimately show ?thesis
    using x by (simp add: random_string_def MIN_WRITE_def MAX_WRITE_def Let_def prog_simps)
qed

lemma many_writes_loop_Ok:
  "th_byte_stream h = written buf \<Longrightarrow> length buf + 200 * n \<le> 200000 \<Longrightarrow>
   \<exists>rd' h'. many_writes_loop message n (csize buf) (rd, (h, err)) = (Ok (), (rd', (h', err)))"
proof (induction n arbitrary: rd h buf)
  case (Suc n)
  obtain d rd1 where d: "random_string rd = (Ok d, rd1)" "10 \<le> length d" "length d < 200"
    using random_string_Ok by blast
  then have "d \<noteq> []" "length buf + length d \<le> 200000" using Suc.prems(2) by auto
  from many_writes_round_runs [OF this] Suc.prems(1) obtain h1 where
    h1: "execute_all message (many_writes_round (csize buf) d) (h, err) = (Ok (), (h1, err))"
      "th_byte_stream h1 = written (buf @ d)"
    using execute_all_Ok by metis
  from Suc.IH [OF h1(2), of rd1] Suc.prems(2) d(3) obtain rd' h' where
    "many_writes_loop message n (csize (buf @ d)) (rd1, (h1, err)) = (Ok (), (rd', (h', err)))" by auto
  with d(1) h1(1) show ?case by (simp add: prog_simps)
qed (simp add: retp_def)

section \<open>Properties\<close>

text \<open>
  C5. The test of many writes passes whatever random numbers it gets: on any random device that does
  not fail, the generator is seeded, every string it makes has a length within the bounds, each of the
  thousand writes into the byte stream is accepted whole and all counters are as expected after it, so
  that the program returns \<open>EXIT_SUCCESS\<close> and prints nothing.
\<close>

theorem many_writes_test_passes:
  assumes "\<forall>s. \<exists>x s'. device s = (Ok x, s')"
  shows "\<exists>s'. byte_stream_many_writes message device (s, err) = (Ok EXIT_SUCCESS, (s', err))"
proof -
  from get_random_generator_Ok [of device s] assms obtain rd s' where
    rd: "get_random_generator device s = (Ok rd, s')" by blast
  let ?h = "ByteStreamTestHarness ''many writes'' CAPACITY"
  have "th_byte_stream ?h = written []" by (simp add: ByteStreamTestHarness_def written_def ByteStream_def)
  from many_writes_loop_Ok [OF this, of NREPS message rd err] rd show ?thesis
    by (auto simp: byte_stream_many_writes_def NREPS_def exit_of_def prog_simps)
qed

text \<open>A random device that counts.\<close>

definition counting_device :: "(u32, u32) prog" where
  "counting_device = (\<lambda>n. (Ok n, n + 1))"

theorem many_writes_test_passes_witness:
  "fst (byte_stream_many_writes (\<lambda>_. []) counting_device (7, [])) = Ok EXIT_SUCCESS"
  using many_writes_test_passes [of counting_device "\<lambda>_. []" 7 "[]"] by (auto simp: counting_device_def)

end
