(* ===== verification/Spec2Isabelle.thy ===== *)
theory Spec2Isabelle
  imports Byte_Stream Buffer_Programs Parser Internet_Checksum Socket Event_Loop_Life Webget Hexdump Timestamp
    Loopback_Examples Byte_Stream_Tests
begin

text \<open>
  \<^bold>\<open>Verification of the sponge library\<close> (\<open>src/libsponge\<close>, with the program of \<open>src/apps\<close> and the
  documentation tests of \<open>src/doctests\<close>): a C++17 library of a flow-controlled byte stream, packet
  parsing, the Internet checksum, and object-oriented wrappers of file descriptors, sockets, TUN/TAP
  devices and \<open>poll\<close>, and a web client built on it.

  \<^bold>\<open>How the parts interact.\<close> \<open>ByteStream\<close>, \<open>InternetChecksum\<close>, \<open>hexdump\<close>
  and \<open>timestamp_ms\<close> stand alone. \<open>NetParser\<close>
  reads from a \<open>Buffer\<close> and drops what it has read; \<open>FileDescriptor::write\<close> walks a
  \<open>BufferViewList\<close> in the same way, as iovecs of \<open>writev\<close>. Every wrapper makes its calls through
  \<open>SystemCall\<close>, which turns an error into an exception. \<open>Socket\<close> and \<open>TunTapFD\<close> are
  \<open>FileDescriptor\<close>s; an \<open>EventLoop\<close> keeps duplicates of the descriptors it polls and compares their
  service counters before and after a callback; \<open>get_URL\<close> uses \<open>Address\<close> and \<open>TCPSocket\<close>.

  \<^bold>\<open>The theories\<close>, with the code each models (the order of the imports is that of the calls):
  \<^item> \<open>Sponge_Prelude\<close>: machine types, outcomes (\<open>Ok\<close>, \<open>Throw\<close>, \<open>UB\<close>), programs with explicit state and
    their combinators, the counted loop \<open>forp\<close>, unchecked and checked indexing. The collections
    \<open>prog_simps\<close> (evaluation), \<open>prog_intros\<close> (\<open>keeps\<close> and \<open>safe\<close>, operation by operation) and
    \<open>size_simps\<close> (sizes as words) carry the proofs of the components.
  \<^item> \<open>Byte_Stream\<close>: \<open>byte_stream.hh\<close>, \<open>byte_stream.cc\<close>. The record \<open>byte_stream\<close> is the object,
    \<open>stream_write\<close>, \<open>stream_peek_output\<close>, \<open>stream_pop_output\<close>, \<open>stream_read\<close> and the rest its members.
  \<^item> \<open>Random_Generator\<close>: \<open>get_random_generator\<close> of \<open>util/util.hh\<close> and \<open>util/util.cc\<close>, with the parts of
    the standard library it consists of; the random device is a parameter.
  \<^item> \<open>Byte_Stream_Tests\<close>: the harness and the five test programs of \<open>src/tests\<close>, with lemmas that the
    model of the byte stream passes them.
  \<^item> \<open>Buffers\<close>: \<open>util/buffer.hh\<close>, \<open>util/buffer.cc\<close>. \<open>Buffer\<close>, \<open>BufferList\<close>, \<open>BufferViewList\<close>.
  \<^item> \<open>Shared_Buffers\<close>: the same files with their memory: \<open>shared_ptr\<close> as an address with a use count in a
    \<open>store\<close> of strings, every copy and destruction a step, a view a pointer into a string.
  \<^item> \<open>Buffer_Programs\<close>: programs over several \<open>BufferList\<close>s, on shared strings and on values.
  \<^item> \<open>Parser\<close>: \<open>util/parser.hh\<close>, \<open>util/parser.cc\<close>, \<open>doctests/parser_example.cc\<close>. \<open>parse_int\<close> and
    \<open>unparse_int\<close> are the templates, \<open>parser_u32\<close> to \<open>unparser_u8\<close> their instances.
  \<^item> \<open>Internet_Checksum\<close>: \<open>class InternetChecksum\<close> of \<open>util/util.hh\<close> and \<open>util/util.cc\<close>.
  \<^item> \<open>Unix_World\<close>: the record \<open>kernel\<close> of the system calls, a parameter, the state \<open>world\<close> of the process,
    and \<open>SystemCall\<close>, \<open>tagged_error\<close>, \<open>unix_error\<close> of \<open>util/util.hh\<close> and \<open>util/util.cc\<close>.
  \<^item> \<open>File_Descriptor\<close>: \<open>util/file_descriptor.hh\<close>, \<open>util/file_descriptor.cc\<close>. A handle is the address of
    an \<open>FDWrapper\<close> in the heap of \<open>world\<close>, with a reference count, as the \<open>shared_ptr\<close> is.
  \<^item> \<open>Handles\<close>: variables that hold a \<open>FileDescriptor\<close>, with the move operations of
    \<open>util/file_descriptor.hh\<close>, after which a variable is null, and a static check of their use.
  \<^item> \<open>Address\<close>: \<open>util/address.hh\<close>, \<open>util/address.cc\<close>, \<open>doctests/address_dt.cc\<close>.
  \<^item> \<open>Socket\<close>: \<open>util/socket.hh\<close>, \<open>util/socket.cc\<close>, \<open>util/tun.hh\<close>, \<open>util/tun.cc\<close>.
  \<^item> \<open>Event_Loop\<close>: \<open>util/eventloop.hh\<close>, \<open>util/eventloop.cc\<close>. The client's closures are a parameter.
  \<^item> \<open>Event_Loop_Life\<close>: construction and destruction of an \<open>EventLoop\<close>, and every state it can reach.
  \<^item> \<open>Webget\<close>: \<open>apps/webget.cc\<close>. \<open>get_URL\<close> and \<open>main\<close>.
  \<^item> \<open>Socket_Doctest\<close>: \<open>doctests/socket_dt.cc\<close>, \<open>socket_example_1.cc\<close> to \<open>socket_example_3.cc\<close> and
    \<open>parser_dt.cc\<close>: the sockets at work together, with the destructors of nested scopes.
  \<^item> \<open>Loopback\<close>, \<open>Loopback_Kernel\<close>, \<open>Loopback_Examples\<close>: no further code; what a network that works is
    (the contract \<open>loopback\<close>), a total-correctness triple for each operation of a socket on it, a kernel
    that keeps the contract, and the three socket examples run on any such kernel.
  \<^item> \<open>Hexdump\<close>: \<open>hexdump\<close> of \<open>util/util.hh\<close> and \<open>util/util.cc\<close>.
  \<^item> \<open>Timestamp\<close>: \<open>timestamp_ms\<close> of \<open>util/util.hh\<close> and \<open>util/util.cc\<close>, on a clock that is a parameter;
    \<open>timestamps_monotone\<close> is its lemma.

  \<^bold>\<open>Interfaces.\<close> \<open>byte_queue\<close>, a bounded first-in first-out queue, is interpreted on \<open>ByteStream\<close> as
  \<open>bsq\<close>; \<open>front_droppable\<close>, a string that discards its front, on \<open>Buffer\<close>, \<open>BufferList\<close> and
  \<open>BufferViewList\<close> as \<open>buf\<close>, \<open>blist\<close> and \<open>vlist\<close>; \<open>front_readable\<close> extends it with indexing and is what
  the parser needs of a \<open>Buffer\<close>; \<open>int_codec\<close>, a field that is written and read back, on the three
  widths as \<open>c32\<close>, \<open>c16\<close>, \<open>c8\<close>.

  \<^bold>\<open>What is shown.\<close> The byte stream refines a specification that remembers every byte (C1 to C4), and
  passes its test of many random writes whatever the random numbers are (C5); the generator they come
  from never gets stuck (C6). The three buffer classes drop exactly what they are asked to, in step with
  each other (C7, C8); that they share strings cannot be observed, each string is freed with its last
  buffer, and views are good as long as their list is left alone (C9, C10). Packet fields go round, parsing
  any input is safe and its errors stick (C11, C12). The checksum is the ones' complement sum, however the
  data is cut, and notices a changed byte (C13 to C16). A descriptor is written to completely, read as the
  kernel says, closed once, and used safely over any life (C17 to C20); a block whose variables pass the
  static check uses no handle that was moved from and gives back what it took (C21). Addresses go round
  (C22, C23). Sockets leak nothing when they throw, and datagrams are received whole (C24 to C27). One turn of the event loop ends and is safe
  (C28), a loop keeps its descriptors alive and gives back all it took (C29), and each result is paired
  with its rule (C30), with the behaviour on errors, busy callbacks and callbacks that add rules (C31 to
  C33). The web client prints the response and cleans up (C34, C35). The socket examples of the
  documentation give back what they open whatever the kernel does (C36), and on a network that works
  they succeed (C37). A dump has the layout it is meant to have, up to \<open>2 ^ 31\<close> bytes, and can be read
  back (C38 to C40).

  \<^bold>\<open>Termination and bounds.\<close> No definition uses fuel. The loops of the library end by a measure proved
  with their definition: counters of \<open>size_t\<close> loops, bytes not yet written, carries to be folded,
  rules and results left. The two loops that may run for ever, the first loop of \<open>wait_next_event\<close> and
  the reading loop of \<open>get_URL\<close>, are \<open>partial_function (option)\<close>; where they end is a theorem (C28, C34).
  Words have the width of the code (LP64) and wrap; sizes of strings are bounded by \<open>2 ^ 64\<close>
  where \<open>size()\<close> must be the length, by \<open>2 ^ 63\<close> where it is compared with a \<open>ssize_t\<close>. The host is
  little-endian (only \<open>Address\<close> depends on it).

  \<^bold>\<open>Outside the model.\<close> The kernel and the resolver are parameters, and what a property relies on is a
  named contract (\<open>read_contract\<close>, \<open>writev_contract\<close>, \<open>poll_contract\<close>, \<open>resolver_contract\<close>, \<open>loopback\<close>
  and the like) which the witness of the property meets with a concrete kernel. So are the clock and the
  random device. The texts of error numbers come from the standard library. Memory allocation does not
  fail, and output to \<open>cout\<close> and \<open>cerr\<close> succeeds. Freeing the answer of \<open>getaddrinfo\<close> has no effect.

  \<^bold>\<open>Not modelled.\<close> A closure of the event loop that itself calls \<open>wait_next_event\<close>. The address of
  the category object that an error code keeps. Members that C++ generates without state to manage
  (copies and moves of values such as \<open>ByteStream\<close> or \<open>Address\<close>) are those of the values of HOL.
\<close>

end
